(* ===== verification/Prelude.thy ===== *)
theory Prelude
  imports Main
begin

text \<open>
  Shared vocabulary of the qeminga development.

  \<^item> Rust byte strings (\<^verbatim>\<open>Vec<u8>\<close>, \<^verbatim>\<open>&[u8]\<close>) and Rust strings (\<^verbatim>\<open>String\<close>, which are
    UTF-8 byte sequences measured in bytes) are both \<open>byte list\<close>, with \<open>byte = char\<close>: HOL's
    \<open>char\<close> has exactly 256 values.
  \<^item> \<^verbatim>\<open>Result<T, E>\<close> is the sum type \<open>'e + 'a\<close>, written \<open>Err e\<close> and \<open>Ok x\<close>.
  \<^item> \<^verbatim>\<open>usize\<close> and \<^verbatim>\<open>u64\<close> quantities are \<open>nat\<close>; where the source saturates, the model uses
    \<open>sat_add\<close>, \<open>sat_sub\<close> and \<open>sat_mul\<close> at the 64-bit maximum.
  \<^item> A component with interleaved steps is a start predicate and a step relation; the locale
    \<open>inductive_invariant\<close> turns a preserved property into one of every reachable state.
\<close>

named_theorems gate_simps \<open>the tables of the dispatcher and the limiter\<close>
named_theorems frame_simps \<open>what an operation leaves unchanged\<close>

section \<open>Bytes, results, machine integers\<close>

type_synonym byte = char
type_synonym bytes = "byte list"
type_synonym ('e, 'a) result = "'e + 'a"

abbreviation Ok :: "'a \<Rightarrow> ('e, 'a) result" where
  "Ok \<equiv> Inr"

abbreviation Err :: "'e \<Rightarrow> ('e, 'a) result" where
  "Err \<equiv> Inl"

definition is_ok :: "('e, 'a) result \<Rightarrow> bool" where
  "is_ok r = (case r of Ok _ \<Rightarrow> True | Err _ \<Rightarrow> False)"

abbreviation NEWLINE :: byte where
  "NEWLINE \<equiv> CHR 0x0A"

definition U64_MAX :: nat where
  "U64_MAX = 18446744073709551615"

text \<open>\<^verbatim>\<open>saturating_add\<close>, \<^verbatim>\<open>saturating_sub\<close> and \<^verbatim>\<open>saturating_mul\<close> on 64-bit unsigned values.\<close>

definition sat_add :: "nat \<Rightarrow> nat \<Rightarrow> nat" where
  "sat_add a b = min (a + b) U64_MAX"

definition sat_sub :: "nat \<Rightarrow> nat \<Rightarrow> nat" where
  "sat_sub a b = a - b"

definition sat_mul :: "nat \<Rightarrow> nat \<Rightarrow> nat" where
  "sat_mul a b = min (a * b) U64_MAX"

text \<open>The slice \<^verbatim>\<open>&xs[i..j]\<close>.\<close>

definition slice :: "nat \<Rightarrow> nat \<Rightarrow> 'a list \<Rightarrow> 'a list" where
  "slice i j xs = take (j - i) (drop i xs)"

text \<open>\<^verbatim>\<open>u8::is_ascii_whitespace\<close>: space, tab, line feed, form feed, carriage return.\<close>

definition is_ascii_whitespace :: "byte \<Rightarrow> bool" where
  "is_ascii_whitespace b \<longleftrightarrow>
     b = CHR '' '' \<or> b = CHR 0x09 \<or> b = CHR 0x0A \<or> b = CHR 0x0C \<or> b = CHR 0x0D"

text \<open>\<^verbatim>\<open>Option::get_or_insert\<close>: the first value stays.\<close>

definition get_or_insert :: "'a option \<Rightarrow> 'a \<Rightarrow> 'a option" where
  "get_or_insert o' x = (case o' of Some y \<Rightarrow> Some y | None \<Rightarrow> Some x)"

text \<open>Decimal text of an integer, as \<^verbatim>\<open>format!("{}")\<close> prints it.\<close>

definition digit :: "nat \<Rightarrow> byte" where
  "digit d = char_of (48 + d)"

fun show_nat :: "nat \<Rightarrow> string" where
  "show_nat n = (if n < 10 then [digit n] else show_nat (n div 10) @ [digit (n mod 10)])"

declare show_nat.simps [simp del]

definition show_int :: "int \<Rightarrow> string" where
  "show_int i = (if i < 0 then ''-'' @ show_nat (nat (- i)) else show_nat (nat i))"

text \<open>Lowercase hexadecimal, as \<^verbatim>\<open>{:x}\<close> and \<^verbatim>\<open>{:02x}\<close> print it.\<close>

definition hex_digit :: "nat \<Rightarrow> byte" where
  "hex_digit d = (if d < 10 then char_of (48 + d) else char_of (87 + d))"

definition hex_octet :: "nat \<Rightarrow> string" where
  "hex_octet b = [hex_digit (b div 16), hex_digit (b mod 16)]"

definition I64_MAX :: int where
  "I64_MAX = 9223372036854775807"

definition is_i64 :: "int \<Rightarrow> bool" where
  "is_i64 i \<longleftrightarrow> - I64_MAX - 1 \<le> i \<and> i \<le> I64_MAX"

section \<open>Reachable states\<close>

inductive reachable :: "('s \<Rightarrow> bool) \<Rightarrow> ('s \<Rightarrow> 's \<Rightarrow> bool) \<Rightarrow> 's \<Rightarrow> bool"
  for start :: "'s \<Rightarrow> bool" and step :: "'s \<Rightarrow> 's \<Rightarrow> bool" where
  reach_start: "start s \<Longrightarrow> reachable start step s"
| reach_step: "reachable start step s \<Longrightarrow> step s t \<Longrightarrow> reachable start step t"

lemma reachable_run: "step\<^sup>*\<^sup>* s t \<Longrightarrow> reachable start step s \<Longrightarrow> reachable start step t"
  by (induction rule: rtranclp_induct) (auto intro: reach_step)

locale inductive_invariant =
  fixes start :: "'s \<Rightarrow> bool" and step :: "'s \<Rightarrow> 's \<Rightarrow> bool" and inv :: "'s \<Rightarrow> bool"
  assumes inv_start: "start s \<Longrightarrow> inv s"
    and inv_step: "inv s \<Longrightarrow> step s t \<Longrightarrow> inv t"
begin

lemma inv_reachable: "reachable start step s \<Longrightarrow> inv s"
  by (induction rule: reachable.induct) (auto intro: inv_start inv_step)

lemma inv_run: "step\<^sup>*\<^sup>* s t \<Longrightarrow> inv s \<Longrightarrow> inv t"
  by (induction rule: rtranclp_induct) (auto intro: inv_step)

end

section \<open>Generic lemmas\<close>

lemma find_member: "find P xs = Some x \<Longrightarrow> x \<in> set xs \<and> P x"
  by (induction xs) (auto split: if_splits)

lemma is_ok_simps [simp]: "is_ok (Ok x)" "\<not> is_ok (Err e)"
  by (simp_all add: is_ok_def)

lemma get_or_insert_simps [simp]:
  "get_or_insert None x = Some x" "get_or_insert (Some y) x = Some y"
  by (simp_all add: get_or_insert_def)

lemma get_or_insert_not_None [simp]: "get_or_insert a x \<noteq> None"
  by (cases a) simp_all

lemma sat_add_assoc: "sat_add (sat_add a b) c = sat_add a (b + c)"
  by (simp add: sat_add_def)

lemma sat_add_0 [simp]: "a \<le> U64_MAX \<Longrightarrow> sat_add a 0 = a"
  by (simp add: sat_add_def)

lemma sat_add_le [simp]: "sat_add a b \<le> U64_MAX"
  by (simp add: sat_add_def)

lemma sat_add_small: "a + b \<le> U64_MAX \<Longrightarrow> sat_add a b = a + b"
  by (simp add: sat_add_def)

lemma sat_add_gt_iff: "m < U64_MAX \<Longrightarrow> m < sat_add a b \<longleftrightarrow> m < a + b"
  by (simp add: sat_add_def)

lemma sat_add_mono1: "a \<le> a' \<Longrightarrow> sat_add a b \<le> sat_add a' b"
  by (simp add: sat_add_def)

lemma length_show_nat: "n < 10 ^ k \<Longrightarrow> 0 < k \<Longrightarrow> length (show_nat n) \<le> k"
proof (induction n arbitrary: k rule: show_nat.induct)
  case (1 n)
  show ?case
  proof (cases "n < 10")
    case True
    then show ?thesis using "1.prems" by (simp add: show_nat.simps)
  next
    case False
    then obtain j where k: "k = Suc j" "0 < j"
      using "1.prems" by (cases k; cases "k - 1") auto
    then have "n div 10 < 10 ^ j" using "1.prems" by (simp add: less_mult_imp_div_less mult.commute)
    with False k "1.IH" show ?thesis by (simp add: show_nat.simps [of n])
  qed
qed

lemma length_show_i64: "is_i64 i \<Longrightarrow> length (show_int i) \<le> 20"
  using length_show_nat [of "nat \<bar>i\<bar>" 19]
  by (cases "i < 0") (auto simp: show_int_def is_i64_def I64_MAX_def nat_less_iff)

lemma slice_empty [simp]: "slice i i xs = []"
  by (simp add: slice_def)

lemma slice_all: "slice 0 (length xs) xs = xs"
  by (simp add: slice_def)

lemma slice_snoc:
  assumes "i \<le> j" "j < length xs"
  shows "slice i (Suc j) xs = slice i j xs @ [xs ! j]"
proof -
  from assms have "Suc j - i = Suc (j - i)" and "j - i < length (drop i xs)"
    by auto
  with assms show ?thesis
    by (simp add: slice_def take_Suc_conv_app_nth)
qed

end
