(* ===== verification/Framing.thy ===== *)
theory Framing
  imports Prelude
begin

text \<open>
  \<^verbatim>\<open>src/framing.rs\<close>: the newline-delimited frame decoder with \<^verbatim>\<open>0xFF\<close> resynchronisation and the
  reply encoder. The decoder is the record \<open>frame_decoder\<close>; \<open>push\<close> is the indexed loop of
  \<^verbatim>\<open>FrameDecoder::push\<close>, which hands whole delimiter-free slices to \<open>consume_data\<close>.

  Shown: the loop equals a byte-at-a-time reference decoder, hence cutting the input into chunks
  never changes the events; the buffer never exceeds the frame bound; from a fresh decoder the
  events are those of a declarative reading of the stream by segments; encoded replies decode to
  themselves, and a sentinel resynchronises from every state.
\<close>

section \<open>The decoder\<close>

definition MAX_FRAME_LEN :: nat where
  "MAX_FRAME_LEN = 65536"

definition SENTINEL :: byte where
  "SENTINEL = CHR 0xFF"

datatype decode_event =
    Frame bytes bool
  | Oversized nat

record frame_decoder =
  fd_buf :: bytes
  fd_discarding :: bool
  fd_discarded :: nat
  fd_sentinel_pending :: bool

definition new_decoder :: frame_decoder where
  "new_decoder =
     \<lparr>fd_buf = [], fd_discarding = False, fd_discarded = 0, fd_sentinel_pending = False\<rparr>"

definition reset_decoder :: "frame_decoder \<Rightarrow> frame_decoder" where
  "reset_decoder d =
     d\<lparr>fd_buf := [], fd_discarding := False, fd_discarded := 0, fd_sentinel_pending := False\<rparr>"

definition buffered_len :: "frame_decoder \<Rightarrow> nat" where
  "buffered_len d = length (fd_buf d)"

definition is_discarding :: "frame_decoder \<Rightarrow> bool" where
  "is_discarding d = fd_discarding d"

definition consume_data :: "frame_decoder \<Rightarrow> bytes \<Rightarrow> frame_decoder" where
  "consume_data d dat =
     (if dat = [] then d
      else if fd_discarding d then d\<lparr>fd_discarded := sat_add (fd_discarded d) (length dat)\<rparr>
      else if sat_add (length (fd_buf d)) (length dat) > MAX_FRAME_LEN
      then d\<lparr>fd_discarding := True,
             fd_discarded := sat_add (length (fd_buf d)) (length dat),
             fd_buf := []\<rparr>
      else d\<lparr>fd_buf := fd_buf d @ dat\<rparr>)"

definition end_of_frame ::
  "frame_decoder \<times> decode_event list \<Rightarrow> frame_decoder \<times> decode_event list" where
  "end_of_frame = (\<lambda>(d, evs).
     if fd_discarding d
     then (d\<lparr>fd_discarding := False, fd_discarded := 0\<rparr>, evs @ [Oversized (fd_discarded d)])
     else if list_all is_ascii_whitespace (fd_buf d) then (d\<lparr>fd_buf := []\<rparr>, evs)
     else (d\<lparr>fd_buf := [], fd_sentinel_pending := False\<rparr>,
           evs @ [Frame (fd_buf d) (fd_sentinel_pending d)]))"

definition on_sentinel ::
  "frame_decoder \<times> decode_event list \<Rightarrow> frame_decoder \<times> decode_event list" where
  "on_sentinel = (\<lambda>(d, evs).
     if fd_discarding d
     then (d\<lparr>fd_discarding := False, fd_discarded := 0, fd_buf := [], fd_sentinel_pending := True\<rparr>,
           evs @ [Oversized (fd_discarded d)])
     else (d\<lparr>fd_buf := [], fd_sentinel_pending := True\<rparr>, evs))"

text \<open>
  The loop over \<^verbatim>\<open>input.iter().enumerate()\<close>: the list argument is what the iterator still holds,
  \<open>pos\<close> its index and \<open>beg\<close> the start of the slice not yet consumed.
\<close>

fun push_loop :: "bytes \<Rightarrow> bytes \<Rightarrow> nat \<Rightarrow> nat \<Rightarrow> frame_decoder \<times> decode_event list
    \<Rightarrow> frame_decoder \<times> decode_event list" where
  "push_loop input [] pos beg (d, evs) = (consume_data d (slice beg (length input) input), evs)"
| "push_loop input (b # bs) pos beg (d, evs) =
     (if b = NEWLINE
      then push_loop input bs (Suc pos) (Suc pos)
             (end_of_frame (consume_data d (slice beg pos input), evs))
      else if b = SENTINEL
      then push_loop input bs (Suc pos) (Suc pos)
             (on_sentinel (consume_data d (slice beg pos input), evs))
      else push_loop input bs (Suc pos) beg (d, evs))"

definition push :: "frame_decoder \<Rightarrow> bytes \<Rightarrow> frame_decoder \<times> decode_event list" where
  "push d input = push_loop input input 0 0 (d, [])"

text \<open>Pushing the chunks a session reads, one after the other.\<close>

fun push_chunks :: "frame_decoder \<Rightarrow> bytes list \<Rightarrow> frame_decoder \<times> decode_event list" where
  "push_chunks d [] = (d, [])"
| "push_chunks d (c # cs) =
     (let (d1, e1) = push d c; (d2, e2) = push_chunks d1 cs in (d2, e1 @ e2))"

definition encode :: "bytes \<Rightarrow> bool \<Rightarrow> bytes" where
  "encode json sentinel = (if sentinel then [SENTINEL] else []) @ json @ [NEWLINE]"

section \<open>A byte-at-a-time reference decoder\<close>

definition byte_step ::
  "frame_decoder \<times> decode_event list \<Rightarrow> byte \<Rightarrow> frame_decoder \<times> decode_event list" where
  "byte_step s b =
     (if b = NEWLINE then end_of_frame s
      else if b = SENTINEL then on_sentinel s
      else (consume_data (fst s) [b], snd s))"

definition decoder_ok :: "frame_decoder \<Rightarrow> bool" where
  "decoder_ok d \<longleftrightarrow> length (fd_buf d) \<le> MAX_FRAME_LEN \<and>
     fd_discarded d \<le> U64_MAX \<and>
     (if fd_discarding d then fd_buf d = [] \<and> fd_discarded d > MAX_FRAME_LEN
      else fd_discarded d = 0)"

text \<open>
  A delimiter-free stretch of the stream is data; the stream is a list of such stretches, each
  closed by a newline or by a sentinel, and an unfinished last stretch.
\<close>

datatype delimiter = Newline | Sentinel

fun segments :: "bytes \<Rightarrow> bytes \<Rightarrow> (bytes \<times> delimiter) list" where
  "segments acc [] = []"
| "segments acc (b # bs) =
     (if b = NEWLINE then (acc, Newline) # segments [] bs
      else if b = SENTINEL then (acc, Sentinel) # segments [] bs
      else segments (acc @ [b]) bs)"

text \<open>
  What the stretches mean: one that is too long is reported with its length whatever ends it; one
  ended by a sentinel is otherwise dropped and flags the next frame; one ended by a newline is a
  frame unless it is blank.
\<close>

fun stream_events :: "bool \<Rightarrow> (bytes \<times> delimiter) list \<Rightarrow> decode_event list" where
  "stream_events flag [] = []"
| "stream_events flag ((seg, Newline) # rest) =
     (if length seg > MAX_FRAME_LEN
      then Oversized (min (length seg) U64_MAX) # stream_events flag rest
      else if list_all is_ascii_whitespace seg then stream_events flag rest
      else Frame seg flag # stream_events False rest)"
| "stream_events flag ((seg, Sentinel) # rest) =
     (if length seg > MAX_FRAME_LEN
      then Oversized (min (length seg) U64_MAX) # stream_events True rest
      else stream_events True rest)"

section \<open>Lemmas\<close>

lemma MAX_FRAME_LEN_lt [simp]: "MAX_FRAME_LEN < U64_MAX"
  by (simp add: MAX_FRAME_LEN_def U64_MAX_def)

lemma SENTINEL_neq [simp]: "SENTINEL \<noteq> NEWLINE" "NEWLINE \<noteq> SENTINEL"
  by (simp_all add: SENTINEL_def)

lemma consume_data_Nil [simp]: "consume_data d [] = d"
  by (simp add: consume_data_def)

lemma consume_data_append:
  "consume_data (consume_data d xs) ys = consume_data d (xs @ ys)"
  by (simp add: consume_data_def sat_add_gt_iff sat_add_assoc add.assoc)
     (auto simp: sat_add_def)

lemma end_of_frame_append:
  "end_of_frame (d, evs @ es) = (let (d', e') = end_of_frame (d, es) in (d', evs @ e'))"
  by (simp add: end_of_frame_def Let_def)

lemma on_sentinel_append:
  "on_sentinel (d, evs @ es) = (let (d', e') = on_sentinel (d, es) in (d', evs @ e'))"
  by (simp add: on_sentinel_def Let_def)

lemma byte_step_simps:
  "byte_step s NEWLINE = end_of_frame s"
  "byte_step s SENTINEL = on_sentinel s"
  "b \<noteq> NEWLINE \<Longrightarrow> b \<noteq> SENTINEL \<Longrightarrow> byte_step s b = (consume_data (fst s) [b], snd s)"
  by (simp_all add: byte_step_def)

lemma byte_step_append:
  "byte_step (d, evs @ es) b = (let (d', e') = byte_step (d, es) b in (d', evs @ e'))"
  by (simp add: byte_step_def end_of_frame_append on_sentinel_append)

lemma foldl_byte_step_append:
  "foldl byte_step (d, evs @ es) bs =
     (let (d', e') = foldl byte_step (d, es) bs in (d', evs @ e'))"
proof (induction bs arbitrary: d es)
  case Nil
  then show ?case by simp
next
  case (Cons b bs)
  obtain d1 e1 where "byte_step (d, es) b = (d1, e1)" by fastforce
  then show ?case using Cons.IH [of d1 e1] by (simp add: byte_step_append)
qed

lemma drop_eq_Cons_nth:
  "drop pos xs = b # bs \<Longrightarrow> pos < length xs \<and> xs ! pos = b \<and> drop (Suc pos) xs = bs"
  by (metis Cons_nth_drop_Suc drop_eq_Nil linorder_not_less list.discI list.inject)

lemma push_loop_byte_step:
  "bs = drop pos input \<Longrightarrow> beg \<le> pos \<Longrightarrow> pos \<le> length input \<Longrightarrow>
   push_loop input bs pos beg (d, evs) =
     foldl byte_step (consume_data d (slice beg pos input), evs) bs"
proof (induction input bs pos beg "(d, evs)" arbitrary: d evs rule: push_loop.induct)
  case (1 input pos beg d evs)
  then have "pos = length input" by simp
  then show ?case by simp
next
  case (2 input b bs pos beg d evs)
  from "2.prems"(1) have pos: "pos < length input" "input ! pos = b" "bs = drop (Suc pos) input"
    using drop_eq_Cons_nth [of pos input b bs] by auto
  have snoc: "slice beg (Suc pos) input = slice beg pos input @ [b]"
    using slice_snoc [OF "2.prems"(2) pos(1)] pos(2) by simp
  let ?s = "(consume_data d (slice beg pos input), evs)"
  consider (nl) "b = NEWLINE" | (se) "b = SENTINEL" | (dat) "b \<noteq> NEWLINE" "b \<noteq> SENTINEL" by blast
  then show ?case
  proof cases
    case nl
    obtain d' e' where eq: "end_of_frame ?s = (d', e')" by fastforce
    show ?thesis using "2.hyps"(1) nl eq pos by (simp add: byte_step_def)
  next
    case se
    obtain d' e' where eq: "on_sentinel ?s = (d', e')" by fastforce
    show ?thesis using "2.hyps"(2) se eq pos by (simp add: byte_step_def)
  next
    case dat
    show ?thesis using "2.hyps"(3) dat pos snoc "2.prems"(2)
      by (simp add: byte_step_def consume_data_append)
  qed
qed

lemma push_byte_step: "push d input = foldl byte_step (d, []) input"
  by (simp add: push_def push_loop_byte_step)

lemma push_append:
  "push d (xs @ ys) = (let (d1, e1) = push d xs; (d2, e2) = push d1 ys in (d2, e1 @ e2))"
proof -
  obtain d1 e1 where "foldl byte_step (d, []) xs = (d1, e1)" by fastforce
  then show ?thesis
    using foldl_byte_step_append [of d1 e1 "[]" ys] by (simp add: push_byte_step)
qed

lemma push_Nil [simp]: "push d [] = (d, [])"
  by (simp add: push_byte_step)


text \<open>A decoder between two stretches: nothing buffered, nothing discarded.\<close>

definition idle_decoder :: "bool \<Rightarrow> frame_decoder" where
  "idle_decoder flag = new_decoder\<lparr>fd_sentinel_pending := flag\<rparr>"

lemma idle_decoder_False: "idle_decoder False = new_decoder"
  by (simp add: idle_decoder_def new_decoder_def)

lemma end_of_frame_idle:
  "end_of_frame (consume_data (idle_decoder flag) seg, evs) =
     (if length seg > MAX_FRAME_LEN
      then (idle_decoder flag, evs @ [Oversized (min (length seg) U64_MAX)])
      else if list_all is_ascii_whitespace seg then (idle_decoder flag, evs)
      else (idle_decoder False, evs @ [Frame seg flag]))"
  by (simp add: end_of_frame_def consume_data_def idle_decoder_def new_decoder_def sat_add_def)

lemma on_sentinel_idle:
  "on_sentinel (consume_data (idle_decoder flag) seg, evs) =
     (idle_decoder True,
      if length seg > MAX_FRAME_LEN then evs @ [Oversized (min (length seg) U64_MAX)] else evs)"
  by (simp add: on_sentinel_def consume_data_def idle_decoder_def new_decoder_def sat_add_def)

lemma on_sentinel_any:
  "on_sentinel (d, evs) =
     (d\<lparr>fd_buf := [], fd_discarding := False,
        fd_discarded := (if fd_discarding d then 0 else fd_discarded d),
        fd_sentinel_pending := True\<rparr>,
      evs @ (if fd_discarding d then [Oversized (fd_discarded d)] else []))"
  by (simp add: on_sentinel_def)

lemma decode_segments:
  "snd (foldl byte_step (consume_data (idle_decoder flag) acc, evs) bs) =
     evs @ stream_events flag (segments acc bs)"
proof (induction bs arbitrary: flag acc evs)
  case Nil
  then show ?case by simp
next
  case (Cons b bs)
  have next_seg: "snd (foldl byte_step (idle_decoder f, es) bs) = es @ stream_events f (segments [] bs)"
    for f es using Cons.IH [of f "[]" es] by simp
  consider (nl) "b = NEWLINE" | (se) "b = SENTINEL" | (dat) "b \<noteq> NEWLINE" "b \<noteq> SENTINEL" by blast
  then show ?case
  proof cases
    case nl
    then show ?thesis by (simp add: byte_step_simps end_of_frame_idle next_seg)
  next
    case se
    then show ?thesis by (simp add: byte_step_simps on_sentinel_idle next_seg)
  next
    case dat
    then show ?thesis using Cons.IH [of flag "acc @ [b]" evs]
      by (simp add: byte_step_simps consume_data_append)
  qed
qed

lemma foldl_data:
  "NEWLINE \<notin> set bs \<Longrightarrow> SENTINEL \<notin> set bs \<Longrightarrow>
   foldl byte_step (d, evs) bs = (consume_data d bs, evs)"
  by (induction bs rule: rev_induct) (auto simp: byte_step_def consume_data_append)

lemma decoder_ok_new [simp]: "decoder_ok new_decoder"
  by (simp add: decoder_ok_def new_decoder_def)

lemma decoder_ok_reset: "decoder_ok (reset_decoder d)"
  by (simp add: decoder_ok_def reset_decoder_def)

lemma decoder_ok_consume: "decoder_ok d \<Longrightarrow> decoder_ok (consume_data d dat)"
  by (auto simp: decoder_ok_def consume_data_def sat_add_gt_iff)

lemma decoder_ok_byte_step: "decoder_ok d \<Longrightarrow> decoder_ok (fst (byte_step (d, evs) b))"
  by (auto simp: byte_step_def end_of_frame_def on_sentinel_def decoder_ok_consume)
     (auto simp: decoder_ok_def)

lemma decoder_ok_push: "decoder_ok d \<Longrightarrow> decoder_ok (fst (push d bs))"
  unfolding push_byte_step
proof (induction bs rule: rev_induct)
  case Nil
  then show ?case by simp
next
  case (snoc b bs)
  then show ?case
    by (cases "foldl byte_step (d, []) bs") (auto simp: decoder_ok_byte_step)
qed

text \<open>What a session does with its decoder: it pushes what it read, or resets it.\<close>

inductive decoder_step :: "frame_decoder \<Rightarrow> frame_decoder \<Rightarrow> bool" where
  ds_push: "decoder_step d (fst (push d bs))"
| ds_reset: "decoder_step d (reset_decoder d)"

interpretation dec: inductive_invariant "\<lambda>d. d = new_decoder" decoder_step decoder_ok
  by unfold_locales (auto elim!: decoder_step.cases intro: decoder_ok_push decoder_ok_reset)

section \<open>Properties\<close>

text \<open>
  C33. Cutting the input into chunks in any way yields the same decoder and the same events as
  pushing it at once (the promise of \<^verbatim>\<open>FrameDecoder::push\<close>), from every decoder state.
\<close>

theorem push_chunks_concat: "push_chunks d cs = push d (concat cs)"
  by (induction cs arbitrary: d) (auto simp: push_append)

text \<open>
  C32. From a fresh decoder the events are exactly those of the declarative reading of the stream:
  per stretch an over-long report, a skipped blank line or a frame, each frame flagged when a
  sentinel came since the last frame.
\<close>

theorem push_stream_events:
  "snd (push new_decoder bs) = stream_events False (segments [] bs)"
  using decode_segments [of False "[]" "[]" bs] by (simp add: push_byte_step idle_decoder_False)

text \<open>
  In every state a session can bring the decoder into, the buffer is within the frame bound,
  and it is empty while an oversized frame is being discarded, whose count is above the bound.
\<close>

theorem decoder_bounded:
  assumes "reachable (\<lambda>d. d = new_decoder) decoder_step d"
  shows "buffered_len d \<le> MAX_FRAME_LEN \<and>
    (is_discarding d \<longrightarrow> fd_buf d = [] \<and> MAX_FRAME_LEN < fd_discarded d \<and> fd_discarded d \<le> U64_MAX)"
  using dec.inv_reachable [OF assms]
  by (simp add: decoder_ok_def buffered_len_def is_discarding_def split: if_splits)

theorem decoder_bounded_witness:
  "reachable (\<lambda>d. d = new_decoder) decoder_step (fst (push new_decoder ''{}'')) \<and>
   buffered_len (fst (push new_decoder ''{}'')) \<le> MAX_FRAME_LEN"
proof -
  have r: "reachable (\<lambda>d. d = new_decoder) decoder_step (fst (push new_decoder ''{}''))"
    by (rule reach_step [where s = new_decoder]) (auto intro: reach_start ds_push)
  then show ?thesis using decoder_bounded [OF r] by simp
qed

text \<open>
  Round trip: a sequence of replies written by \<open>encode\<close>, none of them blank, over-long or
  holding a delimiter byte, decodes to exactly these replies, each with the sentinel flag it was
  encoded with, and leaves the decoder as new.
\<close>

definition frame_payload :: "bytes \<Rightarrow> bool" where
  "frame_payload json \<longleftrightarrow> NEWLINE \<notin> set json \<and> SENTINEL \<notin> set json \<and>
     length json \<le> MAX_FRAME_LEN \<and> \<not> list_all is_ascii_whitespace json"

lemma push_encode:
  assumes "frame_payload json"
  shows "push new_decoder (encode json s) = (new_decoder, [Frame json s])"
proof -
  have dat: "foldl byte_step (idle_decoder s, []) json = (consume_data (idle_decoder s) json, [])"
    using assms by (simp add: frame_payload_def foldl_data)
  have "push new_decoder (encode json s) = foldl byte_step (idle_decoder s, []) (json @ [NEWLINE])"
    using on_sentinel_idle [of False "[]" "[]"]
    by (cases s) (simp_all add: push_byte_step encode_def byte_step_def idle_decoder_False)
  then show ?thesis
    using assms dat
    by (simp add: byte_step_def end_of_frame_idle frame_payload_def idle_decoder_False not_less)
qed

theorem encode_decode:
  assumes "list_all (\<lambda>(json, s). frame_payload json) replies"
  shows "push new_decoder (concat (map (\<lambda>(json, s). encode json s) replies)) =
    (new_decoder, map (\<lambda>(json, s). Frame json s) replies)"
  using assms
proof (induction replies)
  case Nil
  then show ?case by simp
next
  case (Cons r rs)
  then show ?case by (cases r) (simp add: push_append push_encode)
qed

theorem encode_decode_witness:
  "push new_decoder (concat (map (\<lambda>(json, s). encode json s) [(''{}'', False), (''[1]'', True)])) =
    (new_decoder, [Frame ''{}'' False, Frame ''[1]'' True])"
proof -
  have "list_all (\<lambda>(json, s). frame_payload json) [(''{}'', False), (''[1]'', True)]"
    by (simp add: frame_payload_def SENTINEL_def MAX_FRAME_LEN_def is_ascii_whitespace_def)
  from encode_decode [OF this] show ?thesis by simp
qed

text \<open>
  Resynchronisation: whatever the decoder holds, a sentinel followed by a line yields exactly
  that line as the last event, flagged, preceded at most by the report of the oversized frame
  that was being discarded; and the decoder is as new.
\<close>

theorem sentinel_resynchronises:
  assumes "decoder_ok d" and "frame_payload json"
  shows "push d (encode json True) =
    (new_decoder,
     (if is_discarding d then [Oversized (fd_discarded d)] else []) @ [Frame json True])"
proof -
  let ?o = "if is_discarding d then [Oversized (fd_discarded d)] else []"
  have "on_sentinel (d, []) = (idle_decoder True, ?o)"
    using assms(1)
    by (auto simp: on_sentinel_any decoder_ok_def is_discarding_def idle_decoder_def new_decoder_def)
  then have "push d (encode json True) = foldl byte_step (idle_decoder True, ?o) (json @ [NEWLINE])"
    by (simp add: push_byte_step encode_def byte_step_def)
  also have "\<dots> = byte_step (consume_data (idle_decoder True) json, ?o) NEWLINE"
    using assms(2) by (simp add: foldl_data frame_payload_def)
  finally show ?thesis
    using assms(2)
    by (simp add: byte_step_def end_of_frame_idle frame_payload_def idle_decoder_False not_less)
qed

theorem sentinel_resynchronises_witness:
  "push (fst (push new_decoder ''junk'')) (encode ''{}'' True) = (new_decoder, [Frame ''{}'' True])"
proof -
  have ok: "decoder_ok (fst (push new_decoder ''junk''))"
    by (rule decoder_ok_push) simp
  have pay: "frame_payload ''{}''"
    by (simp add: frame_payload_def SENTINEL_def MAX_FRAME_LEN_def is_ascii_whitespace_def)
  have "\<not> is_discarding (fst (push new_decoder ''junk''))"
    by (simp add: push_byte_step byte_step_def SENTINEL_def consume_data_def new_decoder_def
        is_discarding_def sat_add_def MAX_FRAME_LEN_def U64_MAX_def)
  then show ?thesis using sentinel_resynchronises [OF ok pay] by simp
qed

end
