(* ===== verification/Utf8.thy ===== *)
theory Utf8
  imports Prelude
begin

text \<open>
  The parts of the Rust standard library's UTF-8 support the program uses: \<open>utf8_valid\<close> is
  \<^verbatim>\<open>std::str::from_utf8(..).is_ok()\<close> (the well-formed byte sequences of the Unicode standard) and
  \<open>from_utf8_lossy\<close> is \<^verbatim>\<open>String::from_utf8_lossy\<close>, which replaces every maximal ill-formed part by
  U+FFFD. Shown: the lossy conversion always yields valid text and leaves valid text alone.
\<close>

section \<open>UTF-8 validity\<close>

text \<open>
  The automaton of the well-formed sequences: \<open>k\<close> continuation bytes are still expected and the
  next one must lie between \<open>lo\<close> and \<open>hi\<close>.
\<close>

definition utf8_lead :: "nat \<Rightarrow> (nat \<times> nat \<times> nat) option" where
  "utf8_lead w =
     (if w < 0x80 then Some (0, 0x80, 0xBF)
      else if 0xC2 \<le> w \<and> w \<le> 0xDF then Some (1, 0x80, 0xBF)
      else if w = 0xE0 then Some (2, 0xA0, 0xBF)
      else if w = 0xED then Some (2, 0x80, 0x9F)
      else if 0xE1 \<le> w \<and> w \<le> 0xEF then Some (2, 0x80, 0xBF)
      else if w = 0xF0 then Some (3, 0x90, 0xBF)
      else if 0xF1 \<le> w \<and> w \<le> 0xF3 then Some (3, 0x80, 0xBF)
      else if w = 0xF4 then Some (3, 0x80, 0x8F)
      else None)"

fun utf8_run :: "nat \<Rightarrow> nat \<Rightarrow> nat \<Rightarrow> bytes \<Rightarrow> bool" where
  "utf8_run k lo hi [] \<longleftrightarrow> k = 0"
| "utf8_run 0 lo hi (b # bs) \<longleftrightarrow>
     (case utf8_lead (of_char b) of
        None \<Rightarrow> False
      | Some (k, lo', hi') \<Rightarrow> utf8_run k lo' hi' bs)"
| "utf8_run (Suc k) lo hi (b # bs) \<longleftrightarrow>
     lo \<le> of_char b \<and> of_char b \<le> hi \<and> utf8_run k 0x80 0xBF bs"

definition utf8_valid :: "bytes \<Rightarrow> bool" where
  "utf8_valid bs = utf8_run 0 0x80 0xBF bs"

section \<open>Lossy conversion\<close>

definition REPLACEMENT :: bytes where
  "REPLACEMENT = [CHR 0xEF, CHR 0xBF, CHR 0xBD]"

text \<open>
  \<open>pend\<close> holds the bytes of the character being read. A byte that does not continue it ends an
  ill-formed part and is read again as a lead byte.
\<close>

fun lossy_run :: "bytes \<Rightarrow> nat \<Rightarrow> nat \<Rightarrow> nat \<Rightarrow> bytes \<Rightarrow> bytes" where
  "lossy_run pend k lo hi [] = (if k = 0 then [] else REPLACEMENT)"
| "lossy_run pend k lo hi (b # bs) =
     (if 0 < k \<and> lo \<le> of_char b \<and> of_char b \<le> hi then
        if k = 1 then pend @ [b] @ lossy_run [] 0 0x80 0xBF bs
        else lossy_run (pend @ [b]) (k - 1) 0x80 0xBF bs
      else (if 0 < k then REPLACEMENT else []) @
        (case utf8_lead (of_char b) of
           None \<Rightarrow> REPLACEMENT @ lossy_run [] 0 0x80 0xBF bs
         | Some (k', lo', hi') \<Rightarrow>
             if k' = 0 then b # lossy_run [] 0 0x80 0xBF bs
             else lossy_run [b] k' lo' hi' bs))"

definition from_utf8_lossy :: "bytes \<Rightarrow> bytes" where
  "from_utf8_lossy bs = lossy_run [] 0 0x80 0xBF bs"

section \<open>Lemmas\<close>

lemma utf8_run_0: "utf8_run 0 lo hi bs = utf8_valid bs"
  by (cases bs) (simp_all add: utf8_valid_def)

lemma utf8_valid_Cons:
  "utf8_valid (b # bs) \<longleftrightarrow>
     (case utf8_lead (of_char b) of None \<Rightarrow> False | Some (k, lo, hi) \<Rightarrow> utf8_run k lo hi bs)"
  by (simp add: utf8_valid_def)

lemma utf8_lead_ascii: "w < 0x80 \<Longrightarrow> utf8_lead w = Some (0, 0x80, 0xBF)"
  by (simp add: utf8_lead_def)

lemma utf8_valid_Nil [simp]: "utf8_valid []"
  by (simp add: utf8_valid_def)

lemma utf8_lead_range:
  "utf8_lead w = Some (k, lo, hi) \<Longrightarrow> k = 0 \<Longrightarrow> w < 0x80"
  by (simp add: utf8_lead_def split: if_splits)

lemma lossy_valid:
  "utf8_run k lo hi bs \<Longrightarrow> (k = 0 \<Longrightarrow> pend = []) \<Longrightarrow> lossy_run pend k lo hi bs = pend @ bs"
proof (induction pend k lo hi bs rule: lossy_run.induct)
  case (1 pend k lo hi)
  then show ?case by simp
next
  case (2 pend k lo hi b bs)
  then show ?case
    by (cases k) (auto split: option.splits simp: utf8_run_0 utf8_valid_Cons)
qed

text \<open>Appending a complete character: \<open>pend\<close> reads as one that still wants \<open>k\<close> bytes.\<close>

lemma utf8_run_mono_append:
  "utf8_run k lo hi xs \<Longrightarrow> utf8_valid ys \<Longrightarrow> utf8_run k lo hi (xs @ ys)"
proof (induction k lo hi xs rule: utf8_run.induct)
  case (1 k lo hi)
  then show ?case by (simp add: utf8_run_0)
next
  case (2 lo hi b bs)
  then show ?case by (auto split: option.splits)
next
  case (3 k lo hi b bs)
  then show ?case by simp
qed

lemma utf8_valid_append: "utf8_valid xs \<Longrightarrow> utf8_valid ys \<Longrightarrow> utf8_valid (xs @ ys)"
  using utf8_run_mono_append [of 0 "0x80" "0xBF" xs ys] by (simp add: utf8_valid_def)

lemma REPLACEMENT_valid [simp]: "utf8_valid REPLACEMENT"
  by (simp add: utf8_valid_def REPLACEMENT_def utf8_lead_def numeral_2_eq_2)

text \<open>\<open>open_char pend k lo hi\<close>: \<open>pend\<close> is a character that becomes complete with \<open>k\<close> more bytes.\<close>

definition open_char :: "bytes \<Rightarrow> nat \<Rightarrow> nat \<Rightarrow> nat \<Rightarrow> bool" where
  "open_char pend k lo hi \<longleftrightarrow> (\<forall>xs. utf8_run k lo hi xs \<longrightarrow> utf8_valid (pend @ xs))"

lemma open_char_step:
  assumes "open_char pend (Suc j) lo hi" "lo \<le> of_char b" "of_char b \<le> hi"
  shows "open_char (pend @ [b]) j 0x80 0xBF"
  unfolding open_char_def
proof (intro allI impI)
  fix xs
  assume "utf8_run j 0x80 0xBF xs"
  with assms(2,3) have "utf8_run (Suc j) lo hi (b # xs)" by simp
  with assms(1) have "utf8_valid (pend @ b # xs)" unfolding open_char_def by blast
  then show "utf8_valid ((pend @ [b]) @ xs)" by simp
qed

lemma open_char_done: "open_char pend 0 lo hi \<Longrightarrow> utf8_valid pend"
  unfolding open_char_def by (metis append_Nil2 utf8_run.simps(1))

lemma lossy_run_valid: "open_char pend k lo hi \<Longrightarrow> utf8_valid (lossy_run pend k lo hi bs)"
proof (induction pend k lo hi bs rule: lossy_run.induct)
  case (1 pend k lo hi)
  then show ?case by simp
next
  case (2 pend k lo hi b bs)
  have empty: "open_char [] 0 0x80 0xBF" by (simp add: open_char_def utf8_run_0)
  have lead: "open_char [b] k' lo' hi'" if "utf8_lead (of_char b) = Some (k', lo', hi')" for k' lo' hi'
    using that by (simp add: open_char_def utf8_valid_def)
  have cont: "open_char (pend @ [b]) (k - 1) 0x80 0xBF" if "0 < k" "lo \<le> of_char b" "of_char b \<le> hi"
    using "2.prems" that open_char_step [of pend "k - 1" lo hi b] by simp
  have ascii: "utf8_valid (b # xs)" if "utf8_lead (of_char b) = Some (0, lo', hi')" "utf8_valid xs" for lo' hi' xs
    using that by (simp add: utf8_valid_Cons utf8_run_0)
  show ?case
  proof (cases "0 < k \<and> lo \<le> of_char b \<and> of_char b \<le> hi")
    case True
    show ?thesis
    proof (cases "k = 1")
      case one: True
      have "utf8_valid (pend @ [b])" using cont True one open_char_done by simp
      then have "utf8_valid ((pend @ [b]) @ lossy_run [] 0 0x80 0xBF bs)"
        using "2.IH"(1) [OF True one empty] by (rule utf8_valid_append)
      then show ?thesis using True one by simp
    next
      case False
      then have "utf8_valid (lossy_run (pend @ [b]) (k - 1) 0x80 0xBF bs)"
        using "2.IH"(2) [OF True False] cont True by blast
      then show ?thesis using True False by simp
    qed
  next
    case False
    have "utf8_valid (case utf8_lead (of_char b) of
           None \<Rightarrow> REPLACEMENT @ lossy_run [] 0 0x80 0xBF bs
         | Some (k', lo', hi') \<Rightarrow>
             if k' = 0 then b # lossy_run [] 0 0x80 0xBF bs
             else lossy_run [b] k' lo' hi' bs)"
    proof (cases "utf8_lead (of_char b)")
      case None
      show ?thesis using "2.IH"(3) [OF False None empty] None by (simp add: utf8_valid_append)
    next
      case (Some t)
      obtain k' lo' hi' where t: "t = (k', lo', hi')" by (cases t)
      show ?thesis
      proof (cases "k' = 0")
        case True
        then have "utf8_valid (lossy_run [] 0 0x80 0xBF bs)"
          using "2.IH"(4) [OF False Some t [symmetric] refl True empty] by simp
        then show ?thesis using ascii Some t True by simp
      next
        case neq: False
        then have "utf8_valid (lossy_run [b] k' lo' hi' bs)"
          using "2.IH"(5) [OF False Some t [symmetric] refl neq] lead Some t by simp
        then show ?thesis using Some t neq by simp
      qed
    qed
    then show ?thesis unfolding lossy_run.simps(2) if_not_P [OF False]
      by (simp add: utf8_valid_append)
  qed
qed

lemma from_utf8_lossy_valid: "utf8_valid (from_utf8_lossy bs)"
  unfolding from_utf8_lossy_def by (rule lossy_run_valid) (simp add: open_char_def utf8_run_0)

lemma from_utf8_lossy_id: "utf8_valid bs \<Longrightarrow> from_utf8_lossy bs = bs"
  by (simp add: from_utf8_lossy_def utf8_valid_def lossy_valid)

end
