(* ===== verification/Bounds.thy ===== *)
theory Bounds
  imports Utf8
begin

text \<open>
  \<^verbatim>\<open>src/proto/bounds.rs\<close>: the linear pass over a raw frame that bounds nesting depth and string
  length before any JSON parsing. \<open>check_loop\<close> is the \<^verbatim>\<open>for\<close> loop of \<^verbatim>\<open>check_bounds\<close> with its four
  variables as arguments.

  Shown: the pass decides exactly what an unbounded reference scanner observes on the prefixes of
  the frame, and on the text of a JSON document it measures the true nesting depth and the longest
  raw string of the document.
\<close>

section \<open>The pass\<close>

definition MAX_DEPTH :: nat where
  "MAX_DEPTH = 32"

definition MAX_STRING_BYTES :: nat where
  "MAX_STRING_BYTES = 4096"

datatype bounds_error = DepthExceeded | StringTooLong | InvalidUtf8

definition bounds_error_text :: "bounds_error \<Rightarrow> string" where
  "bounds_error_text e =
     (case e of
        DepthExceeded \<Rightarrow> ''JSON nesting deeper than 32 levels''
      | StringTooLong \<Rightarrow> ''JSON string longer than 4096 bytes''
      | InvalidUtf8 \<Rightarrow> ''frame is not valid UTF-8'')"

abbreviation QUOTE :: byte where
  "QUOTE \<equiv> CHR 0x22"

abbreviation BACKSLASH :: byte where
  "BACKSLASH \<equiv> CHR 0x5C"

text \<open>The arguments are \<^verbatim>\<open>depth\<close>, \<^verbatim>\<open>in_string\<close>, \<^verbatim>\<open>escaped\<close>, \<^verbatim>\<open>string_len\<close> and the bytes left.\<close>

fun check_loop :: "nat \<Rightarrow> bool \<Rightarrow> bool \<Rightarrow> nat \<Rightarrow> bytes \<Rightarrow> (bounds_error, unit) result" where
  "check_loop depth in_string escaped string_len [] = Ok ()"
| "check_loop depth in_string escaped string_len (b # bs) =
     (if in_string then
        if \<not> escaped \<and> b = QUOTE then check_loop depth False escaped string_len bs
        else if sat_add string_len 1 > MAX_STRING_BYTES then Err StringTooLong
        else check_loop depth True (\<not> escaped \<and> b = BACKSLASH) (sat_add string_len 1) bs
      else if b = QUOTE then check_loop depth True escaped 0 bs
      else if b = CHR ''['' \<or> b = CHR ''{'' then
        if sat_add depth 1 > MAX_DEPTH then Err DepthExceeded
        else check_loop (sat_add depth 1) False escaped string_len bs
      else if b = CHR '']'' \<or> b = CHR ''}'' then
        check_loop (sat_sub depth 1) False escaped string_len bs
      else check_loop depth False escaped string_len bs)"

definition check_bounds :: "bytes \<Rightarrow> (bounds_error, unit) result" where
  "check_bounds bs =
     (if \<not> utf8_valid bs then Err InvalidUtf8 else check_loop 0 False False 0 bs)"

section \<open>A reference scanner without bounds\<close>

record scan =
  sc_depth :: nat
  sc_in_string :: bool
  sc_escaped :: bool
  sc_len :: nat

definition scan_start :: scan where
  "scan_start = \<lparr>sc_depth = 0, sc_in_string = False, sc_escaped = False, sc_len = 0\<rparr>"

definition scan_byte :: "scan \<Rightarrow> byte \<Rightarrow> scan" where
  "scan_byte s b =
     (if sc_in_string s then
        if sc_escaped s then s\<lparr>sc_escaped := False, sc_len := sc_len s + 1\<rparr>
        else if b = BACKSLASH then s\<lparr>sc_escaped := True, sc_len := sc_len s + 1\<rparr>
        else if b = QUOTE then s\<lparr>sc_in_string := False\<rparr>
        else s\<lparr>sc_len := sc_len s + 1\<rparr>
      else if b = QUOTE then s\<lparr>sc_in_string := True, sc_len := 0\<rparr>
      else if b = CHR ''['' \<or> b = CHR ''{'' then s\<lparr>sc_depth := sc_depth s + 1\<rparr>
      else if b = CHR '']'' \<or> b = CHR ''}'' then s\<lparr>sc_depth := sc_depth s - 1\<rparr>
      else s)"

definition within_bounds :: "scan \<Rightarrow> bool" where
  "within_bounds s \<longleftrightarrow> sc_depth s \<le> MAX_DEPTH \<and> sc_len s \<le> MAX_STRING_BYTES"

text \<open>The states the scanner goes through.\<close>

fun scan_states :: "scan \<Rightarrow> bytes \<Rightarrow> scan list" where
  "scan_states s [] = []"
| "scan_states s (b # bs) = scan_byte s b # scan_states (scan_byte s b) bs"

section \<open>Texts of JSON documents\<close>

text \<open>
  The text of a document: literals and numbers (no quote, bracket or brace), raw strings (escapes
  unresolved, as between the quotes), arrays and objects.
\<close>

datatype jtext = TAtom bytes | TStr bytes | TArr "jtext list" | TObj "(bytes \<times> jtext) list"

fun raw_string :: "bool \<Rightarrow> bytes \<Rightarrow> bool" where
  "raw_string escaped [] \<longleftrightarrow> \<not> escaped"
| "raw_string escaped (b # bs) \<longleftrightarrow>
     (if escaped then raw_string False bs
      else b \<noteq> QUOTE \<and> raw_string (b = BACKSLASH) bs)"

definition atom_text :: "bytes \<Rightarrow> bool" where
  "atom_text bs = list_all (\<lambda>b. b \<notin> {QUOTE, CHR ''['', CHR ''{'', CHR '']'', CHR ''}''}) bs"

fun print_text :: "jtext \<Rightarrow> bytes" and print_fields :: "(bytes \<times> jtext) list \<Rightarrow> bytes"
  and print_items :: "jtext list \<Rightarrow> bytes" where
  "print_text (TAtom a) = a"
| "print_text (TStr s) = QUOTE # s @ [QUOTE]"
| "print_text (TArr ts) = ''['' @ print_items ts @ '']''"
| "print_text (TObj fs) = ''{'' @ print_fields fs @ ''}''"
| "print_items [] = []"
| "print_items (t # ts) = print_text t @ (if ts = [] then [] else '','') @ print_items ts"
| "print_fields [] = []"
| "print_fields ((k, t) # fs) =
     QUOTE # k @ [QUOTE] @ '':'' @ print_text t @ (if fs = [] then [] else '','') @ print_fields fs"

fun wf_text :: "jtext \<Rightarrow> bool" and wf_fields :: "(bytes \<times> jtext) list \<Rightarrow> bool"
  and wf_items :: "jtext list \<Rightarrow> bool" where
  "wf_text (TAtom a) \<longleftrightarrow> atom_text a"
| "wf_text (TStr s) \<longleftrightarrow> raw_string False s"
| "wf_text (TArr ts) \<longleftrightarrow> wf_items ts"
| "wf_text (TObj fs) \<longleftrightarrow> wf_fields fs"
| "wf_items [] \<longleftrightarrow> True"
| "wf_items (t # ts) \<longleftrightarrow> wf_text t \<and> wf_items ts"
| "wf_fields [] \<longleftrightarrow> True"
| "wf_fields ((k, t) # fs) \<longleftrightarrow> raw_string False k \<and> wf_text t \<and> wf_fields fs"

fun nesting :: "jtext \<Rightarrow> nat" and nesting_fields :: "(bytes \<times> jtext) list \<Rightarrow> nat"
  and nesting_items :: "jtext list \<Rightarrow> nat" where
  "nesting (TAtom a) = 0"
| "nesting (TStr s) = 0"
| "nesting (TArr ts) = Suc (nesting_items ts)"
| "nesting (TObj fs) = Suc (nesting_fields fs)"
| "nesting_items [] = 0"
| "nesting_items (t # ts) = max (nesting t) (nesting_items ts)"
| "nesting_fields [] = 0"
| "nesting_fields ((k, t) # fs) = max (nesting t) (nesting_fields fs)"

fun longest_string :: "jtext \<Rightarrow> nat" and longest_fields :: "(bytes \<times> jtext) list \<Rightarrow> nat"
  and longest_items :: "jtext list \<Rightarrow> nat" where
  "longest_string (TAtom a) = 0"
| "longest_string (TStr s) = length s"
| "longest_string (TArr ts) = longest_items ts"
| "longest_string (TObj fs) = longest_fields fs"
| "longest_items [] = 0"
| "longest_items (t # ts) = max (longest_string t) (longest_items ts)"
| "longest_fields [] = 0"
| "longest_fields ((k, t) # fs) = max (length k) (max (longest_string t) (longest_fields fs))"

section \<open>Lemmas\<close>

lemma bounds_lt [simp]: "MAX_DEPTH < U64_MAX" "MAX_STRING_BYTES < U64_MAX"
  by (simp_all add: MAX_DEPTH_def MAX_STRING_BYTES_def U64_MAX_def)

text \<open>Within the bounds the saturating counters are the plain ones.\<close>

lemma sat_add_bounded:
  "n \<le> MAX_DEPTH \<Longrightarrow> sat_add n (Suc 0) = Suc n"
  "n \<le> MAX_STRING_BYTES \<Longrightarrow> sat_add n (Suc 0) = Suc n"
  by (simp_all add: sat_add_def MAX_DEPTH_def MAX_STRING_BYTES_def U64_MAX_def)

lemma check_loop_scan:
  assumes "d \<le> MAX_DEPTH" "n \<le> MAX_STRING_BYTES" "e \<Longrightarrow> i"
  shows "check_loop d i e n bs =
    (case find (\<lambda>s. \<not> within_bounds s)
       (scan_states \<lparr>sc_depth = d, sc_in_string = i, sc_escaped = e, sc_len = n\<rparr> bs) of
       None \<Rightarrow> Ok ()
     | Some s \<Rightarrow> Err (if sc_in_string s then StringTooLong else DepthExceeded))"
  using assms
proof (induction bs arbitrary: d i e n)
  case Nil
  then show ?case by simp
next
  case (Cons b bs)
  have dn: "sat_add d (Suc 0) = Suc d" "sat_add n (Suc 0) = Suc n"
    using Cons.prems by (simp_all add: sat_add_bounded)
  show ?case
  proof (cases i)
    case True
    then show ?thesis
      using Cons.prems Cons.IH [of d n False False] Cons.IH [of d "Suc n" False True]
        Cons.IH [of d "Suc n" True True]
      by (cases e) (simp_all add: dn scan_byte_def within_bounds_def)
  next
    case False
    then have "\<not> e" "d - Suc 0 \<le> MAX_DEPTH" using Cons.prems by auto
    with False show ?thesis
      using Cons.prems Cons.IH [of d 0 False True] Cons.IH [of "Suc d" n False False]
        Cons.IH [of "d - Suc 0" n False False] Cons.IH [of d n False False]
      by (simp add: dn sat_sub_def scan_byte_def within_bounds_def)
  qed
qed

text \<open>Outside a string the length left over from the last string plays no part.\<close>

lemma check_loop_stale: "check_loop d False e n bs = check_loop d False e m bs"
  by (induction bs arbitrary: d) auto

lemma check_loop_raw:
  assumes "raw_string e s" "n \<le> MAX_STRING_BYTES"
  shows "check_loop d True e n (s @ QUOTE # rest) =
    (if n + length s \<le> MAX_STRING_BYTES then check_loop d False False 0 rest else Err StringTooLong)"
  using assms
proof (induction s arbitrary: e n)
  case Nil
  then show ?case using check_loop_stale [of d False n rest 0] by simp
next
  case (Cons b s)
  have n: "sat_add n (Suc 0) = Suc n" using Cons.prems by (simp add: sat_add_bounded)
  show ?case
    using Cons.prems Cons.IH [of False "Suc n"] Cons.IH [of True "Suc n"]
    by (cases e; cases "b = BACKSLASH") (auto simp: n not_le)
qed

lemma check_loop_str:
  assumes "raw_string False s"
  shows "check_loop d False False n (QUOTE # s @ QUOTE # rest) =
    (if length s \<le> MAX_STRING_BYTES then check_loop d False False 0 rest else Err StringTooLong)"
  using check_loop_raw [OF assms, of 0 d rest] by simp

lemma check_loop_atom:
  "atom_text a \<Longrightarrow> check_loop d False False n (a @ rest) = check_loop d False False n rest"
  by (induction a) (auto simp: atom_text_def)

definition fits :: "nat \<Rightarrow> nat \<Rightarrow> nat \<Rightarrow> bool" where
  "fits d nest len \<longleftrightarrow> d + nest \<le> MAX_DEPTH \<and> len \<le> MAX_STRING_BYTES"

lemma check_loop_comma: "check_loop d False False n (CHR '','' # rest) = check_loop d False False n rest"
  and check_loop_colon: "check_loop d False False n (CHR '':'' # rest) = check_loop d False False n rest"
  by simp_all

lemma check_loop_print:
  "wf_text t \<Longrightarrow> d \<le> MAX_DEPTH \<Longrightarrow>
     is_ok (check_loop d False False n (print_text t @ rest)) \<longleftrightarrow>
     fits d (nesting t) (longest_string t) \<and> is_ok (check_loop d False False 0 rest)"
  "wf_fields fs \<Longrightarrow> d \<le> MAX_DEPTH \<Longrightarrow>
     is_ok (check_loop d False False n (print_fields fs @ rest)) \<longleftrightarrow>
     fits d (nesting_fields fs) (longest_fields fs) \<and> is_ok (check_loop d False False 0 rest)"
  "wf_items ts \<Longrightarrow> d \<le> MAX_DEPTH \<Longrightarrow>
     is_ok (check_loop d False False n (print_items ts @ rest)) \<longleftrightarrow>
     fits d (nesting_items ts) (longest_items ts) \<and> is_ok (check_loop d False False 0 rest)"
proof (induction t and fs and ts arbitrary: d n rest and d n rest and d n rest
    rule: print_text_print_fields_print_items.induct)
  case (1 a)
  then show ?case
    using check_loop_stale [of d False n rest 0] by (simp add: check_loop_atom fits_def)
next
  case (2 s)
  then show ?case by (simp add: check_loop_str fits_def del: check_loop.simps)
next
  case (3 ts)
  have "is_ok (check_loop d False False n (print_text (TArr ts) @ rest)) \<longleftrightarrow>
    Suc d \<le> MAX_DEPTH \<and> is_ok (check_loop (Suc d) False False n (print_items ts @ '']'' @ rest))"
    using 3 by (simp add: sat_add_bounded)
  also have "\<dots> \<longleftrightarrow> fits d (Suc (nesting_items ts)) (longest_items ts) \<and>
    is_ok (check_loop d False False 0 rest)"
    using 3 by (auto simp: fits_def sat_sub_def)
  finally show ?case by simp
next
  case (4 fs)
  have "is_ok (check_loop d False False n (print_text (TObj fs) @ rest)) \<longleftrightarrow>
    Suc d \<le> MAX_DEPTH \<and> is_ok (check_loop (Suc d) False False n (print_fields fs @ ''}'' @ rest))"
    using 4 by (simp add: sat_add_bounded)
  also have "\<dots> \<longleftrightarrow> fits d (Suc (nesting_fields fs)) (longest_fields fs) \<and>
    is_ok (check_loop d False False 0 rest)"
    using 4 by (auto simp: fits_def sat_sub_def)
  finally show ?case by simp
next
  case 5
  then show ?case using check_loop_stale [of d False n rest 0] by (simp add: fits_def)
next
  case (6 t ts)
  then show ?case
    by (auto simp: fits_def check_loop_comma simp del: check_loop.simps)
next
  case 7
  then show ?case using check_loop_stale [of d False n rest 0] by (simp add: fits_def)
next
  case (8 k t fs)
  then show ?case
    by (auto simp: fits_def check_loop_comma check_loop_colon check_loop_str simp del: check_loop.simps)
qed

section \<open>Properties\<close>

text \<open>
  The pass accepts a frame exactly when it is UTF-8 and no prefix of it brings the unbounded
  scanner over a bound; otherwise the error is that of the first prefix that does.
\<close>

theorem check_bounds_scan:
  "check_bounds bs =
    (if \<not> utf8_valid bs then Err InvalidUtf8
     else case find (\<lambda>s. \<not> within_bounds s) (scan_states scan_start bs) of
       None \<Rightarrow> Ok ()
     | Some s \<Rightarrow> Err (if sc_in_string s then StringTooLong else DepthExceeded))"
  by (simp add: check_bounds_def check_loop_scan scan_start_def)

text \<open>
  C34. On the text of a JSON document the pass measures what it means to measure: the document
  passes exactly when its arrays and objects nest at most \<^verbatim>\<open>MAX_DEPTH\<close> deep and every raw string in
  it, keys included, has at most \<^verbatim>\<open>MAX_STRING_BYTES\<close> bytes.
\<close>

theorem check_bounds_document:
  assumes "wf_text t" and "utf8_valid (print_text t)"
  shows "check_bounds (print_text t) = Ok () \<longleftrightarrow>
    nesting t \<le> MAX_DEPTH \<and> longest_string t \<le> MAX_STRING_BYTES"
proof -
  have "is_ok (check_bounds (print_text t)) \<longleftrightarrow> fits 0 (nesting t) (longest_string t)"
    using check_loop_print(1) [OF assms(1), of 0 0 "[]"] assms(2) by (simp add: check_bounds_def)
  then show ?thesis by (simp add: fits_def is_ok_def split: sum.splits)
qed

theorem check_bounds_document_witness:
  "check_bounds (print_text (TObj [(''execute'', TStr ''guest-ping'')])) = Ok ()"
proof -
  let ?t = "TObj [(''execute'', TStr ''guest-ping'')]"
  have "wf_text ?t" "utf8_valid (print_text ?t)"
    by (simp_all add: utf8_valid_def utf8_lead_def)
  from check_bounds_document [OF this] show ?thesis
    by (simp add: MAX_DEPTH_def MAX_STRING_BYTES_def)
qed

end
