(* ===== verification/Proto.thy ===== *)
theory Proto
  imports Bounds
begin

text \<open>
  \<^verbatim>\<open>src/proto.rs\<close>: requests, replies and the error model of the wire protocol.

  The JSON parser and printer of \<^verbatim>\<open>serde_json\<close> are parameters: the record \<open>json_reader\<close> is what the
  parser hands to \<^verbatim>\<open>RequestVisitor::visit_map\<close> for a frame (the object's entries in order, each key
  and value possibly an error), where it reports an error raised by the visitor and whether the
  document ends properly; a printer is a function from values to bytes. \<open>visit_map\<close>, \<open>parse_request\<close>
  and \<open>describe\<close> are the code's own.

  Shown: exactly which entry sequences are accepted as a request (unknown and duplicate keys,
  non-object arguments and non-integer ids are refused), that every refusal is an
  \<^verbatim>\<open>InvalidRequest\<close> whose text depends on the category and position only, and the bound of the
  reply envelope.
\<close>

section \<open>JSON values\<close>

text \<open>\<^verbatim>\<open>serde_json::Value\<close>; the number variants are its \<^verbatim>\<open>u64\<close>, negative \<^verbatim>\<open>i64\<close> and float forms.\<close>

datatype number = PosInt nat | NegInt int | Float bytes

datatype json =
    JNull
  | JBool bool
  | JNumber number
  | JString bytes
  | JArray "json list"
  | JObject "(bytes \<times> json) list"

definition is_object :: "json \<Rightarrow> bool" where
  "is_object v = (case v of JObject _ \<Rightarrow> True | _ \<Rightarrow> False)"

definition as_i64 :: "json \<Rightarrow> int option" where
  "as_i64 v =
     (case v of
        JNumber (PosInt n) \<Rightarrow> if int n \<le> I64_MAX then Some (int n) else None
      | JNumber (NegInt i) \<Rightarrow> Some i
      | _ \<Rightarrow> None)"

text \<open>The value of an integer, in the representation \<^verbatim>\<open>serde_json\<close> gives it.\<close>

definition json_int :: "int \<Rightarrow> json" where
  "json_int i = JNumber (if i < 0 then NegInt i else PosInt (nat i))"

definition json_nat :: "nat \<Rightarrow> json" where
  "json_nat n = JNumber (PosInt n)"

section \<open>Requests\<close>

record request =
  rq_method :: bytes
  rq_arguments :: "json option"
  rq_id :: "int option"

datatype category = Io | Syntax | Eof | Data

record serde_error =
  se_category :: category
  se_line :: nat
  se_column :: nat

text \<open>One entry the map access yields: a key that does not parse, or a key and its value.\<close>

datatype map_entry =
    BadKey serde_error
  | Entry bytes "(serde_error, json) result"

text \<open>
  What the parser contributes: the entries of the frame's object (or why it is none), the error a
  visitor failure after \<open>n\<close> consumed entries becomes, and the error of an unfinished or trailing
  text after the last entry.
\<close>

record json_reader =
  rd_entries :: "bytes \<Rightarrow> (serde_error, map_entry list) result"
  rd_error :: "bytes \<Rightarrow> nat \<Rightarrow> serde_error"
  rd_end :: "bytes \<Rightarrow> serde_error option"

text \<open>
  The loop of \<^verbatim>\<open>visit_map\<close>; \<open>err n\<close> is the error raised by the visitor after \<open>n\<close> entries. The
  method is read as a string, so another value is the parser's type error.
\<close>

fun visit_loop :: "(nat \<Rightarrow> serde_error) \<Rightarrow> nat \<Rightarrow> bytes option \<Rightarrow> json option \<Rightarrow> int option
    \<Rightarrow> map_entry list \<Rightarrow> (serde_error, request) result" where
  "visit_loop err n meth args idn [] =
     (case meth of
        None \<Rightarrow> Err (err n)
      | Some m \<Rightarrow> Ok \<lparr>rq_method = m, rq_arguments = args, rq_id = idn\<rparr>)"
| "visit_loop err n meth args idn (BadKey e # es) = Err e"
| "visit_loop err n meth args idn (Entry key v # es) =
     (if key = ''execute'' then
        if meth \<noteq> None then Err (err n)
        else (case v of
            Err e \<Rightarrow> Err e
          | Ok (JString m) \<Rightarrow> visit_loop err (Suc n) (Some m) args idn es
          | Ok _ \<Rightarrow> Err (err n))
      else if key = ''arguments'' then
        if args \<noteq> None then Err (err n)
        else (case v of
            Err e \<Rightarrow> Err e
          | Ok w \<Rightarrow> if \<not> is_object w then Err (err n)
                    else visit_loop err (Suc n) meth (Some w) idn es)
      else if key = ''id'' then
        if idn \<noteq> None then Err (err n)
        else (case v of
            Err e \<Rightarrow> Err e
          | Ok w \<Rightarrow> (case as_i64 w of
                None \<Rightarrow> Err (err n)
              | Some i \<Rightarrow> visit_loop err (Suc n) meth args (Some i) es))
      else Err (err n))"

definition visit_map :: "(nat \<Rightarrow> serde_error) \<Rightarrow> map_entry list \<Rightarrow> (serde_error, request) result" where
  "visit_map err es = visit_loop err 0 None None None es"

text \<open>\<^verbatim>\<open>serde_json::from_slice::<Request>\<close>: the object, the visitor, then the end of the text.\<close>

definition from_slice :: "json_reader \<Rightarrow> bytes \<Rightarrow> (serde_error, request) result" where
  "from_slice rd bs =
     (case rd_entries rd bs of
        Err e \<Rightarrow> Err e
      | Ok es \<Rightarrow> (case visit_map (rd_error rd bs) es of
            Err e \<Rightarrow> Err e
          | Ok r \<Rightarrow> (case rd_end rd bs of Some e \<Rightarrow> Err e | None \<Rightarrow> Ok r)))"

section \<open>Errors and replies\<close>

datatype error_class = ClassCommandNotFound | ClassGenericError

definition error_class_str :: "error_class \<Rightarrow> string" where
  "error_class_str c =
     (case c of ClassCommandNotFound \<Rightarrow> ''CommandNotFound'' | ClassGenericError \<Rightarrow> ''GenericError'')"

datatype error =
    CommandNotFound bytes
  | Disabled bytes
  | FrozenError
  | RateLimited bytes
  | InvalidRequest bytes
  | InvalidArguments bytes
  | Internal bytes

definition error_to_class :: "error \<Rightarrow> error_class" where
  "error_to_class e =
     (case e of
        CommandNotFound _ \<Rightarrow> ClassCommandNotFound
      | Disabled _ \<Rightarrow> ClassCommandNotFound
      | _ \<Rightarrow> ClassGenericError)"

definition error_text :: "error \<Rightarrow> string" where
  "error_text e =
     (case e of
        CommandNotFound c \<Rightarrow> ''The command '' @ c @ '' has not been found''
      | Disabled c \<Rightarrow> ''command '' @ c @ '' has been disabled''
      | FrozenError \<Rightarrow> ''filesystems are frozen; retry after thaw''
      | RateLimited c \<Rightarrow> ''rate limit exceeded for '' @ c
      | InvalidRequest d \<Rightarrow> ''invalid request: '' @ d
      | InvalidArguments d \<Rightarrow> ''invalid arguments: '' @ d
      | Internal d \<Rightarrow> d)"

record error_body =
  eb_class :: error_class
  eb_desc :: bytes

definition error_body_of :: "error \<Rightarrow> error_body" where
  "error_body_of e = \<lparr>eb_class = error_to_class e, eb_desc = error_text e\<rparr>"

datatype response =
    Success json "int option"
  | ErrorReply error_body "int option"

definition response_from_result :: "int option \<Rightarrow> (error, json) result \<Rightarrow> response" where
  "response_from_result idn r =
     (case r of Ok v \<Rightarrow> Success v idn | Err e \<Rightarrow> ErrorReply (error_body_of e) idn)"

definition response_error :: "int option \<Rightarrow> error \<Rightarrow> response" where
  "response_error idn e = ErrorReply (error_body_of e) idn"

definition response_id :: "response \<Rightarrow> int option" where
  "response_id r = (case r of Success _ i \<Rightarrow> i | ErrorReply _ i \<Rightarrow> i)"

text \<open>
  \<^verbatim>\<open>Response::to_json\<close>: the untagged enum as an object with the fields in declaration order, \<^verbatim>\<open>id\<close>
  left out when absent; \<open>ser\<close> prints a value.
\<close>

definition id_field :: "int option \<Rightarrow> bytes" where
  "id_field i = (case i of None \<Rightarrow> [] | Some n \<Rightarrow> '',\"id\":'' @ show_int n)"

definition to_json :: "(json \<Rightarrow> bytes) \<Rightarrow> response \<Rightarrow> bytes" where
  "to_json ser r =
     (case r of
        Success v i \<Rightarrow> ''{\"return\":'' @ ser v @ id_field i @ ''}''
      | ErrorReply b i \<Rightarrow>
          ''{\"error\":{\"class\":'' @ ser (JString (error_class_str (eb_class b))) @
          '',\"desc\":'' @ ser (JString (eb_desc b)) @ ''}'' @ id_field i @ ''}'')"

definition MAX_RESPONSE_ENVELOPE_BYTES :: nat where
  "MAX_RESPONSE_ENVELOPE_BYTES =
     length ''{\"return\":'' + length ('',\"id\":-9223372036854775808}'' @ [NEWLINE])"

section \<open>Parsing a frame\<close>

definition describe :: "serde_error \<Rightarrow> string" where
  "describe e =
     (case se_category e of
        Io \<Rightarrow> ''i/o error''
      | Syntax \<Rightarrow> ''malformed JSON at line '' @ show_nat (se_line e) @ '' column '' @ show_nat (se_column e)
      | Eof \<Rightarrow> ''unexpected end of input''
      | Data \<Rightarrow> ''request does not match the schema at line '' @ show_nat (se_line e) @
                '' column '' @ show_nat (se_column e))"

definition parse_request :: "json_reader \<Rightarrow> bytes \<Rightarrow> (error, request) result" where
  "parse_request rd bs =
     (case check_bounds bs of
        Err e \<Rightarrow> Err (InvalidRequest (bounds_error_text e))
      | Ok _ \<Rightarrow> (case from_slice rd bs of
            Err e \<Rightarrow> Err (InvalidRequest (describe e))
          | Ok r \<Rightarrow> Ok r))"

text \<open>\<^verbatim>\<open>arguments::<T>\<close>; \<open>de\<close> is the deserialiser of the argument type.\<close>

definition arguments :: "(json \<Rightarrow> 'a option) \<Rightarrow> request \<Rightarrow> (error, 'a) result" where
  "arguments de rq =
     (case (case rq_arguments rq of
              Some v \<Rightarrow> if is_object v then Ok v
                        else Err (InvalidArguments ''arguments must be an object'')
            | None \<Rightarrow> Ok (JObject [])) of
        Err e \<Rightarrow> Err e
      | Ok v \<Rightarrow> (case de v of
            Some x \<Rightarrow> Ok x
          | None \<Rightarrow> Err (InvalidArguments (''arguments do not match the schema of '' @ rq_method rq))))"

section \<open>What a request is\<close>

text \<open>The entries of an object all of whose keys and values could be read.\<close>

fun entry_values :: "map_entry list \<Rightarrow> (bytes \<times> json) list option" where
  "entry_values [] = Some []"
| "entry_values (BadKey e # es) = None"
| "entry_values (Entry k (Err e) # es) = None"
| "entry_values (Entry k (Ok v) # es) = map_option (\<lambda>kvs. (k, v) # kvs) (entry_values es)"

text \<open>
  An object is the request \<open>r\<close> when its keys are distinct and among the three known ones, the
  method is a string, arguments are an object and the id fits \<^verbatim>\<open>i64\<close>. The first three arguments
  are what has been read already.
\<close>

definition denotes :: "bytes option \<Rightarrow> json option \<Rightarrow> int option \<Rightarrow> (bytes \<times> json) list \<Rightarrow> request \<Rightarrow> bool"
  where
  "denotes m a i kvs r \<longleftrightarrow>
     distinct (map fst kvs) \<and>
     list_all (\<lambda>k. k = ''execute'' \<or> k = ''arguments'' \<or> k = ''id'') (map fst kvs) \<and>
     (case map_of kvs ''execute'' of
        None \<Rightarrow> m = Some (rq_method r)
      | Some v \<Rightarrow> m = None \<and> v = JString (rq_method r)) \<and>
     (case map_of kvs ''arguments'' of
        None \<Rightarrow> rq_arguments r = a
      | Some v \<Rightarrow> a = None \<and> is_object v \<and> rq_arguments r = Some v) \<and>
     (case map_of kvs ''id'' of
        None \<Rightarrow> rq_id r = i
      | Some v \<Rightarrow> i = None \<and> as_i64 v \<noteq> None \<and> rq_id r = as_i64 v)"

section \<open>Lemmas\<close>

lemma denotes_Nil: "denotes m a i [] r \<longleftrightarrow> m = Some (rq_method r) \<and> rq_arguments r = a \<and> rq_id r = i"
  by (simp add: denotes_def)

lemma denotes_other:
  "k \<noteq> ''execute'' \<Longrightarrow> k \<noteq> ''arguments'' \<Longrightarrow> k \<noteq> ''id'' \<Longrightarrow> \<not> denotes m a i ((k, v) # kvs) r"
  by (simp add: denotes_def)

lemma map_of_cases:
  obtains "k \<notin> fst ` set kvs" "map_of kvs k = None"
  | w where "k \<in> fst ` set kvs" "map_of kvs k = Some w"
proof (cases "map_of kvs k")
  case None
  then show ?thesis using that(1) by (simp add: map_of_eq_None_iff)
next
  case (Some w)
  then have "k \<in> fst ` set kvs" by (metis map_of_eq_None_iff option.distinct(1))
  then show ?thesis using that(2) Some by blast
qed

lemma denotes_execute:
  "denotes m a i ((''execute'', v) # kvs) r \<longleftrightarrow>
     m = None \<and> (\<exists>name. v = JString name \<and> denotes (Some name) a i kvs r)"
  by (rule map_of_cases [of "''execute''" kvs]) (auto simp: denotes_def)

lemma denotes_arguments:
  "denotes m a i ((''arguments'', v) # kvs) r \<longleftrightarrow>
     a = None \<and> is_object v \<and> denotes m (Some v) i kvs r"
  by (rule map_of_cases [of "''arguments''" kvs]) (auto simp: denotes_def)

lemma denotes_id:
  "denotes m a i ((''id'', v) # kvs) r \<longleftrightarrow>
     i = None \<and> (\<exists>n. as_i64 v = Some n \<and> denotes m a (Some n) kvs r)"
  by (rule map_of_cases [of "''id''" kvs]) (auto simp: denotes_def)

lemmas denotes_simps = denotes_Nil denotes_other denotes_execute denotes_arguments denotes_id

lemma visit_loop_denotes:
  "visit_loop err n m a i es = Ok r \<longleftrightarrow>
     (case entry_values es of None \<Rightarrow> False | Some kvs \<Rightarrow> denotes m a i kvs r)"
proof (induction err n m a i es arbitrary: r rule: visit_loop.induct)
  case (1 err n m a i)
  then show ?case by (cases r) (auto simp: denotes_simps split: option.splits)
next
  case (2 err n m a i e es)
  then show ?case by simp
next
  case (3 err n m a i key v es)
  show ?case
  proof (cases v)
    case (Inl e)
    then show ?thesis by simp
  next
    case (Inr w)
    consider "key = ''execute''" | "key = ''arguments''" | "key = ''id''"
      | "key \<noteq> ''execute''" "key \<noteq> ''arguments''" "key \<noteq> ''id''" by blast
    then show ?thesis
      using 3 Inr
      by cases (cases w; auto simp: denotes_simps split: option.splits)+
  qed
qed

text \<open>The longest envelope: the whole line adds at most the reserved bytes to the printed value.\<close>

lemma envelope_bound:
  assumes "\<And>n. i = Some n \<Longrightarrow> is_i64 n"
  shows "length (to_json ser (Success v i) @ [NEWLINE]) \<le> length (ser v) + MAX_RESPONSE_ENVELOPE_BYTES"
  using assms length_show_i64
  by (cases i) (auto simp: to_json_def id_field_def MAX_RESPONSE_ENVELOPE_BYTES_def)

lemma envelope_bound_attained:
  "length (to_json ser (Success v (Some (- I64_MAX - 1))) @ [NEWLINE]) =
     length (ser v) + MAX_RESPONSE_ENVELOPE_BYTES"
  by (simp add: to_json_def id_field_def MAX_RESPONSE_ENVELOPE_BYTES_def show_int_def I64_MAX_def
      show_nat.simps)

lemma response_id_from_result [simp]: "response_id (response_from_result i r) = i"
  by (simp add: response_id_def response_from_result_def split: sum.splits)

lemma response_id_error [simp]: "response_id (response_error i e) = i"
  by (simp add: response_id_def response_error_def)

section \<open>Properties\<close>

text \<open>
  C35. A frame is accepted as the request \<open>r\<close> exactly when it is within the bounds and its text is
  one object, read without error to its end, whose keys are distinct and known, whose method is a
  string, whose arguments are an object and whose id is an integer that fits \<^verbatim>\<open>i64\<close>; every other
  frame is refused as an \<^verbatim>\<open>InvalidRequest\<close>.
\<close>

theorem parse_request_accepts:
  "(parse_request rd bs = Ok r \<longleftrightarrow>
     check_bounds bs = Ok () \<and>
     (\<exists>es kvs. rd_entries rd bs = Ok es \<and> entry_values es = Some kvs \<and>
        denotes None None None kvs r \<and> rd_end rd bs = None)) \<and>
   (is_ok (parse_request rd bs) \<or> (\<exists>d. parse_request rd bs = Err (InvalidRequest d)))"
proof -
  have "from_slice rd bs = Ok r \<longleftrightarrow>
    (\<exists>es. rd_entries rd bs = Ok es \<and> visit_map (rd_error rd bs) es = Ok r \<and> rd_end rd bs = None)"
    by (auto simp: from_slice_def split: sum.splits option.splits)
  then have "from_slice rd bs = Ok r \<longleftrightarrow>
    (\<exists>es kvs. rd_entries rd bs = Ok es \<and> entry_values es = Some kvs \<and>
        denotes None None None kvs r \<and> rd_end rd bs = None)"
    by (auto simp: visit_map_def visit_loop_denotes split: option.splits)
  then show ?thesis
    by (auto simp: parse_request_def split: sum.splits)
qed

end
