(* ===== verification/State.thy ===== *)
theory State
  imports Prelude
begin

text \<open>
  \<^verbatim>\<open>src/state.rs\<close>: the freeze state machine and its ownership tokens. Each method is a function from
  the machine to the machine and its result; a method that consumes a token takes it as argument.

  Every method runs under the mutex, so concurrent callers are interleavings of whole calls. The
  \<open>fsm_world\<close> pairs the machine with the tokens its callers hold, and \<open>fsm_step\<close> lets any caller make
  any call its tokens permit (a token is neither cloned nor forged, only dropped). Shown: at most
  one token is ever held and it names the state, so an operation has one owner; every change of
  state is an edge of the documented diagram.
\<close>

section \<open>The machine\<close>

datatype freeze_state = Thawed | Freezing | Frozen | Thawing

definition freeze_state_str :: "freeze_state \<Rightarrow> string" where
  "freeze_state_str s =
     (case s of
        Thawed \<Rightarrow> ''thawed'' | Freezing \<Rightarrow> ''freezing'' | Frozen \<Rightarrow> ''frozen'' | Thawing \<Rightarrow> ''thawing'')"

definition is_frozen_for_gate :: "freeze_state \<Rightarrow> bool" where
  "is_frozen_for_gate s \<longleftrightarrow> s \<noteq> Thawed"

record transition_error =
  te_attempted :: string
  te_current :: freeze_state

definition transition_error_text :: "transition_error \<Rightarrow> string" where
  "transition_error_text e =
     ''cannot '' @ te_attempted e @ '' while '' @ freeze_state_str (te_current e)"

datatype freeze_token = FreezeToken

record thaw_token =
  tt_origin :: freeze_state

definition is_recovery_drain :: "thaw_token \<Rightarrow> bool" where
  "is_recovery_drain t \<longleftrightarrow> tt_origin t = Thawed"

record freeze_state_machine =
  fsm_state :: freeze_state

definition starting_in :: "freeze_state \<Rightarrow> freeze_state_machine" where
  "starting_in s = \<lparr>fsm_state = s\<rparr>"

definition new_machine :: freeze_state_machine where
  "new_machine = starting_in Thawed"

definition starting_frozen :: freeze_state_machine where
  "starting_frozen = starting_in Frozen"

definition current_state :: "freeze_state_machine \<Rightarrow> freeze_state" where
  "current_state m = fsm_state m"

definition begin_freeze ::
  "freeze_state_machine \<Rightarrow> freeze_state_machine \<times> (transition_error, freeze_token) result" where
  "begin_freeze m =
     (case fsm_state m of
        Thawed \<Rightarrow> (m\<lparr>fsm_state := Freezing\<rparr>, Ok FreezeToken)
      | current \<Rightarrow> (m, Err \<lparr>te_attempted = ''begin freeze'', te_current = current\<rparr>))"

definition freeze_succeeded :: "freeze_state_machine \<Rightarrow> freeze_token \<Rightarrow> freeze_state_machine" where
  "freeze_succeeded m t = m\<lparr>fsm_state := Frozen\<rparr>"

definition freeze_failed :: "freeze_state_machine \<Rightarrow> freeze_token \<Rightarrow> freeze_state_machine" where
  "freeze_failed m t = m\<lparr>fsm_state := Thawed\<rparr>"

definition abort_freeze ::
  "freeze_state_machine \<Rightarrow> freeze_token \<Rightarrow> freeze_state_machine \<times> thaw_token" where
  "abort_freeze m t = (m\<lparr>fsm_state := Thawing\<rparr>, \<lparr>tt_origin = Freezing\<rparr>)"

definition claim_thaw ::
  "freeze_state_machine \<Rightarrow> freeze_state_machine \<times> (transition_error, thaw_token) result" where
  "claim_thaw m =
     (case fsm_state m of
        Frozen \<Rightarrow> (m\<lparr>fsm_state := Thawing\<rparr>, Ok \<lparr>tt_origin = Frozen\<rparr>)
      | Thawed \<Rightarrow> (m\<lparr>fsm_state := Thawing\<rparr>, Ok \<lparr>tt_origin = Thawed\<rparr>)
      | current \<Rightarrow> (m, Err \<lparr>te_attempted = ''claim thaw'', te_current = current\<rparr>))"

definition claim_thaw_from_frozen ::
  "freeze_state_machine \<Rightarrow> freeze_state_machine \<times> (transition_error, thaw_token) result" where
  "claim_thaw_from_frozen m =
     (case fsm_state m of
        Frozen \<Rightarrow> (m\<lparr>fsm_state := Thawing\<rparr>, Ok \<lparr>tt_origin = Frozen\<rparr>)
      | current \<Rightarrow> (m, Err \<lparr>te_attempted = ''claim thaw from frozen'', te_current = current\<rparr>))"

definition thaw_succeeded :: "freeze_state_machine \<Rightarrow> thaw_token \<Rightarrow> freeze_state_machine" where
  "thaw_succeeded m t = m\<lparr>fsm_state := Thawed\<rparr>"

definition thaw_failed :: "freeze_state_machine \<Rightarrow> thaw_token \<Rightarrow> freeze_state_machine" where
  "thaw_failed m t = m\<lparr>fsm_state := Frozen\<rparr>"

section \<open>Concurrent callers\<close>

datatype token = FT freeze_token | TT thaw_token

record fsm_world =
  fw_machine :: freeze_state_machine
  fw_held :: "token list"

definition fsm_start :: "fsm_world \<Rightarrow> bool" where
  "fsm_start w \<longleftrightarrow> fw_held w = [] \<and> (fw_machine w = new_machine \<or> fw_machine w = starting_frozen)"

definition gained :: "fsm_world \<Rightarrow> freeze_state_machine \<times> (transition_error, 'a) result \<Rightarrow> ('a \<Rightarrow> token)
    \<Rightarrow> fsm_world" where
  "gained w res mk =
     (case snd res of
        Ok t \<Rightarrow> w\<lparr>fw_machine := fst res, fw_held := mk t # fw_held w\<rparr>
      | Err _ \<Rightarrow> w\<lparr>fw_machine := fst res\<rparr>)"

inductive fsm_step :: "fsm_world \<Rightarrow> fsm_world \<Rightarrow> bool" where
  st_begin: "fsm_step w (gained w (begin_freeze (fw_machine w)) FT)"
| st_claim: "fsm_step w (gained w (claim_thaw (fw_machine w)) TT)"
| st_claim_frozen: "fsm_step w (gained w (claim_thaw_from_frozen (fw_machine w)) TT)"
| st_freeze_ok: "FT t \<in> set (fw_held w) \<Longrightarrow>
    fsm_step w (w\<lparr>fw_machine := freeze_succeeded (fw_machine w) t,
                  fw_held := remove1 (FT t) (fw_held w)\<rparr>)"
| st_freeze_fail: "FT t \<in> set (fw_held w) \<Longrightarrow>
    fsm_step w (w\<lparr>fw_machine := freeze_failed (fw_machine w) t,
                  fw_held := remove1 (FT t) (fw_held w)\<rparr>)"
| st_abort: "FT t \<in> set (fw_held w) \<Longrightarrow> abort_freeze (fw_machine w) t = (m, tt) \<Longrightarrow>
    fsm_step w (w\<lparr>fw_machine := m, fw_held := TT tt # remove1 (FT t) (fw_held w)\<rparr>)"
| st_thaw_ok: "TT t \<in> set (fw_held w) \<Longrightarrow>
    fsm_step w (w\<lparr>fw_machine := thaw_succeeded (fw_machine w) t,
                  fw_held := remove1 (TT t) (fw_held w)\<rparr>)"
| st_thaw_fail: "TT t \<in> set (fw_held w) \<Longrightarrow>
    fsm_step w (w\<lparr>fw_machine := thaw_failed (fw_machine w) t,
                  fw_held := remove1 (TT t) (fw_held w)\<rparr>)"
| st_drop: "t \<in> set (fw_held w) \<Longrightarrow> fsm_step w (w\<lparr>fw_held := remove1 t (fw_held w)\<rparr>)"

text \<open>One owner: no token, or one that names the state it was handed out for.\<close>

definition one_owner :: "fsm_world \<Rightarrow> bool" where
  "one_owner w \<longleftrightarrow>
     (case fw_held w of
        [] \<Rightarrow> True
      | [FT _] \<Rightarrow> fsm_state (fw_machine w) = Freezing
      | [TT t] \<Rightarrow> fsm_state (fw_machine w) = Thawing \<and> tt_origin t \<noteq> Thawing
      | _ \<Rightarrow> False)"

text \<open>The edges of the module's diagram.\<close>

fun diagram :: "freeze_state \<Rightarrow> freeze_state \<Rightarrow> bool" where
  "diagram Thawed Freezing = True"
| "diagram Freezing Frozen = True"
| "diagram Freezing Thawed = True"
| "diagram Freezing Thawing = True"
| "diagram Frozen Thawing = True"
| "diagram Thawed Thawing = True"
| "diagram Thawing Thawed = True"
| "diagram Thawing Frozen = True"
| "diagram _ _ = False"

section \<open>Lemmas\<close>

lemmas fsm_op_defs =
  begin_freeze_def freeze_succeeded_def freeze_failed_def abort_freeze_def claim_thaw_def
  claim_thaw_from_frozen_def thaw_succeeded_def thaw_failed_def

inductive_cases fsm_stepE: "fsm_step w w'"

lemma one_owner_cases [consumes 1, case_names free freezing thawing]:
  assumes "one_owner w"
  obtains "fw_held w = []"
  | "fw_held w = [FT FreezeToken]" "fsm_state (fw_machine w) = Freezing"
  | t where "fw_held w = [TT t]" "fsm_state (fw_machine w) = Thawing" "tt_origin t \<noteq> Thawing"
proof (cases "fw_held w")
  case (Cons a list)
  then show ?thesis
    using assms that(2,3) freeze_token.exhaust
    by (cases a; cases list) (auto simp: one_owner_def split: token.splits)
qed (use that(1) in blast)

lemma fsm_step_diagram:
  assumes "one_owner w" "fsm_step w w'"
  shows "one_owner w' \<and>
    (fsm_state (fw_machine w) = fsm_state (fw_machine w') \<or>
     diagram (fsm_state (fw_machine w)) (fsm_state (fw_machine w')))"
  using assms(2,1)
  by cases
     (erule one_owner_cases;
      auto simp: one_owner_def fsm_op_defs gained_def split: freeze_state.splits)+

interpretation fsm: inductive_invariant fsm_start fsm_step one_owner
  by unfold_locales (simp add: fsm_start_def one_owner_def, use fsm_step_diagram in blast)

section \<open>Properties\<close>

text \<open>
  C27. Whatever calls interleave, at most one token is held, and holding it fixes the state: a freeze
  token means \<^verbatim>\<open>Freezing\<close>, a thaw token \<^verbatim>\<open>Thawing\<close>. So two claimants never both own the drain, and
  after \<^verbatim>\<open>abort_freeze\<close> no freeze token is left that could publish \<^verbatim>\<open>Frozen\<close>.
\<close>

theorem token_owns_state:
  assumes "reachable fsm_start fsm_step w"
  shows "length (fw_held w) \<le> 1 \<and>
    (FT t \<in> set (fw_held w) \<longrightarrow> fsm_state (fw_machine w) = Freezing) \<and>
    (TT t' \<in> set (fw_held w) \<longrightarrow> fsm_state (fw_machine w) = Thawing)"
  using fsm.inv_reachable [OF assms] by (rule one_owner_cases) auto

text \<open>
  Every call, made by any caller in any reachable situation, leaves the state as it is or moves
  it along an edge of the documented diagram.
\<close>

theorem transitions_follow_diagram:
  assumes "reachable fsm_start fsm_step w" and "fsm_step w w'"
  shows "fsm_state (fw_machine w) = fsm_state (fw_machine w') \<or>
    diagram (fsm_state (fw_machine w)) (fsm_state (fw_machine w'))"
  using fsm_step_diagram [OF fsm.inv_reachable [OF assms(1)] assms(2)] by blast

text \<open>A freeze that began: the world of the witnesses.\<close>

definition frozen_world :: fsm_world where
  "frozen_world = \<lparr>fw_machine = \<lparr>fsm_state = Freezing\<rparr>, fw_held = [FT FreezeToken]\<rparr>"

lemma frozen_world_reachable: "reachable fsm_start fsm_step frozen_world"
proof -
  let ?w = "\<lparr>fw_machine = new_machine, fw_held = []\<rparr>"
  have "reachable fsm_start fsm_step ?w" by (rule reach_start) (simp add: fsm_start_def)
  then have "reachable fsm_start fsm_step (gained ?w (begin_freeze (fw_machine ?w)) FT)"
    using st_begin by (rule reach_step)
  then show ?thesis
    by (simp add: gained_def begin_freeze_def new_machine_def starting_in_def frozen_world_def)
qed

theorem token_owns_state_witness:
  "reachable fsm_start fsm_step frozen_world \<and> length (fw_held frozen_world) \<le> 1"
  using token_owns_state [OF frozen_world_reachable] frozen_world_reachable by blast

theorem transitions_follow_diagram_witness:
  "diagram (fsm_state (fw_machine frozen_world)) Thawing"
proof -
  let ?w = "frozen_world\<lparr>fw_machine := \<lparr>fsm_state = Thawing\<rparr>, fw_held := [TT \<lparr>tt_origin = Freezing\<rparr>]\<rparr>"
  have "fsm_step frozen_world ?w"
    using st_abort [of FreezeToken frozen_world "\<lparr>fsm_state = Thawing\<rparr>" "\<lparr>tt_origin = Freezing\<rparr>"]
    by (simp add: frozen_world_def abort_freeze_def)
  from transitions_follow_diagram [OF frozen_world_reachable this]
  show ?thesis by (simp add: frozen_world_def)
qed

end
