(* ===== verification/Mountinfo.thy ===== *)
theory Mountinfo
  imports Proto "HOL-Library.Monad_Syntax"
begin

text \<open>
  \<^verbatim>\<open>src/mountinfo.rs\<close>: the parser of \<^verbatim>\<open>/proc/self/mountinfo\<close>. Paths are byte strings. \<open>parse_line\<close> is the
  chain of \<^verbatim>\<open>?\<close> on the line's fields in the option monad; \<open>unescape\<close> is the index loop as recursion on
  the bytes not yet read.

  Shown: the unescaping inverts the kernel's escaping, and a table printed the way
  \<^verbatim>\<open>proc_pid_mountinfo(5)\<close> documents is parsed back to its entries, malformed lines being skipped.
\<close>

section \<open>Entries and fields\<close>

definition U32_MAX :: nat where
  "U32_MAX = 4294967295"

type_synonym path = bytes
type_synonym dev = "nat \<times> nat"

record mount_entry =
  me_mount_id :: nat
  me_parent_id :: nat
  me_major :: nat
  me_minor :: nat
  me_root :: path
  me_mount_point :: path
  me_mount_options :: bytes
  me_optional_fields :: "bytes list"
  me_fs_type :: bytes
  me_source :: bytes
  me_super_options :: bytes

definition entry_dev :: "mount_entry \<Rightarrow> dev" where
  "entry_dev e = (me_major e, me_minor e)"

definition is_octal :: "byte \<Rightarrow> bool" where
  "is_octal b \<longleftrightarrow> 48 \<le> (of_char b :: nat) \<and> of_char b \<le> (55 :: nat)"

definition octal_value :: "bytes \<Rightarrow> nat" where
  "octal_value ds = foldl (\<lambda>acc d. acc * 8 + (of_char d - 48)) 0 ds"

fun unescape :: "bytes \<Rightarrow> bytes" where
  "unescape [] = []"
| "unescape (b # bs) =
     (if b = BACKSLASH \<and> 3 \<le> length bs \<and> list_all is_octal (take 3 bs) \<and> octal_value (take 3 bs) < 256
      then char_of (octal_value (take 3 bs)) # unescape (drop 3 bs)
      else b # unescape bs)"

definition unescape_path :: "bytes \<Rightarrow> path" where
  "unescape_path f = unescape f"

definition unescape_lossy :: "bytes \<Rightarrow> bytes" where
  "unescape_lossy f = from_utf8_lossy (unescape f)"

definition lossy :: "bytes \<Rightarrow> bytes" where
  "lossy f = from_utf8_lossy f"

definition is_ascii :: "bytes \<Rightarrow> bool" where
  "is_ascii f = list_all (\<lambda>b. (of_char b :: nat) < 128) f"

definition ascii_field :: "bytes \<Rightarrow> bytes option" where
  "ascii_field f = (if utf8_valid f \<and> is_ascii f then Some f else None)"

text \<open>\<^verbatim>\<open>str::parse::<u32>\<close>: an optional plus sign, then digits only, at least one, no overflow.\<close>

definition is_digit :: "byte \<Rightarrow> bool" where
  "is_digit b \<longleftrightarrow> 48 \<le> (of_char b :: nat) \<and> of_char b \<le> (57 :: nat)"

definition decimal_value :: "bytes \<Rightarrow> nat" where
  "decimal_value ds = foldl (\<lambda>acc d. acc * 10 + (of_char d - 48)) 0 ds"

definition parse_u32 :: "bytes \<Rightarrow> nat option" where
  "parse_u32 f =
     (let ds = (case f of c # cs \<Rightarrow> if c = CHR ''+'' then cs else f | [] \<Rightarrow> []) in
      if ds \<noteq> [] \<and> list_all is_digit ds \<and> decimal_value ds \<le> U32_MAX
      then Some (decimal_value ds) else None)"

definition number_field :: "bytes \<Rightarrow> nat option" where
  "number_field f = do { s \<leftarrow> ascii_field f; parse_u32 s }"

text \<open>\<^verbatim>\<open>slice::split\<close> (as many pieces as separators plus one) and \<^verbatim>\<open>str::split_once\<close>.\<close>

fun split_on :: "'a \<Rightarrow> 'a list \<Rightarrow> 'a list list" where
  "split_on sep [] = [[]]"
| "split_on sep (b # bs) =
     (if b = sep then [] # split_on sep bs
      else case split_on sep bs of [] \<Rightarrow> [[b]] | p # ps \<Rightarrow> (b # p) # ps)"

fun split_once :: "'a \<Rightarrow> 'a list \<Rightarrow> ('a list \<times> 'a list) option" where
  "split_once sep [] = None"
| "split_once sep (b # bs) =
     (if b = sep then Some ([], bs)
      else map_option (\<lambda>(p, q). (b # p, q)) (split_once sep bs))"

fun next_field :: "bytes list \<Rightarrow> (bytes \<times> bytes list) option" where
  "next_field [] = None"
| "next_field (f # fs) = Some (f, fs)"

text \<open>The \<^verbatim>\<open>loop\<close> that collects the optional fields up to the separator.\<close>

fun optional_loop :: "bytes list \<Rightarrow> (bytes list \<times> bytes list) option" where
  "optional_loop [] = None"
| "optional_loop (f # fs) =
     (if f = ''-'' then Some ([], fs)
      else map_option (\<lambda>(os, rest). (lossy f # os, rest)) (optional_loop fs))"

definition parse_line :: "bytes \<Rightarrow> mount_entry option" where
  "parse_line line = do {
     let fields = filter (\<lambda>f. f \<noteq> []) (split_on (CHR '' '') line);
     (f1, fields) \<leftarrow> next_field fields;
     mount_id \<leftarrow> number_field f1;
     (f2, fields) \<leftarrow> next_field fields;
     parent_id \<leftarrow> number_field f2;
     (f3, fields) \<leftarrow> next_field fields;
     dv \<leftarrow> ascii_field f3;
     (maj, mnr) \<leftarrow> split_once (CHR '':'') dv;
     major \<leftarrow> parse_u32 maj;
     minor \<leftarrow> parse_u32 mnr;
     (f4, fields) \<leftarrow> next_field fields;
     (f5, fields) \<leftarrow> next_field fields;
     (f6, fields) \<leftarrow> next_field fields;
     (opts, fields) \<leftarrow> optional_loop fields;
     (f8, fields) \<leftarrow> next_field fields;
     (f9, fields) \<leftarrow> next_field fields;
     Some \<lparr>me_mount_id = mount_id, me_parent_id = parent_id, me_major = major, me_minor = minor,
           me_root = unescape_path f4, me_mount_point = unescape_path f5,
           me_mount_options = lossy f6, me_optional_fields = opts, me_fs_type = lossy f8,
           me_source = unescape_lossy f9,
           me_super_options =
             (case next_field fields of Some (f10, _) \<Rightarrow> unescape_lossy f10 | None \<Rightarrow> [])\<rparr>
   }"

definition parse_mountinfo :: "bytes \<Rightarrow> mount_entry list" where
  "parse_mountinfo table = List.map_filter parse_line (split_on NEWLINE table)"

section \<open>Reading the table\<close>

definition MOUNTINFO_MAX_BYTES :: nat where
  "MOUNTINFO_MAX_BYTES = 32 * 1024 * 1024"

definition MOUNTINFO_PATH :: path where
  "MOUNTINFO_PATH = ''/proc/self/mountinfo''"

text \<open>
  \<open>readf\<close> is the file system: the whole content of the file at a path, or the text of the I/O error.
  The code reads at most one byte more than the bound.
\<close>

definition read_mountinfo_bounded :: "(path \<Rightarrow> (bytes, bytes) result) \<Rightarrow> path \<Rightarrow> (error, bytes) result" where
  "read_mountinfo_bounded readf p =
     (case readf p of
        Err e \<Rightarrow> Err (Internal (''cannot read '' @ p @ '': '' @ e))
      | Ok content \<Rightarrow>
          (let bs = take (MOUNTINFO_MAX_BYTES + 1) content in
           if length bs > MOUNTINFO_MAX_BYTES
           then Err (Internal (p @ '' exceeds '' @ show_nat MOUNTINFO_MAX_BYTES @ '' bytes''))
           else Ok bs))"

text \<open>\<^verbatim>\<open>MountSource::mounts\<close> over the source's own \<^verbatim>\<open>read_mountinfo\<close>.\<close>

definition mounts_of :: "(error, bytes) result \<Rightarrow> (error, mount_entry list) result" where
  "mounts_of r = (case r of Err e \<Rightarrow> Err e | Ok table \<Rightarrow> Ok (parse_mountinfo table))"

definition proc_mounts :: "(path \<Rightarrow> (bytes, bytes) result) \<Rightarrow> (error, mount_entry list) result" where
  "proc_mounts readf = mounts_of (read_mountinfo_bounded readf MOUNTINFO_PATH)"

section \<open>The documented format\<close>

text \<open>The kernel's escaping of a path: space, tab, newline and backslash as three octal digits.\<close>

definition kernel_escaped :: "byte \<Rightarrow> bool" where
  "kernel_escaped b \<longleftrightarrow> b = CHR '' '' \<or> b = CHR 0x09 \<or> b = NEWLINE \<or> b = BACKSLASH"

definition kernel_escape_byte :: "byte \<Rightarrow> bytes" where
  "kernel_escape_byte b =
     (if kernel_escaped b
      then [BACKSLASH, digit (of_char b div 64), digit (of_char b div 8 mod 8), digit (of_char b mod 8)]
      else [b])"

definition kernel_escape :: "path \<Rightarrow> bytes" where
  "kernel_escape p = concat (map kernel_escape_byte p)"

fun join :: "'a \<Rightarrow> 'a list list \<Rightarrow> 'a list" where
  "join sep [] = []"
| "join sep [p] = p"
| "join sep (p # q # ps) = p @ sep # join sep (q # ps)"

definition entry_fields :: "mount_entry \<Rightarrow> bytes list" where
  "entry_fields e =
     [show_nat (me_mount_id e), show_nat (me_parent_id e),
      show_nat (me_major e) @ '':'' @ show_nat (me_minor e),
      kernel_escape (me_root e), kernel_escape (me_mount_point e), me_mount_options e] @
     me_optional_fields e @
     [''-'', me_fs_type e, kernel_escape (me_source e), kernel_escape (me_super_options e)]"

definition print_entry :: "mount_entry \<Rightarrow> bytes" where
  "print_entry e = join (CHR '' '') (entry_fields e)"

definition print_table :: "mount_entry list \<Rightarrow> bytes" where
  "print_table es = concat (map (\<lambda>e. print_entry e @ [NEWLINE]) es)"

text \<open>A plain field: not empty, valid text, no separator of the format in it.\<close>

definition plain_field :: "bytes \<Rightarrow> bool" where
  "plain_field f \<longleftrightarrow> f \<noteq> [] \<and> utf8_valid f \<and> CHR '' '' \<notin> set f \<and> NEWLINE \<notin> set f"

definition printable_entry :: "mount_entry \<Rightarrow> bool" where
  "printable_entry e \<longleftrightarrow>
     me_mount_id e \<le> U32_MAX \<and> me_parent_id e \<le> U32_MAX \<and>
     me_major e \<le> U32_MAX \<and> me_minor e \<le> U32_MAX \<and>
     me_root e \<noteq> [] \<and> me_mount_point e \<noteq> [] \<and>
     plain_field (me_mount_options e) \<and>
     list_all (\<lambda>f. plain_field f \<and> f \<noteq> ''-'') (me_optional_fields e) \<and>
     plain_field (me_fs_type e) \<and>
     me_source e \<noteq> [] \<and> utf8_valid (me_source e) \<and>
     me_super_options e \<noteq> [] \<and> utf8_valid (me_super_options e)"

section \<open>Lemmas\<close>

subsection \<open>Numbers\<close>

lemma of_char_digit [simp]: "d < 10 \<Longrightarrow> of_char (digit d) = 48 + d"
  by (simp add: digit_def)

lemma is_digit_digit [simp]: "d < 10 \<Longrightarrow> is_digit (digit d)"
  by (simp add: is_digit_def)

lemma show_nat_digits: "list_all is_digit (show_nat n) \<and> show_nat n \<noteq> []"
  by (induction n rule: show_nat.induct) (subst (1 2) show_nat.simps, simp)

lemma decimal_show_nat [simp]: "decimal_value (show_nat n) = n"
proof (induction n rule: show_nat.induct)
  case (1 n)
  then show ?case
    by (subst show_nat.simps) (simp add: decimal_value_def)
qed

lemma digit_neq: "is_digit c \<Longrightarrow> c \<noteq> CHR ''+'' \<and> c \<noteq> CHR '' '' \<and> c \<noteq> NEWLINE \<and> c \<noteq> CHR '':''"
  by (auto simp: is_digit_def)

lemma parse_show_nat [simp]: "n \<le> U32_MAX \<Longrightarrow> parse_u32 (show_nat n) = Some n"
  using show_nat_digits [of n] digit_neq decimal_show_nat [of n]
  by (cases "show_nat n") (auto simp: parse_u32_def Let_def simp del: decimal_show_nat)

lemma digits_ascii: "list_all is_digit ds \<Longrightarrow> is_ascii ds"
  by (auto simp: list_all_iff is_ascii_def is_digit_def)

lemma ascii_utf8_valid: "is_ascii f \<Longrightarrow> utf8_valid f"
  by (induction f) (auto simp: is_ascii_def utf8_valid_Cons utf8_lead_ascii utf8_run_0)

lemma ascii_field_ascii [simp]: "is_ascii f \<Longrightarrow> ascii_field f = Some f"
  by (simp add: ascii_field_def ascii_utf8_valid)

lemma number_show_nat [simp]: "n \<le> U32_MAX \<Longrightarrow> number_field (show_nat n) = Some n"
  using show_nat_digits [of n] by (simp add: number_field_def digits_ascii)

subsection \<open>Splitting\<close>

lemma split_on_not_Nil [simp]: "split_on sep xs \<noteq> []"
  by (induction xs) (auto split: list.splits)

lemma split_on_append: "sep \<notin> set p \<Longrightarrow> split_on sep (p @ sep # rest) = p # split_on sep rest"
  by (induction p) auto

lemma split_on_single: "sep \<notin> set p \<Longrightarrow> split_on sep p = [p]"
  by (induction p) auto

lemma split_on_join:
  "ps \<noteq> [] \<Longrightarrow> list_all (\<lambda>p. sep \<notin> set p) ps \<Longrightarrow> split_on sep (join sep ps) = ps"
  by (induction sep ps rule: join.induct) (simp_all add: split_on_append split_on_single)

lemma split_once_append: "sep \<notin> set p \<Longrightarrow> split_once sep (p @ sep # q) = Some (p, q)"
  by (induction p) auto

lemma set_join_subset: "set (join sep ps) \<subseteq> insert sep (\<Union> (set ` set ps))"
  by (induction sep ps rule: join.induct) auto

lemma show_nat_no_sep:
  "CHR '' '' \<notin> set (show_nat n)" "NEWLINE \<notin> set (show_nat n)" "CHR '':'' \<notin> set (show_nat n)"
  using show_nat_digits [of n] digit_neq by (auto simp: list_all_iff)

lemma show_nat_not_Nil [simp]: "show_nat n \<noteq> []"
  using show_nat_digits by blast

subsection \<open>Escaping\<close>

lemma kernel_escape_Cons: "kernel_escape (b # p) = kernel_escape_byte b @ kernel_escape p"
  by (simp add: kernel_escape_def)

lemma unescape_escape_byte: "unescape (kernel_escape_byte b @ rest) = b # unescape rest"
  by (auto simp: kernel_escape_byte_def kernel_escaped_def is_octal_def octal_value_def
      char_of_eq_iff take_bit_eq_mod)

lemma unescape_escape [simp]: "unescape (kernel_escape p) = p"
  by (induction p) (simp_all add: kernel_escape_Cons unescape_escape_byte kernel_escape_def)

lemma digit_no_sep:
  "d < 10 \<Longrightarrow> CHR '' '' \<noteq> digit d" "d < 10 \<Longrightarrow> NEWLINE \<noteq> digit d"
  using digit_neq [OF is_digit_digit, of d] by metis+

lemma kernel_escape_byte_no_sep:
  "CHR '' '' \<notin> set (kernel_escape_byte b) \<and> NEWLINE \<notin> set (kernel_escape_byte b)"
  by (auto simp: kernel_escape_byte_def kernel_escaped_def digit_no_sep)

lemma kernel_escape_no_sep: "CHR '' '' \<notin> set (kernel_escape p)" "NEWLINE \<notin> set (kernel_escape p)"
  using kernel_escape_byte_no_sep by (auto simp: kernel_escape_def)

lemma kernel_escape_Nil_iff [simp]: "kernel_escape p = [] \<longleftrightarrow> p = []"
  by (cases p) (auto simp: kernel_escape_def kernel_escape_byte_def)

subsection \<open>Lines\<close>

lemma optional_loop_print:
  "list_all (\<lambda>f. plain_field f \<and> f \<noteq> ''-'') os \<Longrightarrow>
   optional_loop (os @ ''-'' # rest) = Some (os, rest)"
  by (induction os) (auto simp: plain_field_def lossy_def from_utf8_lossy_id)

lemma entry_fields_plain:
  assumes "printable_entry e"
  shows "list_all (\<lambda>f. f \<noteq> [] \<and> CHR '' '' \<notin> set f \<and> NEWLINE \<notin> set f) (entry_fields e)"
  using assms show_nat_no_sep kernel_escape_no_sep
  by (auto simp: printable_entry_def entry_fields_def plain_field_def list_all_iff)

lemma device_field:
  "is_ascii (show_nat a @ '':'' @ show_nat b)"
  "split_once (CHR '':'') (show_nat a @ '':'' @ show_nat b) = Some (show_nat a, show_nat b)"
  using digits_ascii show_nat_digits split_once_append [of "CHR '':''" "show_nat a" "show_nat b"]
    show_nat_no_sep(3) [of a]
  by (auto simp: is_ascii_def)

lemma parse_print_entry:
  assumes "printable_entry e"
  shows "parse_line (print_entry e) = Some e"
proof -
  have "split_on (CHR '' '') (print_entry e) = entry_fields e"
    using entry_fields_plain [OF assms] unfolding print_entry_def
    by (intro split_on_join) (auto simp: list_all_iff entry_fields_def)
  moreover have "filter (\<lambda>f. f \<noteq> []) (entry_fields e) = entry_fields e"
    using entry_fields_plain [OF assms] by (simp add: filter_id_conv list_all_iff)
  ultimately show ?thesis
    using assms optional_loop_print device_field
    by (simp add: parse_line_def entry_fields_def printable_entry_def plain_field_def
        unescape_path_def unescape_lossy_def lossy_def from_utf8_lossy_id Let_def)
qed

lemma print_entry_no_newline: "printable_entry e \<Longrightarrow> NEWLINE \<notin> set (print_entry e)"
  using set_join_subset [of "CHR '' ''" "entry_fields e"] entry_fields_plain [of e]
  by (fastforce simp: print_entry_def list_all_iff)

lemma parse_line_Nil [simp]: "parse_line [] = None"
  by (simp add: parse_line_def)

lemma split_print_table:
  "list_all printable_entry es \<Longrightarrow> split_on NEWLINE (print_table es @ rest) =
     map print_entry es @ split_on NEWLINE rest"
  by (induction es) (simp_all add: print_table_def split_on_append print_entry_no_newline)

section \<open>The types of an entry\<close>

text \<open>Which values of the record are values of \<^verbatim>\<open>MountEntry\<close>: \<^verbatim>\<open>u32\<close> numbers and \<^verbatim>\<open>String\<close> texts.\<close>

definition typed_entry :: "mount_entry \<Rightarrow> bool" where
  "typed_entry e \<longleftrightarrow>
     me_mount_id e \<le> U32_MAX \<and> me_parent_id e \<le> U32_MAX \<and> me_major e \<le> U32_MAX \<and> me_minor e \<le> U32_MAX \<and>
     utf8_valid (me_mount_options e) \<and> list_all utf8_valid (me_optional_fields e) \<and> utf8_valid (me_fs_type e) \<and>
     utf8_valid (me_source e) \<and> utf8_valid (me_super_options e)"

lemma parse_u32_le: "parse_u32 f = Some n \<Longrightarrow> n \<le> U32_MAX"
  by (auto simp: parse_u32_def Let_def split: if_splits)

lemma number_field_le: "number_field f = Some n \<Longrightarrow> n \<le> U32_MAX"
  by (auto simp: number_field_def bind_eq_Some_conv dest: parse_u32_le)

lemma optional_loop_valid: "optional_loop fs = Some (os, rest) \<Longrightarrow> list_all utf8_valid os"
  by (induction fs arbitrary: os) (auto simp: lossy_def from_utf8_lossy_valid split: if_splits)

lemma parse_line_typed: "parse_line line = Some e \<Longrightarrow> typed_entry e"
  by (auto simp: parse_line_def Let_def bind_eq_Some_conv typed_entry_def lossy_def unescape_lossy_def from_utf8_lossy_valid
      split: option.splits prod.splits)
     (rule number_field_le parse_u32_le optional_loop_valid, assumption)+

lemma parse_mountinfo_typed: "list_all typed_entry (parse_mountinfo table)"
  by (auto simp: parse_mountinfo_def List.map_filter_def list_all_iff dest: parse_line_typed)

section \<open>Properties\<close>

text \<open>
  C39. Round trip: a mount table in the documented format is parsed to exactly its entries, in mount
  order, whatever bytes the paths hold (the kernel's escaping of blanks and backslashes is undone
  byte for byte). The entries' numbers fit 32 bits and their text fields are valid text without
  blanks, as the kernel prints them.
\<close>

theorem parse_printed_table:
  assumes "list_all printable_entry es"
  shows "parse_mountinfo (print_table es) = es"
proof -
  have "parse_mountinfo (print_table es) = List.map_filter parse_line (map print_entry es @ [[]])"
    using split_print_table [OF assms, of "[]"] by (simp add: parse_mountinfo_def)
  also have "\<dots> = es"
    using assms by (induction es) (simp_all add: map_filter_def parse_print_entry)
  finally show ?thesis .
qed

definition example_entry :: mount_entry where
  "example_entry =
     \<lparr>me_mount_id = 36, me_parent_id = 35, me_major = 98, me_minor = 0, me_root = ''/'',
      me_mount_point = ''/a b'', me_mount_options = ''rw'', me_optional_fields = [''master:1''],
      me_fs_type = ''ext4'', me_source = ''/dev/root'', me_super_options = ''rw''\<rparr>"

theorem parse_printed_table_witness:
  "parse_mountinfo (print_table [example_entry]) = [example_entry]"
proof -
  have "list_all printable_entry [example_entry]"
    by (simp add: printable_entry_def example_entry_def plain_field_def U32_MAX_def ascii_utf8_valid
        is_ascii_def)
  then show ?thesis by (rule parse_printed_table)
qed

end
