(* ===== verification/FreezePlan.thy ===== *)
theory FreezePlan
  imports Mountinfo
begin

text \<open>
  \<^verbatim>\<open>src/freeze_plan.rs\<close>: which mounted filesystems a freeze, thaw or trim works on. The hash maps of
  the code are partial functions; \<open>MountTree\<close> borrows rows of the table, which are values here.

  Shown: the plan has one target per eligible superblock, in mount order, with the first mount
  point as its name and the others as aliases; the bounded walk of \<open>resolve\<close> finds what an unbounded
  walk of the mount tree finds; a restriction keeps exactly the targets some requested name leads
  to, each with the first such name.
\<close>

section \<open>Targets and the plan\<close>

definition FREEZABLE_FS_TYPES :: "bytes list" where
  "FREEZABLE_FS_TYPES = [''ext4'', ''xfs'']"

record target =
  tg_mountpoint :: path
  tg_aliases :: "path list"
  tg_dev :: dev
  tg_fs_type :: bytes
  tg_requested :: "path option"

definition tg_mountpoints :: "target \<Rightarrow> path list" where
  "tg_mountpoints t = tg_mountpoint t # tg_aliases t"

record mount_row =
  mr_id :: nat
  mr_parent :: nat
  mr_mount_point :: path
  mr_dev :: dev

record freeze_plan =
  fp_targets :: "target list"
  fp_mounts :: "mount_row list"

definition is_eligible :: "mount_entry \<Rightarrow> bool" where
  "is_eligible e \<longleftrightarrow>
     me_fs_type e \<in> set FREEZABLE_FS_TYPES \<and> take (length ''/dev/'') (me_source e) = ''/dev/''"

text \<open>One round of the loop of \<^verbatim>\<open>FreezePlan::build\<close>; the state is \<^verbatim>\<open>seen\<close> and \<^verbatim>\<open>targets\<close>.\<close>

definition build_step ::
  "mount_entry \<Rightarrow> (dev \<rightharpoonup> nat) \<times> target list \<Rightarrow> (dev \<rightharpoonup> nat) \<times> target list" where
  "build_step e = (\<lambda>(seen, ts).
     if \<not> is_eligible e then (seen, ts)
     else case seen (entry_dev e) of
       Some i \<Rightarrow> (seen, ts[i := (ts ! i)\<lparr>tg_aliases := tg_aliases (ts ! i) @ [me_mount_point e]\<rparr>])
     | None \<Rightarrow> (seen(entry_dev e \<mapsto> length ts),
                ts @ [\<lparr>tg_mountpoint = me_mount_point e, tg_aliases = [], tg_dev = entry_dev e,
                       tg_fs_type = me_fs_type e, tg_requested = None\<rparr>]))"

definition row_of :: "mount_entry \<Rightarrow> mount_row" where
  "row_of e = \<lparr>mr_id = me_mount_id e, mr_parent = me_parent_id e,
               mr_mount_point = me_mount_point e, mr_dev = entry_dev e\<rparr>"

definition build :: "mount_entry list \<Rightarrow> freeze_plan" where
  "build es = \<lparr>fp_targets = snd (fold build_step es (Map.empty, [])), fp_mounts = map row_of es\<rparr>"

definition plan_is_empty :: "freeze_plan \<Rightarrow> bool" where
  "plan_is_empty p \<longleftrightarrow> fp_targets p = []"

definition plan_len :: "freeze_plan \<Rightarrow> nat" where
  "plan_len p = length (fp_targets p)"

definition freeze_order :: "freeze_plan \<Rightarrow> target list" where
  "freeze_order p = rev (fp_targets p)"

definition thaw_order :: "freeze_plan \<Rightarrow> target list" where
  "thaw_order p = fp_targets p"

section \<open>The mount tree\<close>

record mount_tree =
  mt_children :: "nat \<times> path \<rightharpoonup> mount_row list"
  mt_root :: "mount_row option"
  mt_rows :: nat

definition index_step ::
  "mount_row \<Rightarrow> (nat \<times> path \<rightharpoonup> mount_row list) \<Rightarrow> (nat \<times> path \<rightharpoonup> mount_row list)" where
  "index_step r m =
     (if mr_parent r = mr_id r then m
      else let k = (mr_parent r, mr_mount_point r) in
        m(k \<mapsto> (case m k of None \<Rightarrow> [] | Some rs \<Rightarrow> rs) @ [r]))"

definition index_tree :: "mount_row list \<Rightarrow> mount_tree" where
  "index_tree rows =
     \<lparr>mt_children = fold index_step rows Map.empty,
      mt_root = find (\<lambda>r. mr_mount_point r = ''/'' \<and>
                  (mr_parent r = mr_id r \<or> mr_parent r \<notin> set (map mr_id rows))) rows,
      mt_rows = length rows\<rparr>"

definition prefixes_of :: "path \<Rightarrow> path list" where
  "prefixes_of p =
     [take 1 p] @ map (\<lambda>i. take i p) (filter (\<lambda>i. p ! i = CHR ''/'') [1..<length p]) @ [p]"

text \<open>\<^verbatim>\<open>Iterator::find_map\<close>.\<close>

fun find_map :: "('a \<Rightarrow> 'b option) \<Rightarrow> 'a list \<Rightarrow> 'b option" where
  "find_map f [] = None"
| "find_map f (x # xs) = (case f x of Some y \<Rightarrow> Some y | None \<Rightarrow> find_map f xs)"

text \<open>The children attached at the shortest prefix at or below the current mount point.\<close>

definition next_children :: "mount_tree \<Rightarrow> path \<Rightarrow> mount_row \<Rightarrow> mount_row list option" where
  "next_children t p cur =
     find_map (\<lambda>pre. mt_children t (mr_id cur, pre))
       (filter (\<lambda>pre. length pre \<ge> length (mr_mount_point cur)) (prefixes_of p))"

text \<open>
  The \<^verbatim>\<open>for\<close> loop of \<^verbatim>\<open>resolve\<close> with \<open>n\<close> rounds left: the mount it settles on, or none when the table is
  ambiguous at some step or the rounds run out.
\<close>

fun resolve_loop :: "mount_tree \<Rightarrow> path \<Rightarrow> nat \<Rightarrow> mount_row \<Rightarrow> mount_row option" where
  "resolve_loop t p 0 cur = None"
| "resolve_loop t p (Suc n) cur =
     (case next_children t p cur of
        None \<Rightarrow> Some cur
      | Some cs \<Rightarrow> if length cs \<noteq> 1 then None else resolve_loop t p n (cs ! 0))"

definition resolve :: "mount_tree \<Rightarrow> path \<Rightarrow> dev option" where
  "resolve t p =
     (case p of
        [] \<Rightarrow> None
      | c # _ \<Rightarrow>
          if c \<noteq> CHR ''/'' then None
          else (case mt_root t of
              None \<Rightarrow> None
            | Some r \<Rightarrow> (case resolve_loop t p (Suc (mt_rows t)) r of
                None \<Rightarrow> None
              | Some cur \<Rightarrow> if mr_mount_point cur = p then Some (mr_dev cur) else None)))"

section \<open>Restriction and coverage\<close>

text \<open>One round of the loop over the requested names; the state is \<^verbatim>\<open>resolved\<close> and \<^verbatim>\<open>selecting\<close>.\<close>

definition select_step :: "mount_tree \<Rightarrow> path \<Rightarrow>
    (path \<rightharpoonup> dev option) \<times> (dev \<rightharpoonup> path) \<Rightarrow> (path \<rightharpoonup> dev option) \<times> (dev \<rightharpoonup> path)" where
  "select_step t name = (\<lambda>(resolved, selecting).
     let resolved = (case resolved name of
           Some _ \<Rightarrow> resolved
         | None \<Rightarrow> resolved(name \<mapsto> resolve t name))
     in (resolved,
         case the (resolved name) of
           None \<Rightarrow> selecting
         | Some d \<Rightarrow> (case selecting d of Some _ \<Rightarrow> selecting | None \<Rightarrow> selecting(d \<mapsto> name))))"

definition restrict_to :: "freeze_plan \<Rightarrow> path list \<Rightarrow> freeze_plan" where
  "restrict_to p names =
     (let t = index_tree (fp_mounts p);
          selecting = snd (fold (select_step t) names (Map.empty, Map.empty))
      in \<lparr>fp_targets =
            List.map_filter
              (\<lambda>tg. map_option (\<lambda>name. tg\<lparr>tg_requested := Some name\<rparr>) (selecting (tg_dev tg)))
              (fp_targets p),
          fp_mounts = fp_mounts p\<rparr>)"

text \<open>\<^verbatim>\<open>Path::components\<close>: repeated and trailing separators and inner \<^verbatim>\<open>.\<close> components vanish.\<close>

datatype component = RootDir | CurDir | ParentDir | Normal bytes

definition component_of :: "bytes \<Rightarrow> component" where
  "component_of c = (if c = ''..'' then ParentDir else Normal c)"

definition components :: "path \<Rightarrow> component list" where
  "components p =
     (let parts = split_on (CHR ''/'') p;
          lead = (if p \<noteq> [] \<and> hd p = CHR ''/'' then [RootDir]
                  else if hd parts = ''.'' then [CurDir] else [])
      in lead @ map component_of (filter (\<lambda>c. c \<noteq> [] \<and> c \<noteq> ''.'') parts))"

definition path_starts_with :: "path \<Rightarrow> path \<Rightarrow> bool" where
  "path_starts_with p q \<longleftrightarrow> take (length (components q)) (components p) = components q"

text \<open>\<^verbatim>\<open>max_by_key\<close>: the last of the elements with the largest key.\<close>

fun max_by_key :: "('a \<Rightarrow> nat) \<Rightarrow> 'a list \<Rightarrow> 'a option" where
  "max_by_key f [] = None"
| "max_by_key f (x # xs) =
     (case max_by_key f xs of None \<Rightarrow> Some x | Some y \<Rightarrow> if f x > f y then Some x else Some y)"

definition mount_of :: "freeze_plan \<Rightarrow> path \<Rightarrow> (path \<times> dev) option" where
  "mount_of pl p =
     map_option (\<lambda>r. (mr_mount_point r, mr_dev r))
       (max_by_key (\<lambda>r. length (components (mr_mount_point r)))
         (filter (\<lambda>r. path_starts_with p (mr_mount_point r)) (fp_mounts pl)))"

definition covers_device :: "freeze_plan \<Rightarrow> dev \<Rightarrow> bool" where
  "covers_device pl d = list_ex (\<lambda>t. tg_dev t = d) (fp_targets pl)"

definition covers :: "freeze_plan \<Rightarrow> path \<Rightarrow> bool" where
  "covers pl p = (case mount_of pl p of None \<Rightarrow> False | Some (_, d) \<Rightarrow> covers_device pl d)"

section \<open>What the plan is\<close>

text \<open>The superblocks in the order their first eligible mount appears.\<close>

definition eligible_devs :: "mount_entry list \<Rightarrow> dev list" where
  "eligible_devs es = rev (remdups (rev (map entry_dev (filter is_eligible es))))"

text \<open>The target of a superblock: named by its first eligible mount, the others its aliases.\<close>

definition superblock_target :: "mount_entry list \<Rightarrow> dev \<Rightarrow> target" where
  "superblock_target es d =
     (let ms = filter (\<lambda>e. is_eligible e \<and> entry_dev e = d) es in
      \<lparr>tg_mountpoint = me_mount_point (hd ms), tg_aliases = map me_mount_point (tl ms), tg_dev = d,
       tg_fs_type = me_fs_type (hd ms), tg_requested = None\<rparr>)"

text \<open>
  The walk without a bound: from a mount to the one child attached at the first prefix below it at
  which there is one.
\<close>

inductive crosses :: "mount_tree \<Rightarrow> path \<Rightarrow> mount_row \<Rightarrow> mount_row \<Rightarrow> bool" for t p where
  cross: "next_children t p cur = Some [c] \<Longrightarrow> crosses t p cur c"

definition ends_at :: "mount_tree \<Rightarrow> path \<Rightarrow> mount_row \<Rightarrow> mount_row \<Rightarrow> bool" where
  "ends_at t p r cur \<longleftrightarrow> (crosses t p)\<^sup>*\<^sup>* r cur \<and> next_children t p cur = None"

text \<open>A table without cycles: a rank grows from every parent to its children.\<close>

definition ranked :: "(nat \<Rightarrow> nat) \<Rightarrow> mount_row list \<Rightarrow> bool" where
  "ranked rank rows = list_all (\<lambda>r. mr_parent r = mr_id r \<or> rank (mr_parent r) < rank (mr_id r)) rows"

section \<open>Lemmas\<close>

subsection \<open>Building\<close>

lemma eligible_devs_snoc:
  "eligible_devs (es @ [e]) =
     (if is_eligible e \<and> entry_dev e \<notin> set (eligible_devs es)
      then eligible_devs es @ [entry_dev e] else eligible_devs es)"
proof -
  have "remdups (d # ds) = (if d \<in> set ds then remdups ds else d # remdups ds)" for d :: dev and ds
    by simp
  then show ?thesis by (auto simp: eligible_devs_def)
qed

lemma set_eligible_devs:
  "d \<in> set (eligible_devs es) \<longleftrightarrow> filter (\<lambda>e. is_eligible e \<and> entry_dev e = d) es \<noteq> []"
  by (auto simp: eligible_devs_def filter_empty_conv)

lemma distinct_eligible_devs [simp]: "distinct (eligible_devs es)"
  by (simp add: eligible_devs_def)

lemma superblock_target_other:
  "\<not> (is_eligible e \<and> entry_dev e = d) \<Longrightarrow>
   superblock_target (es @ [e]) d = superblock_target es d"
  by (auto simp: superblock_target_def)

lemma superblock_target_alias:
  assumes "is_eligible e" "entry_dev e = d" "d \<in> set (eligible_devs es)"
  shows "superblock_target (es @ [e]) d =
    (superblock_target es d)\<lparr>tg_aliases := tg_aliases (superblock_target es d) @ [me_mount_point e]\<rparr>"
proof -
  obtain m ms where "filter (\<lambda>e. is_eligible e \<and> entry_dev e = d) es = m # ms"
    using assms(3) by (auto simp: set_eligible_devs neq_Nil_conv)
  then show ?thesis using assms(1,2) by (simp add: superblock_target_def)
qed

lemma superblock_target_new:
  assumes "is_eligible e" "entry_dev e = d" "d \<notin> set (eligible_devs es)"
  shows "superblock_target (es @ [e]) d =
    \<lparr>tg_mountpoint = me_mount_point e, tg_aliases = [], tg_dev = d, tg_fs_type = me_fs_type e,
     tg_requested = None\<rparr>"
  using assms by (simp add: superblock_target_def set_eligible_devs)

lemma map_update_at:
  assumes "distinct ds" "i < length ds" "\<And>d. d \<noteq> ds ! i \<Longrightarrow> g d = f d" "g (ds ! i) = x"
  shows "(map f ds)[i := x] = map g ds"
  using assms by (auto intro!: nth_equalityI simp: nth_list_update nth_eq_iff_index_eq)

lemma build_step_simps:
  "\<not> is_eligible e \<Longrightarrow> build_step e (seen, ts) = (seen, ts)"
  "is_eligible e \<Longrightarrow> seen (entry_dev e) = Some i \<Longrightarrow> build_step e (seen, ts) =
     (seen, ts[i := (ts ! i)\<lparr>tg_aliases := tg_aliases (ts ! i) @ [me_mount_point e]\<rparr>])"
  "is_eligible e \<Longrightarrow> seen (entry_dev e) = None \<Longrightarrow> build_step e (seen, ts) =
     (seen(entry_dev e \<mapsto> length ts),
      ts @ [\<lparr>tg_mountpoint = me_mount_point e, tg_aliases = [], tg_dev = entry_dev e,
             tg_fs_type = me_fs_type e, tg_requested = None\<rparr>])"
  by (simp_all add: build_step_def)

text \<open>The state of the loop after a prefix: the targets so far and the index of each superblock.\<close>

lemma build_state:
  obtains seen where
    "fold build_step es (Map.empty, []) = (seen, map (superblock_target es) (eligible_devs es))"
    "\<And>d i. seen d = Some i \<longleftrightarrow> i < length (eligible_devs es) \<and> eligible_devs es ! i = d"
proof (induction es arbitrary: thesis rule: rev_induct)
  case Nil
  then show ?case by (simp add: eligible_devs_def)
next
  case (snoc e es)
  obtain seen where st:
    "fold build_step es (Map.empty, []) = (seen, map (superblock_target es) (eligible_devs es))"
    and seen: "\<And>d i. seen d = Some i \<longleftrightarrow> i < length (eligible_devs es) \<and> eligible_devs es ! i = d"
    using snoc.IH by blast
  consider (skip) "\<not> is_eligible e"
    | (dup) i where "is_eligible e" "seen (entry_dev e) = Some i"
    | (fresh) "is_eligible e" "seen (entry_dev e) = None" by fastforce
  then show ?case
  proof cases
    case skip
    then show ?thesis
      using st seen by (intro snoc.prems [of seen])
        (auto simp: build_step_simps eligible_devs_snoc superblock_target_other)
  next
    case dup
    with seen have i: "i < length (eligible_devs es)" "eligible_devs es ! i = entry_dev e" by auto
    then have mem: "entry_dev e \<in> set (eligible_devs es)" by (metis nth_mem)
    have "(map (superblock_target es) (eligible_devs es))[i :=
        (superblock_target es (entry_dev e))\<lparr>tg_aliases :=
          tg_aliases (superblock_target es (entry_dev e)) @ [me_mount_point e]\<rparr>] =
      map (superblock_target (es @ [e])) (eligible_devs es)"
      using i dup(1) mem
      by (intro map_update_at) (auto simp: superblock_target_other superblock_target_alias)
    then show ?thesis
      using st seen dup i mem by (intro snoc.prems [of seen])
        (auto simp: build_step_simps eligible_devs_snoc)
  next
    case fresh
    then have notin: "entry_dev e \<notin> set (eligible_devs es)"
      using seen by (metis in_set_conv_nth option.distinct(1))
    then have "map (superblock_target (es @ [e])) (eligible_devs es) =
        map (superblock_target es) (eligible_devs es)"
      by (auto intro!: superblock_target_other)
    then show ?thesis
      using st seen fresh notin
      by (intro snoc.prems [of "seen(entry_dev e \<mapsto> length (eligible_devs es))"])
        (auto simp: build_step_simps eligible_devs_snoc superblock_target_new nth_append less_Suc_eq
          dest: nth_mem)
  qed
qed

lemma build_targets: "fp_targets (build es) = map (superblock_target es) (eligible_devs es)"
  by (rule build_state [of es]) (simp add: build_def)

lemma superblock_target_dev [simp]: "tg_dev (superblock_target es d) = d"
  by (simp add: superblock_target_def Let_def)

subsection \<open>Walking\<close>

lemma find_map_Some: "find_map f xs = Some y \<Longrightarrow> \<exists>x \<in> set xs. f x = Some y"
  by (induction xs) (auto split: option.splits)

lemma index_children:
  "fold index_step rows m k = Some rs \<Longrightarrow>
   r \<in> set rs \<Longrightarrow> (\<And>k rs r. m k = Some rs \<Longrightarrow> r \<in> set rs \<Longrightarrow> P k r) \<Longrightarrow>
   (\<And>r. r \<in> set rows \<Longrightarrow> mr_parent r \<noteq> mr_id r \<Longrightarrow> P (mr_parent r, mr_mount_point r) r) \<Longrightarrow> P k r"
proof (induction rows arbitrary: m)
  case Nil
  then show ?case by simp
next
  case (Cons a rows)
  show ?case
  proof (rule Cons.IH [OF _ Cons.prems(2)])
    show "fold index_step rows (index_step a m) k = Some rs" using Cons.prems(1) by simp
    show "\<And>k rs r. index_step a m k = Some rs \<Longrightarrow> r \<in> set rs \<Longrightarrow> P k r"
      using Cons.prems(3,4)
      by (auto simp: index_step_def Let_def split: if_splits option.splits)
    show "\<And>r. r \<in> set rows \<Longrightarrow> mr_parent r \<noteq> mr_id r \<Longrightarrow> P (mr_parent r, mr_mount_point r) r"
      using Cons.prems(4) by simp
  qed
qed

lemma crosses_child:
  assumes "crosses (index_tree rows) p cur c"
  shows "c \<in> set rows \<and> mr_parent c = mr_id cur \<and> mr_parent c \<noteq> mr_id c"
proof -
  obtain pre where "fold index_step rows Map.empty (mr_id cur, pre) = Some [c]"
    using assms by (auto simp: crosses.simps next_children_def index_tree_def dest!: find_map_Some)
  from index_children [OF this, of c "\<lambda>k c. c \<in> set rows \<and> mr_parent c = fst k \<and> mr_parent c \<noteq> mr_id c"]
  show ?thesis by simp
qed

lemma resolve_loop_sound: "resolve_loop t p n r = Some cur \<Longrightarrow> ends_at t p r cur"
proof (induction n arbitrary: r)
  case 0
  then show ?case by simp
next
  case (Suc n)
  show ?case
  proof (cases "next_children t p r")
    case None
    then show ?thesis using Suc.prems by (simp add: ends_at_def)
  next
    case (Some cs)
    then obtain c where c: "cs = [c]" "resolve_loop t p n c = Some cur"
      using Suc.prems by (auto simp: length_Suc_conv split: if_splits)
    then have "crosses t p r c" using Some by (simp add: crosses.simps)
    with Suc.IH [OF c(2)] show ?thesis
      by (auto simp: ends_at_def intro: converse_rtranclp_into_rtranclp)
  qed
qed

lemma resolve_loop_complete:
  "(crosses t p ^^ k) r cur \<Longrightarrow> next_children t p cur = None \<Longrightarrow> k < n \<Longrightarrow>
   resolve_loop t p n r = Some cur"
proof (induction k arbitrary: r n)
  case 0
  then show ?case by (cases n) simp_all
next
  case (Suc k)
  from Suc.prems(1) obtain c where c: "crosses t p r c" "(crosses t p ^^ k) c cur"
    by (metis relpowp_Suc_D2)
  obtain m where "n = Suc m" "k < m" using Suc.prems(3) by (cases n) auto
  then show ?case using c(1) Suc.IH [OF c(2) Suc.prems(2)] by (auto simp: crosses.simps)
qed

text \<open>Along a walk the rank grows, so a walk is no longer than the table.\<close>

lemma walk_length:
  assumes "ranked rank rows" "(crosses (index_tree rows) p ^^ k) r cur"
  shows "k \<le> card {x \<in> set rows. rank (mr_id x) \<le> rank (mr_id cur)}"
  using assms(2)
proof (induction k arbitrary: cur)
  case 0
  then show ?case by simp
next
  case (Suc k)
  obtain c where c: "(crosses (index_tree rows) p ^^ k) r c" "crosses (index_tree rows) p c cur"
    using Suc.prems by auto
  have cur: "cur \<in> set rows" "rank (mr_id c) < rank (mr_id cur)"
    using crosses_child [OF c(2)] assms(1) by (auto simp: ranked_def list_all_iff)
  let ?S = "\<lambda>y. {x \<in> set rows. rank (mr_id x) \<le> rank (mr_id y)}"
  have "Suc (card (?S c)) = card (insert cur (?S c))" using cur(2) by (subst card_insert_disjoint) auto
  also have "\<dots> \<le> card (?S cur)" using cur by (intro card_mono) auto
  finally show ?case using Suc.IH [OF c(1)] by simp
qed

lemma resolve_loop_walk:
  assumes "ranked rank rows"
  shows "resolve_loop (index_tree rows) p (Suc (length rows)) r = Some cur \<longleftrightarrow>
    ends_at (index_tree rows) p r cur"
proof
  assume "ends_at (index_tree rows) p r cur"
  then obtain k where k: "(crosses (index_tree rows) p ^^ k) r cur"
    and stop: "next_children (index_tree rows) p cur = None"
    by (auto simp: ends_at_def dest: rtranclp_imp_relpowp)
  have "k \<le> card {x \<in> set rows. rank (mr_id x) \<le> rank (mr_id cur)}"
    using walk_length [OF assms k] .
  also have "\<dots> \<le> card (set rows)" by (intro card_mono) auto
  also have "\<dots> \<le> length rows" by (rule card_length)
  finally show "resolve_loop (index_tree rows) p (Suc (length rows)) r = Some cur"
    by (intro resolve_loop_complete [OF k stop]) simp
qed (rule resolve_loop_sound)

subsection \<open>Restricting\<close>

lemma select_step_simps:
  assumes "\<And>n d. resolved n = Some d \<Longrightarrow> d = resolve t n"
  shows "\<exists>resolved'. select_step t name (resolved, selecting) =
    (resolved', case resolve t name of None \<Rightarrow> selecting
       | Some d \<Rightarrow> (case selecting d of Some _ \<Rightarrow> selecting | None \<Rightarrow> selecting(d \<mapsto> name))) \<and>
    (\<forall>n d. resolved' n = Some d \<longrightarrow> d = resolve t n)"
  using assms
  by (cases "resolved name") (auto simp: select_step_def Let_def)

lemma selecting_find:
  assumes "\<And>n d. resolved n = Some d \<Longrightarrow> d = resolve t n"
  shows "snd (fold (select_step t) names (resolved, selecting)) d =
    (case selecting d of Some n \<Rightarrow> Some n | None \<Rightarrow> find (\<lambda>n. resolve t n = Some d) names)"
  using assms
proof (induction names arbitrary: resolved selecting)
  case Nil
  then show ?case by (simp split: option.splits)
next
  case (Cons name names)
  obtain resolved' where eq: "select_step t name (resolved, selecting) =
    (resolved', case resolve t name of None \<Rightarrow> selecting
       | Some d \<Rightarrow> (case selecting d of Some _ \<Rightarrow> selecting | None \<Rightarrow> selecting(d \<mapsto> name)))"
    and ok: "\<And>n d. resolved' n = Some d \<Longrightarrow> d = resolve t n"
    using select_step_simps [OF Cons.prems, where name = name and selecting = selecting] by blast
  show ?case
    using Cons.IH [OF ok] by (auto simp: eq split: option.splits)
qed

section \<open>Properties\<close>

text \<open>
  C36. The plan built from a mount table has exactly one target per superblock with an eligible
  mount (an \<^verbatim>\<open>ext4\<close> or \<^verbatim>\<open>xfs\<close> mount of a \<^verbatim>\<open>/dev/\<close> source), in the order of their first eligible mounts;
  the first mount point names the target and the later ones are its aliases, all in mount order.
\<close>

theorem build_one_per_superblock:
  "fp_targets (build es) = map (superblock_target es) (eligible_devs es) \<and>
   distinct (map tg_dev (fp_targets (build es))) \<and>
   (covers_device (build es) d \<longleftrightarrow> list_ex (\<lambda>e. is_eligible e \<and> entry_dev e = d) es)"
  using set_eligible_devs [of d es]
  by (auto simp: build_targets comp_def covers_device_def list_ex_iff filter_empty_conv)

text \<open>
  C37. On a mount table without cycles the bounded walk of \<^verbatim>\<open>MountTree::resolve\<close> answers what the
  unbounded walk answers: the device of the mount the walk from the namespace root ends at, when
  that mount is mounted at exactly the path.
\<close>

theorem resolve_walk:
  assumes "ranked rank rows"
  shows "resolve (index_tree rows) p = Some d \<longleftrightarrow>
    p \<noteq> [] \<and> hd p = CHR ''/'' \<and>
    (\<exists>r cur. mt_root (index_tree rows) = Some r \<and> ends_at (index_tree rows) p r cur \<and>
       mr_mount_point cur = p \<and> mr_dev cur = d)"
proof -
  have "resolve (index_tree rows) p = Some d \<longleftrightarrow>
    p \<noteq> [] \<and> hd p = CHR ''/'' \<and>
    (\<exists>r cur. mt_root (index_tree rows) = Some r \<and>
       resolve_loop (index_tree rows) p (Suc (mt_rows (index_tree rows))) r = Some cur \<and>
       mr_mount_point cur = p \<and> mr_dev cur = d)"
    by (cases p) (auto simp: resolve_def simp del: resolve_loop.simps split: option.splits)
  moreover have "mt_rows (index_tree rows) = length rows" by (simp add: index_tree_def)
  ultimately show ?thesis
    using resolve_loop_walk [OF assms, of p] by (simp del: resolve_loop.simps)
qed

text \<open>
  Restricting a plan keeps exactly the targets whose superblock some requested name leads to,
  in order, each recording the first such name; the mount table stays.
\<close>

theorem restrict_to_selects:
  "restrict_to p names =
    \<lparr>fp_targets = List.map_filter (\<lambda>tg.
         map_option (\<lambda>name. tg\<lparr>tg_requested := Some name\<rparr>)
           (find (\<lambda>name. resolve (index_tree (fp_mounts p)) name = Some (tg_dev tg)) names))
         (fp_targets p),
     fp_mounts = fp_mounts p\<rparr>"
  using selecting_find [of Map.empty] by (simp add: restrict_to_def Let_def)

definition example_rows :: "mount_row list" where
  "example_rows =
     [\<lparr>mr_id = 1, mr_parent = 1, mr_mount_point = ''/'', mr_dev = (8, 1)\<rparr>,
      \<lparr>mr_id = 2, mr_parent = 1, mr_mount_point = ''/srv'', mr_dev = (8, 2)\<rparr>]"

theorem resolve_walk_witness:
  "ranked id example_rows \<and> resolve (index_tree example_rows) ''/srv'' = Some (8, 2) \<and>
   (\<exists>r cur. mt_root (index_tree example_rows) = Some r \<and>
      ends_at (index_tree example_rows) ''/srv'' r cur \<and> mr_mount_point cur = ''/srv'')"
proof -
  have ok: "ranked id example_rows" by (simp add: ranked_def example_rows_def)
  have "resolve (index_tree example_rows) ''/srv'' = Some (8, 2)" by code_simp
  with ok resolve_walk [OF ok, of "''/srv''" "(8, 2)"] show ?thesis by blast
qed

end
