(* ===== verification/Kernel.thy ===== *)
theory Kernel
  imports FreezePlan
begin

text \<open>
  The kernel shim: \<^verbatim>\<open>src/kernel/mod.rs\<close> (errors, mount handles, the \<^verbatim>\<open>KernelOps\<close> trait),
  \<^verbatim>\<open>src/kernel/ioctl.rs\<close> and \<^verbatim>\<open>src/kernel/shutdown.rs\<close> (the production implementation) and
  \<^verbatim>\<open>src/kernel/fake.rs\<close> (the scripted double, whose depth tracking models the kernel's freeze nesting).

  The trait object is the record \<open>kernel_ops\<close> of functions on a kernel state of type \<open>'k\<close>. The
  production implementation is defined over \<open>os_calls\<close>, the system calls it makes. Two locales are
  the contracts the handlers rely on: \<open>kernel_api\<close> (what an implementation answers) and
  \<open>freeze_depth\<close> (how freezes and thaws nest); the first is interpreted on both implementations, the
  second on the fake with depth tracking.
\<close>

section \<open>Errors, handles, the trait\<close>

datatype reboot_command = PowerOff | Restart | Halt

datatype errno =
    EPERM | ENOENT | EACCES | EBUSY | EEXIST | EINVAL | EMFILE | ENOTTY | ENOSYS | EOPNOTSUPP | EBADF
  | OtherErrno nat

datatype kernel_error =
    KErrno errno
  | KOpen errno
  | KWrongFilesystem dev dev

text \<open>The texts of errno values come from the \<^verbatim>\<open>nix\<close> crate: \<open>tx\<close> is that table.\<close>

definition kernel_error_text :: "(errno \<Rightarrow> string) \<Rightarrow> kernel_error \<Rightarrow> string" where
  "kernel_error_text tx e =
     (case e of
        KErrno n \<Rightarrow> tx n
      | KOpen n \<Rightarrow> ''cannot open mountpoint: '' @ tx n
      | KWrongFilesystem expected found \<Rightarrow>
          ''mountpoint is on '' @ show_nat (fst found) @ '':'' @ show_nat (snd found) @
          '', not on the planned '' @ show_nat (fst expected) @ '':'' @ show_nat (snd expected))"

definition kerror_errno :: "kernel_error \<Rightarrow> errno option" where
  "kerror_errno e = (case e of KErrno n \<Rightarrow> Some n | KOpen n \<Rightarrow> Some n | KWrongFilesystem _ _ \<Rightarrow> None)"

definition is_open_failure :: "kernel_error \<Rightarrow> bool" where
  "is_open_failure e = (case e of KOpen _ \<Rightarrow> True | _ \<Rightarrow> False)"

definition is_wrong_filesystem :: "kernel_error \<Rightarrow> bool" where
  "is_wrong_filesystem e = (case e of KWrongFilesystem _ _ \<Rightarrow> True | _ \<Rightarrow> False)"

definition is_ioctl_answer :: "kernel_error \<Rightarrow> bool" where
  "is_ioctl_answer e = (case e of KErrno _ \<Rightarrow> True | _ \<Rightarrow> False)"

definition is_not_supported :: "kernel_error \<Rightarrow> bool" where
  "is_not_supported e \<longleftrightarrow> e = KErrno EOPNOTSUPP \<or> e = KErrno ENOTTY \<or> e = KErrno ENOSYS"

definition is_busy :: "kernel_error \<Rightarrow> bool" where
  "is_busy e \<longleftrightarrow> e = KErrno EBUSY"

definition is_permission :: "kernel_error \<Rightarrow> bool" where
  "is_permission e \<longleftrightarrow> kerror_errno e = Some EPERM \<or> kerror_errno e = Some EACCES"

definition is_invalid :: "kernel_error \<Rightarrow> bool" where
  "is_invalid e \<longleftrightarrow> e = KErrno EINVAL"

record trimmed =
  tr_bytes :: nat
  tr_minimum :: nat

type_synonym fd = nat

record mount =
  mn_mountpoint :: path
  mn_dev :: dev
  mn_fd :: "fd option"

definition unopened :: "path \<Rightarrow> dev \<Rightarrow> mount" where
  "unopened p d = \<lparr>mn_mountpoint = p, mn_dev = d, mn_fd = None\<rparr>"

definition opened :: "path \<Rightarrow> dev \<Rightarrow> fd \<Rightarrow> mount" where
  "opened p d f = \<lparr>mn_mountpoint = p, mn_dev = d, mn_fd = Some f\<rparr>"

definition mount_is_open :: "mount \<Rightarrow> bool" where
  "mount_is_open m \<longleftrightarrow> mn_fd m \<noteq> None"

definition mount_fd :: "mount \<Rightarrow> (kernel_error, fd) result" where
  "mount_fd m = (case mn_fd m of Some f \<Rightarrow> Ok f | None \<Rightarrow> Err (KErrno EBADF))"

record 'k kernel_ops =
  k_open_mount :: "'k \<Rightarrow> path \<Rightarrow> dev \<Rightarrow> 'k \<times> (kernel_error, mount) result"
  k_fifreeze :: "'k \<Rightarrow> mount \<Rightarrow> 'k \<times> (kernel_error, unit) result"
  k_fithaw :: "'k \<Rightarrow> mount \<Rightarrow> 'k \<times> (kernel_error, unit) result"
  k_fitrim :: "'k \<Rightarrow> mount \<Rightarrow> nat \<Rightarrow> 'k \<times> (kernel_error, trimmed) result"
  k_sync :: "'k \<Rightarrow> 'k"
  k_reboot :: "'k \<Rightarrow> reboot_command \<Rightarrow> 'k \<times> (kernel_error, unit) result"

section \<open>The production implementation\<close>

datatype reboot_mode = RB_POWER_OFF | RB_AUTOBOOT | RB_HALT_SYSTEM

record fstrim_range =
  fr_start :: nat
  fr_len :: nat
  fr_minlen :: nat

text \<open>
  The system calls, each with the new state of the system and its errno or result; \<open>os_fstat_dev\<close> is
  the major and minor number of \<^verbatim>\<open>st_dev\<close>, and \<open>os_fitrim\<close> returns the range the kernel rewrote.
\<close>

record 'o os_calls =
  os_open_dir :: "'o \<Rightarrow> path \<Rightarrow> 'o \<times> (errno, fd) result"
  os_fstat_dev :: "'o \<Rightarrow> fd \<Rightarrow> (errno, nat \<times> nat) result"
  os_fifreeze :: "'o \<Rightarrow> fd \<Rightarrow> 'o \<times> (errno, unit) result"
  os_fithaw :: "'o \<Rightarrow> fd \<Rightarrow> 'o \<times> (errno, unit) result"
  os_fitrim :: "'o \<Rightarrow> fd \<Rightarrow> fstrim_range \<Rightarrow> 'o \<times> (errno, fstrim_range) result"
  os_sync :: "'o \<Rightarrow> 'o"
  os_reboot :: "'o \<Rightarrow> reboot_mode \<Rightarrow> 'o \<times> errno"

definition map_err :: "('e \<Rightarrow> 'f) \<Rightarrow> ('e, 'a) result \<Rightarrow> ('f, 'a) result" where
  "map_err f r = (case r of Ok x \<Rightarrow> Ok x | Err e \<Rightarrow> Err (f e))"

definition open_dir :: "'o os_calls \<Rightarrow> 'o \<Rightarrow> path \<Rightarrow> 'o \<times> (kernel_error, fd) result" where
  "open_dir os s p = (let (s', r) = os_open_dir os s p in (s', map_err KOpen r))"

definition split_dev :: "nat \<times> nat \<Rightarrow> dev" where
  "split_dev d = (min (fst d) U32_MAX, min (snd d) U32_MAX)"

definition open_mount :: "'o os_calls \<Rightarrow> 'o \<Rightarrow> path \<Rightarrow> dev \<Rightarrow> 'o \<times> (kernel_error, mount) result" where
  "open_mount os s p d =
     (let (s', r) = open_dir os s p in
      (s', case r of
         Err e \<Rightarrow> Err e
       | Ok f \<Rightarrow> (case os_fstat_dev os s' f of
             Err n \<Rightarrow> Err (KOpen n)
           | Ok st \<Rightarrow>
               if split_dev st \<noteq> d then Err (KWrongFilesystem d (split_dev st))
               else Ok (opened p d f))))"

definition fifreeze :: "'o os_calls \<Rightarrow> 'o \<Rightarrow> mount \<Rightarrow> 'o \<times> (kernel_error, unit) result" where
  "fifreeze os s m =
     (case mount_fd m of
        Err e \<Rightarrow> (s, Err e)
      | Ok f \<Rightarrow> (let (s', r) = os_fifreeze os s f in (s', map_err KErrno r)))"

definition fithaw :: "'o os_calls \<Rightarrow> 'o \<Rightarrow> mount \<Rightarrow> 'o \<times> (kernel_error, unit) result" where
  "fithaw os s m =
     (case mount_fd m of
        Err e \<Rightarrow> (s, Err e)
      | Ok f \<Rightarrow> (let (s', r) = os_fithaw os s f in (s', map_err KErrno r)))"

definition fitrim :: "'o os_calls \<Rightarrow> 'o \<Rightarrow> mount \<Rightarrow> nat \<Rightarrow> 'o \<times> (kernel_error, trimmed) result" where
  "fitrim os s m minimum =
     (case mount_fd m of
        Err e \<Rightarrow> (s, Err e)
      | Ok f \<Rightarrow>
          (let (s', r) = os_fitrim os s f \<lparr>fr_start = 0, fr_len = U64_MAX, fr_minlen = minimum\<rparr> in
           (s', case r of
              Err n \<Rightarrow> Err (KErrno n)
            | Ok rg \<Rightarrow> Ok \<lparr>tr_bytes = fr_len rg, tr_minimum = fr_minlen rg\<rparr>)))"

definition reboot_mode_of :: "reboot_command \<Rightarrow> reboot_mode" where
  "reboot_mode_of c =
     (case c of PowerOff \<Rightarrow> RB_POWER_OFF | Restart \<Rightarrow> RB_AUTOBOOT | Halt \<Rightarrow> RB_HALT_SYSTEM)"

text \<open>\<^verbatim>\<open>reboot(2)\<close> returns only to report an error.\<close>

definition reboot_call :: "'o os_calls \<Rightarrow> 'o \<Rightarrow> reboot_command \<Rightarrow> 'o \<times> (kernel_error, unit) result" where
  "reboot_call os s c = (let (s', n) = os_reboot os s (reboot_mode_of c) in (s', Err (KErrno n)))"

definition linux_kernel :: "'o os_calls \<Rightarrow> 'o kernel_ops" where
  "linux_kernel os =
     \<lparr>k_open_mount = open_mount os, k_fifreeze = fifreeze os, k_fithaw = fithaw os,
      k_fitrim = fitrim os, k_sync = os_sync os, k_reboot = reboot_call os\<rparr>"

section \<open>The scripted double\<close>

datatype call =
    CallOpen path dev
  | CallFifreeze path
  | CallFithaw path
  | CallFitrim path nat
  | CallSync
  | CallReboot reboot_command

text \<open>
  \<^verbatim>\<open>Inner\<close>. The gates, at which a scripted call waits for a test to let it through, and the observer
  hook leave results and state alone and are not part of it.
\<close>

record fake_inner =
  fk_calls :: "call list"
  fk_open_errors :: "path \<rightharpoonup> errno"
  fk_devices :: "path \<rightharpoonup> dev"
  fk_freeze_errors :: "path \<rightharpoonup> errno"
  fk_thaw_successes :: "path \<rightharpoonup> nat"
  fk_thaw_errors :: "path \<rightharpoonup> errno"
  fk_trim_results :: "path \<rightharpoonup> (errno, nat \<times> nat option) result"
  fk_reboot_error :: "errno option"
  fk_track_depth :: bool
  fk_depths :: "dev \<rightharpoonup> nat"

definition fake_new :: fake_inner where
  "fake_new =
     \<lparr>fk_calls = [], fk_open_errors = Map.empty, fk_devices = Map.empty,
      fk_freeze_errors = Map.empty, fk_thaw_successes = Map.empty, fk_thaw_errors = Map.empty,
      fk_trim_results = Map.empty, fk_reboot_error = None, fk_track_depth = False,
      fk_depths = Map.empty\<rparr>"

definition fake_record :: "fake_inner \<Rightarrow> call \<Rightarrow> fake_inner" where
  "fake_record s c = s\<lparr>fk_calls := fk_calls s @ [c]\<rparr>"

definition fake_open_mount :: "fake_inner \<Rightarrow> path \<Rightarrow> dev \<Rightarrow> fake_inner \<times> (kernel_error, mount) result" where
  "fake_open_mount s p d =
     (let s = fake_record s (CallOpen p d) in
      (s, case fk_open_errors s p of
         Some n \<Rightarrow> Err (KOpen n)
       | None \<Rightarrow> (case fk_devices s p of
             Some found \<Rightarrow> if found \<noteq> d then Err (KWrongFilesystem d found) else Ok (unopened p d)
           | None \<Rightarrow> Ok (unopened p d))))"

definition fake_fifreeze :: "fake_inner \<Rightarrow> mount \<Rightarrow> fake_inner \<times> (kernel_error, unit) result" where
  "fake_fifreeze s m =
     (let s = fake_record s (CallFifreeze (mn_mountpoint m)) in
      case fk_freeze_errors s (mn_mountpoint m) of
        Some n \<Rightarrow> (s, Err (KErrno n))
      | None \<Rightarrow>
          (if fk_track_depth s
           then s\<lparr>fk_depths := (fk_depths s)(mn_dev m \<mapsto>
                    (case fk_depths s (mn_dev m) of None \<Rightarrow> 0 | Some n \<Rightarrow> n) + 1)\<rparr>
           else s,
           Ok ()))"

definition fake_fithaw :: "fake_inner \<Rightarrow> mount \<Rightarrow> fake_inner \<times> (kernel_error, unit) result" where
  "fake_fithaw s m =
     (let s = fake_record s (CallFithaw (mn_mountpoint m)) in
      case fk_thaw_errors s (mn_mountpoint m) of
        Some n \<Rightarrow> (s, Err (KErrno n))
      | None \<Rightarrow>
          if fk_track_depth s \<and> fk_thaw_successes s (mn_mountpoint m) = None then
            (let remaining = (case fk_depths s (mn_dev m) of None \<Rightarrow> 0 | Some n \<Rightarrow> n) in
             (s\<lparr>fk_depths := (fk_depths s)(mn_dev m \<mapsto> remaining - 1)\<rparr>,
              if remaining > 0 then Ok () else Err (KErrno EINVAL)))
          else
            (let remaining = (case fk_thaw_successes s (mn_mountpoint m) of None \<Rightarrow> 1 | Some n \<Rightarrow> n) in
             (s\<lparr>fk_thaw_successes := (fk_thaw_successes s)(mn_mountpoint m \<mapsto> remaining - 1)\<rparr>,
              if remaining > 0 then Ok () else Err (KErrno EINVAL))))"

definition fake_fitrim :: "fake_inner \<Rightarrow> mount \<Rightarrow> nat \<Rightarrow> fake_inner \<times> (kernel_error, trimmed) result" where
  "fake_fitrim s m minimum =
     (let s = fake_record s (CallFitrim (mn_mountpoint m) minimum) in
      (s, case fk_trim_results s (mn_mountpoint m) of
         Some (Ok (bs, eff)) \<Rightarrow>
           Ok \<lparr>tr_bytes = bs, tr_minimum = (case eff of Some e \<Rightarrow> e | None \<Rightarrow> minimum)\<rparr>
       | Some (Err n) \<Rightarrow> Err (KErrno n)
       | None \<Rightarrow> Ok \<lparr>tr_bytes = 0, tr_minimum = minimum\<rparr>))"

definition fake_sync :: "fake_inner \<Rightarrow> fake_inner" where
  "fake_sync s = fake_record s CallSync"

definition fake_reboot :: "fake_inner \<Rightarrow> reboot_command \<Rightarrow> fake_inner \<times> (kernel_error, unit) result" where
  "fake_reboot s c =
     (let s = fake_record s (CallReboot c) in
      (s, case fk_reboot_error s of Some n \<Rightarrow> Err (KErrno n) | None \<Rightarrow> Ok ()))"

definition fake_kernel :: "fake_inner kernel_ops" where
  "fake_kernel =
     \<lparr>k_open_mount = fake_open_mount, k_fifreeze = fake_fifreeze, k_fithaw = fake_fithaw,
      k_fitrim = fake_fitrim, k_sync = fake_sync, k_reboot = fake_reboot\<rparr>"

definition script_freeze_error :: "path \<Rightarrow> errno \<Rightarrow> fake_inner \<Rightarrow> fake_inner" where
  "script_freeze_error p n s = s\<lparr>fk_freeze_errors := (fk_freeze_errors s)(p \<mapsto> n)\<rparr>"

definition script_thaw_error :: "path \<Rightarrow> errno \<Rightarrow> fake_inner \<Rightarrow> fake_inner" where
  "script_thaw_error p n s = s\<lparr>fk_thaw_errors := (fk_thaw_errors s)(p \<mapsto> n)\<rparr>"

definition script_thaw_successes :: "path \<Rightarrow> nat \<Rightarrow> fake_inner \<Rightarrow> fake_inner" where
  "script_thaw_successes p n s = s\<lparr>fk_thaw_successes := (fk_thaw_successes s)(p \<mapsto> n)\<rparr>"

definition script_open_error :: "path \<Rightarrow> errno \<Rightarrow> fake_inner \<Rightarrow> fake_inner" where
  "script_open_error p n s = s\<lparr>fk_open_errors := (fk_open_errors s)(p \<mapsto> n)\<rparr>"

definition script_mount_device :: "path \<Rightarrow> dev \<Rightarrow> fake_inner \<Rightarrow> fake_inner" where
  "script_mount_device p d s = s\<lparr>fk_devices := (fk_devices s)(p \<mapsto> d)\<rparr>"

definition track_freeze_depth :: "fake_inner \<Rightarrow> fake_inner" where
  "track_freeze_depth s = s\<lparr>fk_track_depth := True\<rparr>"

section \<open>The contracts\<close>

text \<open>
  What every implementation promises: a handle is for the path and device asked for; a failed open
  is never the filesystem's answer to an ioctl, and a failed ioctl always is.
\<close>

locale kernel_api =
  fixes K :: "'k kernel_ops"
  assumes open_handle: "snd (k_open_mount K k p d) = Ok m \<Longrightarrow> mn_mountpoint m = p \<and> mn_dev m = d"
    and open_no_answer: "snd (k_open_mount K k p d) = Err e \<Longrightarrow> \<not> is_ioctl_answer e"
    and freeze_answer: "snd (k_fifreeze K k m) = Err e \<Longrightarrow> is_ioctl_answer e"
    and thaw_answer: "snd (k_fithaw K k m) = Err e \<Longrightarrow> is_ioctl_answer e"
    and trim_answer: "snd (k_fitrim K k m n) = Err e \<Longrightarrow> is_ioctl_answer e"

text \<open>
  How freezes nest, in the states \<open>ok\<close>: a freeze adds one to the depth of the handle's device, a thaw
  takes one off, and the answers that end a drain (not frozen, not supported) mean depth zero.
\<close>

locale freeze_depth = kernel_api +
  fixes depth :: "'k \<Rightarrow> dev \<Rightarrow> nat" and ok :: "'k \<Rightarrow> bool"
  assumes ok_open: "ok k \<Longrightarrow> ok (fst (k_open_mount K k p d))"
    and ok_freeze: "ok k \<Longrightarrow> ok (fst (k_fifreeze K k m))"
    and ok_thaw: "ok k \<Longrightarrow> ok (fst (k_fithaw K k m))"
    and depth_open: "ok k \<Longrightarrow> depth (fst (k_open_mount K k p d)) = depth k"
    and depth_freeze: "ok k \<Longrightarrow> depth (fst (k_fifreeze K k m)) =
      (if is_ok (snd (k_fifreeze K k m))
       then (depth k)(mn_dev m := depth k (mn_dev m) + 1) else depth k)"
    and depth_thaw: "ok k \<Longrightarrow> depth (fst (k_fithaw K k m)) =
      (if is_ok (snd (k_fithaw K k m))
       then (depth k)(mn_dev m := depth k (mn_dev m) - 1) else depth k)"
    and thaw_frozen: "ok k \<Longrightarrow> is_ok (snd (k_fithaw K k m)) \<Longrightarrow> 0 < depth k (mn_dev m)"
    and thaw_end: "ok k \<Longrightarrow> snd (k_fithaw K k m) = Err e \<Longrightarrow> is_invalid e \<or> is_not_supported e \<Longrightarrow>
      depth k (mn_dev m) = 0"

section \<open>The implementations meet them\<close>

lemmas kerror_defs =
  is_ioctl_answer_def is_invalid_def is_not_supported_def is_permission_def is_busy_def
  kerror_errno_def is_open_failure_def is_wrong_filesystem_def

lemma map_err_simps [simp]: "map_err f (Ok x) = Ok x" "map_err f (Err e) = Err (f e)"
  by (simp_all add: map_err_def)

lemma map_err_Err_iff: "map_err f r = Err e \<longleftrightarrow> (\<exists>e'. r = Err e' \<and> e = f e')"
  by (auto simp: map_err_def split: sum.splits)

interpretation linux: kernel_api "linux_kernel os"
  by unfold_locales
    (auto simp: linux_kernel_def open_mount_def open_dir_def fifreeze_def fithaw_def fitrim_def
      opened_def mount_fd_def kerror_defs map_err_Err_iff Let_def
      split: sum.splits prod.splits option.splits if_splits)

interpretation fake: kernel_api fake_kernel
  by unfold_locales
    (auto simp: fake_kernel_def fake_open_mount_def fake_fifreeze_def fake_fithaw_def fake_fitrim_def
      unopened_def kerror_defs Let_def
      split: sum.splits prod.splits option.splits if_splits)

text \<open>The depth the fake tracks, and the scripts under which it is the kernel's.\<close>

definition fake_depth :: "fake_inner \<Rightarrow> dev \<Rightarrow> nat" where
  "fake_depth s d = (case fk_depths s d of None \<Rightarrow> 0 | Some n \<Rightarrow> n)"

definition fake_tracking :: "fake_inner \<Rightarrow> bool" where
  "fake_tracking s \<longleftrightarrow> fk_track_depth s \<and> fk_thaw_successes s = Map.empty \<and>
     (\<forall>n \<in> ran (fk_thaw_errors s). n \<notin> {EINVAL, EOPNOTSUPP, ENOTTY, ENOSYS})"

lemmas fake_op_defs =
  fake_kernel_def fake_open_mount_def fake_fifreeze_def fake_fithaw_def fake_record_def

interpretation fake: freeze_depth fake_kernel fake_depth fake_tracking
  by unfold_locales
    (auto simp: fake_op_defs fake_depth_def fake_tracking_def fun_eq_iff is_invalid_def
      is_not_supported_def Let_def split: option.splits if_splits intro: ranI)

end
