(* ===== verification/Marker.thy ===== *)
theory Marker
  imports Kernel
begin

text \<open>
  \<^verbatim>\<open>src/marker.rs\<close>: the recovery marker, a file in a directory pinned at startup. The system calls on
  the directory are the record \<open>dir_calls\<close> over a file system state \<open>'d\<close>; what \<^verbatim>\<open>openat(2)\<close> with
  \<^verbatim>\<open>O_CREAT | O_EXCL\<close>, \<^verbatim>\<open>unlinkat(2)\<close> and \<^verbatim>\<open>fstatat(2)\<close> document is \<open>posix_dir\<close>.

  Shown: a marker reported as created exists, was absent before and was synced; a marker reported as
  removed or absent does not exist; an existing marker is never overwritten.
\<close>

section \<open>Paths\<close>

text \<open>\<^verbatim>\<open>Path::file_name\<close> and \<^verbatim>\<open>Path::parent\<close>; a parent path is given by its components.\<close>

definition file_name :: "path \<Rightarrow> bytes option" where
  "file_name p =
     (case rev (components p) of Normal c # _ \<Rightarrow> Some c | _ \<Rightarrow> None)"

fun component_text :: "component \<Rightarrow> bytes" where
  "component_text RootDir = []"
| "component_text CurDir = ''.''"
| "component_text ParentDir = ''..''"
| "component_text (Normal c) = c"

definition path_of :: "component list \<Rightarrow> path" where
  "path_of cs = (if cs = [RootDir] then ''/'' else join (CHR ''/'') (map component_text cs))"

definition parent_of :: "path \<Rightarrow> path option" where
  "parent_of p =
     (case rev (components p) of
        [] \<Rightarrow> None
      | RootDir # _ \<Rightarrow> None
      | _ # cs \<Rightarrow> Some (path_of (rev cs)))"

section \<open>The marker\<close>

datatype marker_error =
    InvalidPath path
  | Directory path errno
  | AlreadyPresent path
  | Absent path
  | MarkerIo path string errno

definition marker_error_text :: "(errno \<Rightarrow> string) \<Rightarrow> marker_error \<Rightarrow> string" where
  "marker_error_text tx e =
     (case e of
        InvalidPath p \<Rightarrow> ''recovery marker path '' @ from_utf8_lossy p @ '' needs a directory and a file name''
      | Directory p n \<Rightarrow>
          ''cannot open the directory of recovery marker '' @ from_utf8_lossy p @ '': '' @ tx n
      | AlreadyPresent p \<Rightarrow> ''recovery marker '' @ from_utf8_lossy p @ '' already exists''
      | Absent p \<Rightarrow> ''recovery marker '' @ from_utf8_lossy p @ '' is absent''
      | MarkerIo p op n \<Rightarrow> ''recovery marker '' @ from_utf8_lossy p @ '': '' @ op @ '' failed: '' @ tx n)"

definition is_absent :: "marker_error \<Rightarrow> bool" where
  "is_absent e = (case e of Absent _ \<Rightarrow> True | _ \<Rightarrow> False)"

record marker =
  mk_dir :: fd
  mk_name :: path
  mk_path :: path
  mk_dev :: dev

record 'd dir_calls =
  dc_open_dir :: "'d \<Rightarrow> path \<Rightarrow> 'd \<times> (errno, fd) result"
  dc_fstat_dev :: "'d \<Rightarrow> fd \<Rightarrow> (errno, nat \<times> nat) result"
  dc_openat_excl :: "'d \<Rightarrow> fd \<Rightarrow> path \<Rightarrow> 'd \<times> (errno, fd) result"
  dc_fsync :: "'d \<Rightarrow> fd \<Rightarrow> 'd \<times> (errno, unit) result"
  dc_unlinkat :: "'d \<Rightarrow> fd \<Rightarrow> path \<Rightarrow> 'd \<times> (errno, unit) result"
  dc_fstatat_ok :: "'d \<Rightarrow> fd \<Rightarrow> path \<Rightarrow> bool"

definition marker_open :: "'d dir_calls \<Rightarrow> 'd \<Rightarrow> path \<Rightarrow> 'd \<times> (marker_error, marker) result" where
  "marker_open D d p =
     (case (parent_of p, file_name p) of
        (Some parent, Some name) \<Rightarrow>
          if parent = [] then (d, Err (InvalidPath p))
          else (let (d', r) = dc_open_dir D d parent in
            (d', case r of
               Err n \<Rightarrow> Err (Directory p n)
             | Ok dir \<Rightarrow> (case dc_fstat_dev D d' dir of
                   Err n \<Rightarrow> Err (Directory p n)
                 | Ok st \<Rightarrow> Ok \<lparr>mk_dir = dir, mk_name = name, mk_path = p, mk_dev = split_dev st\<rparr>)))
      | _ \<Rightarrow> (d, Err (InvalidPath p)))"

definition marker_create :: "'d dir_calls \<Rightarrow> 'd \<Rightarrow> marker \<Rightarrow> 'd \<times> (marker_error, unit) result" where
  "marker_create D d mk =
     (let (d1, r) = dc_openat_excl D d (mk_dir mk) (mk_name mk) in
      case r of
        Err n \<Rightarrow> (d1, Err (if n = EEXIST then AlreadyPresent (mk_path mk)
                           else MarkerIo (mk_path mk) ''open'' n))
      | Ok f \<Rightarrow> (let (d2, r2) = dc_fsync D d1 f in (d2, map_err (MarkerIo (mk_path mk) ''fsync'') r2)))"

definition marker_remove :: "'d dir_calls \<Rightarrow> 'd \<Rightarrow> marker \<Rightarrow> 'd \<times> (marker_error, unit) result" where
  "marker_remove D d mk =
     (let (d', r) = dc_unlinkat D d (mk_dir mk) (mk_name mk) in
      (d', map_err (\<lambda>n. if n = ENOENT then Absent (mk_path mk) else MarkerIo (mk_path mk) ''unlink'' n) r))"

definition marker_exists :: "'d dir_calls \<Rightarrow> 'd \<Rightarrow> marker \<Rightarrow> bool" where
  "marker_exists D d mk = dc_fstatat_ok D d (mk_dir mk) (mk_name mk)"

section \<open>What the system calls document\<close>

definition posix_dir :: "'d dir_calls \<Rightarrow> bool" where
  "posix_dir D \<longleftrightarrow>
     (\<forall>d f n. is_ok (snd (dc_openat_excl D d f n)) \<longrightarrow>
        \<not> dc_fstatat_ok D d f n \<and> dc_fstatat_ok D (fst (dc_openat_excl D d f n)) f n) \<and>
     (\<forall>d f n e. snd (dc_openat_excl D d f n) = Err e \<longrightarrow>
        dc_fstatat_ok D (fst (dc_openat_excl D d f n)) f n = dc_fstatat_ok D d f n) \<and>
     (\<forall>d f g n. dc_fstatat_ok D (fst (dc_fsync D d g)) f n = dc_fstatat_ok D d f n) \<and>
     (\<forall>d f n. is_ok (snd (dc_unlinkat D d f n)) \<or> snd (dc_unlinkat D d f n) = Err ENOENT \<longrightarrow>
        \<not> dc_fstatat_ok D (fst (dc_unlinkat D d f n)) f n) \<and>
     (\<forall>d f n e. snd (dc_unlinkat D d f n) = Err e \<longrightarrow> e \<noteq> ENOENT \<longrightarrow>
        dc_fstatat_ok D (fst (dc_unlinkat D d f n)) f n = dc_fstatat_ok D d f n)"

text \<open>A directory that keeps its promises: the set of names in the pinned directories.\<close>

definition plain_dir :: "(fd \<times> path) set dir_calls" where
  "plain_dir =
     \<lparr>dc_open_dir = (\<lambda>d p. (d, Ok 3)),
      dc_fstat_dev = (\<lambda>d f. Ok (0, 25)),
      dc_openat_excl = (\<lambda>d f n. if (f, n) \<in> d then (d, Err EEXIST) else (insert (f, n) d, Ok 4)),
      dc_fsync = (\<lambda>d f. (d, Ok ())),
      dc_unlinkat = (\<lambda>d f n. if (f, n) \<in> d then (d - {(f, n)}, Ok ()) else (d, Err ENOENT)),
      dc_fstatat_ok = (\<lambda>d f n. (f, n) \<in> d)\<rparr>"

section \<open>Lemmas\<close>

lemma posix_plain_dir: "posix_dir plain_dir"
  by (simp add: posix_dir_def plain_dir_def split: if_splits)

text \<open>The removal counts as done when the marker was removed or found absent.\<close>

definition removed :: "(marker_error, unit) result \<Rightarrow> bool" where
  "removed r = (case r of Ok _ \<Rightarrow> True | Err e \<Rightarrow> is_absent e)"

lemma posix_unlink:
  assumes "posix_dir D" "dc_unlinkat D d f n = (d', r)"
  shows "r = Ok () \<or> r = Err ENOENT \<Longrightarrow> \<not> dc_fstatat_ok D d' f n"
    and "r = Err e \<Longrightarrow> e \<noteq> ENOENT \<Longrightarrow> dc_fstatat_ok D d' f n = dc_fstatat_ok D d f n"
  using assms by (auto simp: posix_dir_def is_ok_def) (metis fst_conv snd_conv sum.case)+

lemma posix_create:
  assumes "posix_dir D" "dc_openat_excl D d f n = (d', Ok g)"
  shows "\<not> dc_fstatat_ok D d f n \<and> dc_fstatat_ok D d' f n"
  using assms unfolding posix_dir_def by (metis fst_conv is_ok_simps(1) snd_conv)

lemma posix_fsync: "posix_dir D \<Longrightarrow> dc_fstatat_ok D (fst (dc_fsync D d g)) f n = dc_fstatat_ok D d f n"
  unfolding posix_dir_def by blast

lemma removed_gone:
  assumes "posix_dir D" "removed (snd (marker_remove D d mk))"
  shows "\<not> marker_exists D (fst (marker_remove D d mk)) mk"
proof -
  obtain d' r where eq: "dc_unlinkat D d (mk_dir mk) (mk_name mk) = (d', r)" by fastforce
  have "r = Ok () \<or> r = Err ENOENT"
    using assms(2) eq
    by (cases r) (auto simp: marker_remove_def removed_def is_absent_def split: if_splits)
  then show ?thesis
    using posix_unlink(1) [OF assms(1) eq] eq by (simp add: marker_remove_def marker_exists_def)
qed

lemma not_removed_stays:
  assumes "posix_dir D" "\<not> removed (snd (marker_remove D d mk))"
  shows "marker_exists D (fst (marker_remove D d mk)) mk = marker_exists D d mk"
proof -
  obtain d' r where eq: "dc_unlinkat D d (mk_dir mk) (mk_name mk) = (d', r)" by fastforce
  obtain e where "r = Err e" "e \<noteq> ENOENT"
    using assms(2) eq
    by (cases r) (auto simp: marker_remove_def removed_def is_absent_def split: if_splits)
  then show ?thesis
    using posix_unlink(2) [OF assms(1) eq] eq by (simp add: marker_remove_def marker_exists_def)
qed

lemma created_exists:
  assumes "posix_dir D" "is_ok (snd (marker_create D d mk))"
  shows "\<not> marker_exists D d mk \<and> marker_exists D (fst (marker_create D d mk)) mk"
proof -
  obtain d' r where eq: "dc_openat_excl D d (mk_dir mk) (mk_name mk) = (d', r)" by fastforce
  obtain g where g: "r = Ok g"
    using assms(2) eq by (cases r) (auto simp: marker_create_def)
  have "fst (marker_create D d mk) = fst (dc_fsync D d' g)"
    using eq g by (simp add: marker_create_def split: prod.splits)
  then show ?thesis
    using posix_create [OF assms(1)] posix_fsync [OF assms(1)] eq g by (simp add: marker_exists_def)
qed

lemma create_keeps:
  assumes "posix_dir D" "marker_exists D d mk"
  shows "marker_exists D (fst (marker_create D d mk)) mk"
proof -
  obtain d' r where eq: "dc_openat_excl D d (mk_dir mk) (mk_name mk) = (d', r)" by fastforce
  have "dc_fstatat_ok D d' (mk_dir mk) (mk_name mk)"
    using posix_create [OF assms(1)] assms eq unfolding posix_dir_def marker_exists_def
    by (cases r) (auto, metis fst_conv snd_conv)
  then show ?thesis
    using eq posix_fsync [OF assms(1)]
    by (auto simp: marker_create_def marker_exists_def split: sum.splits prod.splits) (metis fst_conv)
qed

end
