(* ===== verification/Drain.thy ===== *)
theory Drain
  imports Marker
begin

text \<open>
  The blocking half of \<^verbatim>\<open>src/handlers/fsfreeze.rs\<close>: opening a target, draining one handle with
  repeated \<^verbatim>\<open>FITHAW\<close>, draining the handles a freeze published, the rollback of a failed freeze and
  the thaw walk, with the failures they report. The kernel state \<open>'k\<close> and the file system state \<open>'d\<close>
  are threaded through; \<open>tx\<close> gives the errno texts.

  Shown in the contract \<open>freeze_depth\<close>, and from there for the kernel double: a drain that counts as
  complete leaves the filesystem unfrozen; every held handle is drained or kept; the marker is
  removed only after every drain completed.
\<close>

section \<open>Failures\<close>

datatype freeze_stop = StopIoctl kernel_error | StopUnreachable string

definition freeze_stop_text :: "(errno \<Rightarrow> string) \<Rightarrow> freeze_stop \<Rightarrow> string" where
  "freeze_stop_text tx s =
     (case s of
        StopIoctl e \<Rightarrow> kernel_error_text tx e
      | StopUnreachable attempts \<Rightarrow>
          ''no mount point leads to it ('' @ attempts @ ''); no FIFREEZE issued'')"

datatype abort_cause = Deadline | ThawRequested | WorkerLost

definition abort_cause_describe :: "abort_cause \<Rightarrow> nat \<Rightarrow> string" where
  "abort_cause_describe c secs =
     (case c of
        Deadline \<Rightarrow> ''operation deadline of '' @ show_nat secs @ '' s expired''
      | ThawRequested \<Rightarrow> ''thaw requested''
      | WorkerLost \<Rightarrow> ''freeze worker lost'')"

definition PREPARING :: string where
  "PREPARING = ''(preparing)''"

datatype freeze_failure =
    FfPlan string
  | FfMarker marker_error
  | FfHard string freeze_stop
  | FfRollbackIncomplete string freeze_stop string string
  | FfMarkerRetained string freeze_stop marker_error
  | FfTask string
  | FfNothingFrozenMarkerRetained marker_error
  | FfAborted abort_cause nat nat "string option"

definition freeze_failure_text :: "(errno \<Rightarrow> string) \<Rightarrow> freeze_failure \<Rightarrow> string" where
  "freeze_failure_text tx f =
     (case f of
        FfPlan m \<Rightarrow> ''cannot build freeze plan: '' @ m
      | FfMarker e \<Rightarrow> ''cannot create recovery marker: '' @ marker_error_text tx e
      | FfHard mp cause \<Rightarrow> ''freeze of '' @ mp @ '' failed: '' @ freeze_stop_text tx cause @ ''; rolled back''
      | FfRollbackIncomplete failed cause mp reason \<Rightarrow>
          ''freeze of '' @ failed @ '' failed: '' @ freeze_stop_text tx cause @ ''; rollback of '' @ mp @
          '' incomplete ('' @ reason @ ''); marker retained''
      | FfMarkerRetained failed cause e \<Rightarrow>
          ''freeze of '' @ failed @ '' failed: '' @ freeze_stop_text tx cause @
          ''; rolled back but cannot remove recovery marker: '' @ marker_error_text tx e
      | FfTask m \<Rightarrow> ''freeze task failed: '' @ m
      | FfNothingFrozenMarkerRetained e \<Rightarrow>
          ''nothing was frozen but cannot remove recovery marker: '' @ marker_error_text tx e @
          ''; marker retained''
      | FfAborted cause secs frozen infl \<Rightarrow>
          ''freeze aborted: '' @ abort_cause_describe cause secs @
          (case infl of
             None \<Rightarrow> []
           | Some mp \<Rightarrow> if mp = PREPARING then '' while preparing''
                       else '' with FIFREEZE of '' @ mp @ '' in flight'') @
          ''; '' @ show_nat frozen @ '' target(s) frozen so far are being thawed; marker retained'')"

definition retains_frozen_state :: "freeze_failure \<Rightarrow> bool" where
  "retains_frozen_state f =
     (case f of
        FfRollbackIncomplete _ _ _ _ \<Rightarrow> True
      | FfMarkerRetained _ _ _ \<Rightarrow> True
      | FfNothingFrozenMarkerRetained _ \<Rightarrow> True
      | _ \<Rightarrow> False)"

datatype thaw_failure =
    TfPlan string
  | TfIncomplete string string
  | TfMarker marker_error
  | TfTask string

definition thaw_failure_text :: "(errno \<Rightarrow> string) \<Rightarrow> thaw_failure \<Rightarrow> string" where
  "thaw_failure_text tx f =
     (case f of
        TfPlan m \<Rightarrow> ''cannot build thaw plan: '' @ m
      | TfIncomplete mp reason \<Rightarrow> ''thaw of '' @ mp @ '' incomplete: '' @ reason @ ''; marker retained''
      | TfMarker e \<Rightarrow> ''drain complete but cannot remove recovery marker: '' @ marker_error_text tx e
      | TfTask m \<Rightarrow> ''thaw task failed: '' @ m)"

section \<open>Plan and targets\<close>

text \<open>\<^verbatim>\<open>build_plan\<close>; \<open>mk\<close> is the \<^verbatim>\<open>From<String>\<close> of the failure type it is used at.\<close>

definition build_plan ::
  "(string \<Rightarrow> 'e) \<Rightarrow> (error, mount_entry list) result \<Rightarrow> path list option \<Rightarrow> ('e, freeze_plan) result" where
  "build_plan mk entries restrict =
     (case entries of
        Err e \<Rightarrow> Err (mk (error_text e))
      | Ok es \<Rightarrow> Ok (case restrict of
            Some names \<Rightarrow> restrict_to (build es) names
          | None \<Rightarrow> build es))"

fun join_attempts :: "string list \<Rightarrow> string" where
  "join_attempts [] = []"
| "join_attempts [a] = a"
| "join_attempts (a # b # as) = a @ ''; '' @ join_attempts (b # as)"

fun open_first :: "(errno \<Rightarrow> string) \<Rightarrow> 'k kernel_ops \<Rightarrow> dev \<Rightarrow> path list \<Rightarrow> string list \<Rightarrow> 'k
    \<Rightarrow> 'k \<times> (string, mount) result" where
  "open_first tx K d [] attempts k = (k, Err (join_attempts attempts))"
| "open_first tx K d (p # ps) attempts k =
     (let (k', r) = k_open_mount K k p d in
      case r of
        Ok m \<Rightarrow> (k', Ok m)
      | Err e \<Rightarrow>
          open_first tx K d ps (attempts @ [from_utf8_lossy p @ '': '' @ kernel_error_text tx e]) k')"

definition open_target ::
  "(errno \<Rightarrow> string) \<Rightarrow> 'k kernel_ops \<Rightarrow> 'k \<Rightarrow> target \<Rightarrow> 'k \<times> (string, mount) result" where
  "open_target tx K k t =
     (case tg_requested t of
        Some p \<Rightarrow>
          (let (k', r) = k_open_mount K k p (tg_dev t) in
           (k', map_err (\<lambda>e. from_utf8_lossy p @ '': '' @ kernel_error_text tx e) r))
      | None \<Rightarrow> open_first tx K (tg_dev t) (tg_mountpoints t) [] k)"

section \<open>Draining\<close>

definition MAX_THAW_ITERATIONS :: nat where
  "MAX_THAW_ITERATIONS = 1024"

record drained =
  dr_successes :: nat
  dr_first_error :: "kernel_error option"
  dr_capped :: bool

fun drain_loop :: "'k kernel_ops \<Rightarrow> mount \<Rightarrow> nat \<Rightarrow> nat \<Rightarrow> 'k \<Rightarrow> 'k \<times> drained" where
  "drain_loop K m 0 successes k =
     (k, \<lparr>dr_successes = successes, dr_first_error = None, dr_capped = True\<rparr>)"
| "drain_loop K m (Suc n) successes k =
     (let (k', r) = k_fithaw K k m in
      case r of
        Ok _ \<Rightarrow> drain_loop K m n (successes + 1) k'
      | Err e \<Rightarrow> (k', \<lparr>dr_successes = successes, dr_first_error = Some e, dr_capped = False\<rparr>))"

definition drain :: "'k kernel_ops \<Rightarrow> 'k \<Rightarrow> mount \<Rightarrow> 'k \<times> drained" where
  "drain K k m = drain_loop K m MAX_THAW_ITERATIONS 0 k"

definition incomplete :: "(errno \<Rightarrow> string) \<Rightarrow> drained \<Rightarrow> string option" where
  "incomplete tx dr =
     (if dr_capped dr
      then Some (''drain did not converge after '' @ show_nat MAX_THAW_ITERATIONS @
                 '' FITHAW calls (still succeeding)'')
      else case dr_first_error dr of
        None \<Rightarrow> None
      | Some e \<Rightarrow>
          if \<not> is_ioctl_answer e then Some (kernel_error_text tx e @ '': no FITHAW issued'')
          else if is_invalid e \<or> is_not_supported e then None
          else Some
            (if is_permission e \<and> dr_successes dr = 0
             then ''first FITHAW denied: '' @ kernel_error_text tx e
             else if is_permission e
             then ''FITHAW denied after '' @ show_nat (dr_successes dr) @ '' successes: '' @ kernel_error_text tx e
             else ''FITHAW failed: '' @ kernel_error_text tx e @ ''; the filesystem may still be frozen''))"

text \<open>One round of the loop of \<^verbatim>\<open>drain_held\<close>; the state is the kernel and the three results.\<close>

type_synonym 'k held_state = "'k \<times> nat \<times> mount list \<times> (string \<times> string) option"

definition drain_held_step ::
  "(errno \<Rightarrow> string) \<Rightarrow> 'k kernel_ops \<Rightarrow> mount \<Rightarrow> 'k held_state \<Rightarrow> 'k held_state" where
  "drain_held_step tx K m = (\<lambda>(k, recovered, keep, inc).
     let (k', dr) = drain K k m;
         recovered = (if dr_successes dr > 0 then recovered + 1 else recovered)
     in case incomplete tx dr of
          None \<Rightarrow> (k', recovered, keep, inc)
        | Some reason \<Rightarrow>
            (k', recovered, keep @ [m],
             get_or_insert inc (from_utf8_lossy (mn_mountpoint m), reason)))"

definition drain_held :: "(errno \<Rightarrow> string) \<Rightarrow> 'k kernel_ops \<Rightarrow> 'k \<Rightarrow> mount list \<Rightarrow> 'k held_state" where
  "drain_held tx K k held = fold (drain_held_step tx K) (rev held) (k, 0, [], None)"

definition rollback :: "(errno \<Rightarrow> string) \<Rightarrow> 'k kernel_ops \<Rightarrow> 'd dir_calls \<Rightarrow> marker \<Rightarrow> 'k \<Rightarrow> 'd
    \<Rightarrow> mount list \<Rightarrow> path \<Rightarrow> freeze_stop \<Rightarrow> 'k \<times> 'd \<times> mount list \<times> freeze_failure" where
  "rollback tx K D mk k d held failed cause =
     (let (k', _, keep, inc) = drain_held tx K k held;
          failed = from_utf8_lossy failed
      in case inc of
           Some (mp, reason) \<Rightarrow> (k', d, keep, FfRollbackIncomplete failed cause mp reason)
         | None \<Rightarrow>
             (let (d', r) = marker_remove D d mk in
              (k', d', keep,
               case r of
                 Ok _ \<Rightarrow> FfHard failed cause
               | Err e \<Rightarrow> if is_absent e then FfHard failed cause else FfMarkerRetained failed cause e)))"

section \<open>The thaw walk\<close>

record thaw_state =
  ts_thawed :: nat
  ts_unrecoverable :: "thaw_failure option"
  ts_keep :: "mount list"

definition thaw_state_default :: thaw_state where
  "thaw_state_default = \<lparr>ts_thawed = 0, ts_unrecoverable = None, ts_keep = []\<rparr>"

definition thaw_state_drain ::
  "(errno \<Rightarrow> string) \<Rightarrow> 'k kernel_ops \<Rightarrow> mount \<Rightarrow> 'k \<times> thaw_state \<Rightarrow> 'k \<times> thaw_state" where
  "thaw_state_drain tx K m = (\<lambda>(k, st).
     let (k', dr) = drain K k m;
         st = (if dr_successes dr > 0 then st\<lparr>ts_thawed := ts_thawed st + 1\<rparr> else st)
     in case incomplete tx dr of
          None \<Rightarrow> (k', st)
        | Some reason \<Rightarrow>
            (k', st\<lparr>ts_unrecoverable := get_or_insert (ts_unrecoverable st)
                      (TfIncomplete (from_utf8_lossy (mn_mountpoint m)) reason),
                    ts_keep := ts_keep st @ [m]\<rparr>))"

text \<open>\<^verbatim>\<open>position\<close> and \<^verbatim>\<open>remove\<close>: the first handle on a device and the others.\<close>

fun take_dev :: "dev \<Rightarrow> mount list \<Rightarrow> (mount \<times> mount list) option" where
  "take_dev d [] = None"
| "take_dev d (m # ms) =
     (if mn_dev m = d then Some (m, ms)
      else map_option (\<lambda>(x, rest). (x, m # rest)) (take_dev d ms))"

fun thaw_targets :: "(errno \<Rightarrow> string) \<Rightarrow> 'k kernel_ops \<Rightarrow> target list \<Rightarrow> mount list
    \<Rightarrow> 'k \<times> thaw_state \<Rightarrow> ('k \<times> thaw_state) \<times> mount list" where
  "thaw_targets tx K [] retained s = (s, retained)"
| "thaw_targets tx K (t # ts) retained (k, st) =
     (case take_dev (tg_dev t) retained of
        Some (m, rest) \<Rightarrow> thaw_targets tx K ts rest (thaw_state_drain tx K m (k, st))
      | None \<Rightarrow>
          (let (k', r) = open_target tx K k t in
           case r of
             Ok m \<Rightarrow> thaw_targets tx K ts retained (thaw_state_drain tx K m (k', st))
           | Err attempts \<Rightarrow>
               thaw_targets tx K ts retained
                 (k', st\<lparr>ts_unrecoverable := get_or_insert (ts_unrecoverable st)
                   (TfIncomplete (from_utf8_lossy (tg_mountpoint t))
                     (''no mount point leads to '' @ show_nat (fst (tg_dev t)) @ '':'' @
                      show_nat (snd (tg_dev t)) @ '' ('' @ attempts @ ''); no FITHAW issued''))\<rparr>)))"

definition thaw_blocking :: "(errno \<Rightarrow> string) \<Rightarrow> 'k kernel_ops \<Rightarrow> 'd dir_calls \<Rightarrow> marker
    \<Rightarrow> (thaw_failure, freeze_plan) result option \<Rightarrow> 'k \<Rightarrow> 'd \<Rightarrow> mount list
    \<Rightarrow> 'k \<times> 'd \<times> mount list \<times> (thaw_failure, nat) result" where
  "thaw_blocking tx K D mk plan k d held =
     (let ((s1, retained), discovery) =
            (case plan of
               None \<Rightarrow> (((k, thaw_state_default), held), None)
             | Some (Ok p) \<Rightarrow> (thaw_targets tx K (thaw_order p) held (k, thaw_state_default), None)
             | Some (Err f) \<Rightarrow> (((k, thaw_state_default), held), Some f));
          (k', st) = fold (thaw_state_drain tx K) (rev retained) s1
      in case ts_unrecoverable st of
           Some f \<Rightarrow> (k', d, ts_keep st, Err f)
         | None \<Rightarrow> (case discovery of
               Some f \<Rightarrow> (k', d, ts_keep st, Err f)
             | None \<Rightarrow>
                 (let (d', r) = marker_remove D d mk in
                  (k', d', ts_keep st,
                   case r of
                     Ok _ \<Rightarrow> Ok (ts_thawed st)
                   | Err e \<Rightarrow> if is_absent e then Ok (ts_thawed st) else Err (TfMarker e)))))"

section \<open>What a drain achieves\<close>

text \<open>A handle is settled in a kernel state when it is kept for later or its filesystem is thawed.\<close>

definition settled :: "('k \<Rightarrow> dev \<Rightarrow> nat) \<Rightarrow> 'k \<Rightarrow> mount list \<Rightarrow> mount \<Rightarrow> bool" where
  "settled depth k keep m \<longleftrightarrow> m \<in> set keep \<or> depth k (mn_dev m) = 0"

lemma settled_mono:
  "settled depth k keep m \<Longrightarrow> depth k' \<le> depth k \<Longrightarrow> set keep \<subseteq> set keep' \<Longrightarrow>
   settled depth k' keep' m"
  unfolding settled_def by (metis le_funD le_zero_eq subsetD)

lemma drain_loop_outcome:
  "drain_loop K m n s k = (k', dr) \<Longrightarrow>
   dr_capped dr \<and> dr_first_error dr = None \<or> \<not> dr_capped dr \<and> dr_first_error dr \<noteq> None"
  by (induction n arbitrary: s k) (auto split: prod.splits sum.splits)

text \<open>An equal form for evaluation: the cap counted in binary.\<close>

function drain_count :: "'k kernel_ops \<Rightarrow> mount \<Rightarrow> int \<Rightarrow> nat \<Rightarrow> 'k \<Rightarrow> 'k \<times> drained" where
  "drain_count K m n successes k =
     (if n \<le> 0 then (k, \<lparr>dr_successes = successes, dr_first_error = None, dr_capped = True\<rparr>)
      else if is_ok (snd (k_fithaw K k m))
      then drain_count K m (n - 1) (successes + 1) (fst (k_fithaw K k m))
      else (fst (k_fithaw K k m),
            \<lparr>dr_successes = successes, dr_first_error = Some (projl (snd (k_fithaw K k m))), dr_capped = False\<rparr>))"
  by pat_completeness auto
termination by (relation "measure (\<lambda>(_, _, n, _). nat n)") auto

declare drain_count.simps [simp del]

lemma drain_count_eq: "drain_count K m (int n) s k = drain_loop K m n s k"
  by (induction n arbitrary: s k) (auto simp: drain_count.simps is_ok_def split: prod.splits sum.splits)

lemma drain_code [code]: "drain K k m = drain_count K m 1024 0 k"
  using drain_count_eq [of K m 1024 0 k] by (simp add: drain_def MAX_THAW_ITERATIONS_def)

lemma drain_held_step_eq:
  "drain K k m = (k1, dr) \<Longrightarrow> drain_held_step tx K m (k, rc, keep, inc) =
     (case incomplete tx dr of
        None \<Rightarrow> (k1, if dr_successes dr > 0 then rc + 1 else rc, keep, inc)
      | Some reason \<Rightarrow> (k1, if dr_successes dr > 0 then rc + 1 else rc, keep @ [m],
          get_or_insert inc (from_utf8_lossy (mn_mountpoint m), reason)))"
  by (simp add: drain_held_step_def Let_def)

lemma thaw_state_drain_eq:
  "drain K k m = (k1, dr) \<Longrightarrow> thaw_state_drain tx K m (k, st) =
     (let st = (if dr_successes dr > 0 then st\<lparr>ts_thawed := ts_thawed st + 1\<rparr> else st) in
      case incomplete tx dr of
        None \<Rightarrow> (k1, st)
      | Some reason \<Rightarrow>
          (k1, st\<lparr>ts_unrecoverable := get_or_insert (ts_unrecoverable st)
                    (TfIncomplete (from_utf8_lossy (mn_mountpoint m)) reason),
                  ts_keep := ts_keep st @ [m]\<rparr>))"
  by (simp add: thaw_state_drain_def Let_def)

text \<open>A thaw records a failure whenever it keeps a handle.\<close>

definition thaw_state_ok :: "thaw_state \<Rightarrow> bool" where
  "thaw_state_ok st \<longleftrightarrow> (ts_unrecoverable st = None \<longrightarrow> ts_keep st = [])"

lemma take_dev_Some:
  "take_dev d ms = Some (m, rest) \<Longrightarrow> mn_dev m = d \<and> set ms = insert m (set rest)"
  by (induction ms arbitrary: m rest) (auto split: if_splits)

context freeze_depth
begin

lemma drain_loop_depth:
  assumes "ok k" "drain_loop K m n s k = (k', dr)"
  shows "ok k' \<and> depth k' = (depth k)(mn_dev m := depth k' (mn_dev m)) \<and>
    depth k (mn_dev m) = depth k' (mn_dev m) + (dr_successes dr - s) \<and> s \<le> dr_successes dr \<and>
    (incomplete tx dr = None \<longrightarrow> depth k' (mn_dev m) = 0)"
  using assms
proof (induction n arbitrary: s k)
  case 0
  then show ?case by (auto simp: incomplete_def)
next
  case (Suc n)
  obtain k1 r where eq: "k_fithaw K k m = (k1, r)" by fastforce
  have ok1: "ok k1" using ok_thaw [OF Suc.prems(1), of m] eq by simp
  show ?case
  proof (cases r)
    case (Inl e)
    then have "k' = k1" "dr = \<lparr>dr_successes = s, dr_first_error = Some e, dr_capped = False\<rparr>"
      using Suc.prems(2) eq by auto
    moreover have "depth k1 = depth k" using depth_thaw [OF Suc.prems(1), of m] eq Inl by simp
    moreover have "is_ioctl_answer e" using thaw_answer [of k m e] eq Inl by simp
    ultimately show ?thesis
      using ok1 thaw_end [OF Suc.prems(1), of m e] eq Inl
      by (auto simp: incomplete_def split: if_splits)
  next
    case (Inr u)
    then have rec: "drain_loop K m n (s + 1) k1 = (k', dr)" using Suc.prems(2) eq by simp
    have d1: "depth k1 = (depth k)(mn_dev m := depth k (mn_dev m) - 1)"
      using depth_thaw [OF Suc.prems(1), of m] eq Inr by simp
    have "0 < depth k (mn_dev m)" using thaw_frozen [OF Suc.prems(1), of m] eq Inr by simp
    with Suc.IH [OF ok1 rec] d1 show ?thesis by (auto simp: fun_eq_iff)
  qed
qed

lemma drain_depth:
  assumes "ok k" "drain K k m = (k', dr)"
  shows "ok k'" "depth k' \<le> depth k" "incomplete tx dr = None \<Longrightarrow> depth k' (mn_dev m) = 0"
    and "dr_successes dr = depth k (mn_dev m) - depth k' (mn_dev m)"
proof -
  from drain_loop_depth [OF assms(1), of m MAX_THAW_ITERATIONS 0 k' dr tx] assms(2)
  have *: "ok k' \<and> depth k' = (depth k)(mn_dev m := depth k' (mn_dev m)) \<and>
    depth k (mn_dev m) = depth k' (mn_dev m) + dr_successes dr \<and>
    (incomplete tx dr = None \<longrightarrow> depth k' (mn_dev m) = 0)" by (simp add: drain_def)
  show "ok k'" using * by blast
  show "incomplete tx dr = None \<Longrightarrow> depth k' (mn_dev m) = 0" using * by blast
  show "dr_successes dr = depth k (mn_dev m) - depth k' (mn_dev m)" using * by linarith
  show "depth k' \<le> depth k"
  proof (rule le_funI)
    fix d
    show "depth k' d \<le> depth k d" using * by (cases "d = mn_dev m") (auto, metis fun_upd_other order_refl)
  qed
qed

lemma drain_held_fold:
  assumes "ok k" "fold (drain_held_step tx K) ms (k, rc, keep, inc) = (k', rc', keep', inc')"
  shows "ok k' \<and> depth k' \<le> depth k \<and> set keep \<subseteq> set keep' \<and> set keep' \<subseteq> set keep \<union> set ms \<and>
    (\<forall>m \<in> set ms. settled depth k' keep' m) \<and> (inc' = None \<longrightarrow> inc = None \<and> keep' = keep)"
  using assms
proof (induction ms arbitrary: k rc keep inc)
  case Nil
  then show ?case by simp
next
  case (Cons m ms)
  obtain k1 dr where dr: "drain K k m = (k1, dr)" by fastforce
  note d = drain_depth [OF Cons.prems(1) dr]
  define rc1 where "rc1 = (if dr_successes dr > 0 then rc + 1 else rc)"
  show ?case
  proof (cases "incomplete tx dr")
    case None
    then have "fold (drain_held_step tx K) ms (k1, rc1, keep, inc) = (k', rc', keep', inc')"
      using Cons.prems(2) drain_held_step_eq [OF dr] by (simp add: rc1_def)
    note IH = Cons.IH [OF d(1) this]
    have "settled depth k' keep' m"
      using IH d(3) [OF None] by (auto simp: settled_def dest: le_funD [of _ _ "mn_dev m"])
    with IH show ?thesis using d(2) by (auto intro: order_trans)
  next
    case (Some reason)
    then have "fold (drain_held_step tx K) ms (k1, rc1, keep @ [m],
        get_or_insert inc (from_utf8_lossy (mn_mountpoint m), reason)) = (k', rc', keep', inc')"
      using Cons.prems(2) drain_held_step_eq [OF dr] by (simp add: rc1_def)
    from Cons.IH [OF d(1) this] show ?thesis
      using d(2) by (auto simp: settled_def intro: order_trans)
  qed
qed

text \<open>Draining one handle, as the thaw walk records it.\<close>

lemma thaw_state_drain_depth:
  assumes "ok k" "thaw_state_drain tx K m (k, st) = (k', st')"
  shows "ok k' \<and> depth k' \<le> depth k \<and> set (ts_keep st) \<subseteq> set (ts_keep st') \<and>
    set (ts_keep st') \<subseteq> insert m (set (ts_keep st)) \<and> settled depth k' (ts_keep st') m \<and>
    (ts_unrecoverable st' = None \<longrightarrow> ts_unrecoverable st = None \<and> ts_keep st' = ts_keep st)"
proof -
  obtain k1 dr where dr: "drain K k m = (k1, dr)" by fastforce
  note d = drain_depth [OF assms(1) dr]
  show ?thesis
    using assms(2) thaw_state_drain_eq [OF dr, of tx st] d(1,2) d(3) [of tx]
    by (auto simp: settled_def Let_def split: option.splits if_splits)
qed

lemma thaw_fold_depth:
  assumes "ok k" "fold (thaw_state_drain tx K) ms (k, st) = (k', st')"
  shows "ok k' \<and> depth k' \<le> depth k \<and> set (ts_keep st) \<subseteq> set (ts_keep st') \<and>
    set (ts_keep st') \<subseteq> set (ts_keep st) \<union> set ms \<and>
    (\<forall>m \<in> set ms. settled depth k' (ts_keep st') m) \<and>
    (ts_unrecoverable st' = None \<longrightarrow> ts_unrecoverable st = None \<and> ts_keep st' = ts_keep st)"
  using assms
proof (induction ms arbitrary: k st)
  case Nil
  then show ?case by simp
next
  case (Cons m ms)
  obtain k1 st1 where s1: "thaw_state_drain tx K m (k, st) = (k1, st1)" by fastforce
  note one = thaw_state_drain_depth [OF Cons.prems(1) s1]
  have rest: "fold (thaw_state_drain tx K) ms (k1, st1) = (k', st')" using Cons.prems(2) s1 by simp
  from one have "ok k1" by blast
  note IH = Cons.IH [OF this rest]
  have "settled depth k' (ts_keep st') m"
    using one IH settled_mono [of depth k1 "ts_keep st1" m k' "ts_keep st'"] by blast
  with one IH show ?case by (auto intro: order_trans)
qed

lemma open_first_depth:
  assumes "ok k" "open_first tx K d ps attempts k = (k', r)"
  shows "ok k' \<and> depth k' = depth k \<and> (\<forall>m. r = Ok m \<longrightarrow> mn_dev m = d)"
  using assms
proof (induction ps arbitrary: attempts k)
  case Nil
  then show ?case by auto
next
  case (Cons p ps)
  obtain k1 r1 where eq: "k_open_mount K k p d = (k1, r1)" by fastforce
  have "ok k1" "depth k1 = depth k"
    using ok_open [OF Cons.prems(1), of p d] depth_open [OF Cons.prems(1), of p d] eq by auto
  then show ?case
    using Cons.IH [of k1] Cons.prems(2) eq open_handle [of k p d] by (cases r1) auto
qed

lemma open_target_depth:
  assumes "ok k" "open_target tx K k t = (k', r)"
  shows "ok k' \<and> depth k' = depth k \<and> (\<forall>m. r = Ok m \<longrightarrow> mn_dev m = tg_dev t)"
proof (cases "tg_requested t")
  case None
  then show ?thesis using assms open_first_depth by (fastforce simp: open_target_def)
next
  case (Some p)
  obtain k1 r1 where eq: "k_open_mount K k p (tg_dev t) = (k1, r1)" by fastforce
  then show ?thesis
    using Some assms ok_open [OF assms(1), of p "tg_dev t"] depth_open [OF assms(1), of p "tg_dev t"]
      open_handle [of k p "tg_dev t"]
    by (cases r1) (auto simp: open_target_def)
qed

text \<open>The walk over the planned targets: each is thawed, or the failure is recorded.\<close>

lemma thaw_targets_depth:
  assumes "ok k" "thaw_targets tx K ts retained (k, st) = ((k', st'), rest)"
  shows "ok k' \<and> depth k' \<le> depth k \<and> set (ts_keep st) \<subseteq> set (ts_keep st') \<and>
    (\<forall>m \<in> set retained. m \<in> set rest \<or> settled depth k' (ts_keep st') m) \<and> set rest \<subseteq> set retained \<and>
    (ts_unrecoverable st' = None \<longrightarrow> ts_unrecoverable st = None \<and> ts_keep st' = ts_keep st \<and>
       (ts_keep st = [] \<longrightarrow> (\<forall>t \<in> set ts. depth k' (tg_dev t) = 0)))"
  using assms
proof (induction ts arbitrary: k st retained)
  case Nil
  then show ?case by (auto simp: settled_def)
next
  case (Cons t ts)
  have step: ?case
    if s0: "ok k0" "depth k0 = depth k" and dev: "mn_dev m = tg_dev t"
      and rec: "thaw_targets tx K ts rest0 (thaw_state_drain tx K m (k0, st)) = ((k', st'), rest)"
      and ret: "set retained \<subseteq> insert m (set rest0)" "set rest0 \<subseteq> set retained" for k0 m rest0
  proof -
    obtain k1 st1 where s1: "thaw_state_drain tx K m (k0, st) = (k1, st1)" by fastforce
    note one = thaw_state_drain_depth [OF s0(1) s1]
    note IH = Cons.IH [OF conjunct1 [OF one] rec [unfolded s1]]
    have m: "settled depth k' (ts_keep st') m"
      using one IH settled_mono [of depth k1 "ts_keep st1" m k' "ts_keep st'"] by blast
    have zero: "depth k' (tg_dev t) = 0" if "ts_unrecoverable st' = None" "ts_keep st = []"
      using IH one m that dev by (auto simp: settled_def)
    show ?thesis using m zero one IH s0(2) ret
      by (intro conjI) (blast intro: order_trans, metis order_trans, blast, blast, blast, auto)
  qed
  show ?case
  proof (cases "take_dev (tg_dev t) retained")
    case (Some mr)
    then obtain m rest0 where mr: "take_dev (tg_dev t) retained = Some (m, rest0)" by (cases mr) auto
    show ?thesis
      using step [OF Cons.prems(1) refl, of m rest0] take_dev_Some [OF mr] mr Cons.prems(2) by auto
  next
    case None
    obtain k0 r where op: "open_target tx K k t = (k0, r)" by fastforce
    note od = open_target_depth [OF Cons.prems(1) op]
    show ?thesis
    proof (cases r)
      case (Inr m)
      then show ?thesis
        using step [of k0 m retained] od None op Cons.prems(2) by auto
    next
      case (Inl a)
      then obtain f where "thaw_targets tx K ts retained
          (k0, st\<lparr>ts_unrecoverable := get_or_insert (ts_unrecoverable st) f\<rparr>) = ((k', st'), rest)"
        using None op Cons.prems(2) by auto
      from Cons.IH [OF conjunct1 [OF od] this] show ?thesis using od by auto
    qed
  qed
qed

text \<open>Every way a thaw walk ends, before the marker is considered.\<close>

lemma thaw_blocking_cases:
  assumes "ok k" "thaw_blocking tx K D mk plan k d held = (k', d', held', r)"
  shows "ok k' \<and> depth k' \<le> depth k \<and> list_all (settled depth k' held') held \<and>
    (d' = d \<and> \<not> is_ok r \<or>
     d' = fst (marker_remove D d mk) \<and> is_ok r = removed (snd (marker_remove D d mk)) \<and>
     held' = [] \<and> (\<forall>f. plan \<noteq> Some (Err f)) \<and>
     (\<forall>p. plan = Some (Ok p) \<longrightarrow> list_all (\<lambda>t. depth k' (tg_dev t) = 0) (fp_targets p)))"
proof -
  define walk where "walk = (case plan of
      Some (Ok p) \<Rightarrow> thaw_targets tx K (thaw_order p) held (k, thaw_state_default)
    | _ \<Rightarrow> ((k, thaw_state_default), held))"
  obtain k1 st1 rest where walk: "walk = ((k1, st1), rest)" by (metis surj_pair)
  obtain k2 st2 where fin: "fold (thaw_state_drain tx K) (rev rest) (k1, st1) = (k2, st2)" by fastforce
  have w: "ok k1 \<and> depth k1 \<le> depth k \<and> (\<forall>m \<in> set held. m \<in> set rest \<or> settled depth k1 (ts_keep st1) m) \<and>
    (ts_unrecoverable st1 = None \<longrightarrow> ts_keep st1 = [] \<and>
      (\<forall>p. plan = Some (Ok p) \<longrightarrow> (\<forall>t \<in> set (fp_targets p). depth k1 (tg_dev t) = 0)))"
    using walk assms(1) thaw_targets_depth [OF assms(1)]
    by (fastforce simp: walk_def thaw_state_default_def thaw_order_def split: option.splits sum.splits)
  note f = thaw_fold_depth [OF conjunct1 [OF w] fin]
  have held: "\<forall>m \<in> set held. settled depth k2 (ts_keep st2) m"
    using w f settled_mono [of depth k1 "ts_keep st1" _ k2 "ts_keep st2"] by fastforce
  have zero: "plan = Some (Ok p) \<Longrightarrow> ts_unrecoverable st2 = None \<Longrightarrow>
      \<forall>t \<in> set (fp_targets p). depth k2 (tg_dev t) = 0" for p
    using w f by (metis le_funD le_zero_eq)
  have "thaw_blocking tx K D mk plan k d held =
    (case ts_unrecoverable st2 of
       Some f \<Rightarrow> (k2, d, ts_keep st2, Err f)
     | None \<Rightarrow> (case plan of
           Some (Err f) \<Rightarrow> (k2, d, ts_keep st2, Err f)
         | _ \<Rightarrow> (let (d', r) = marker_remove D d mk in
             (k2, d', ts_keep st2, case r of Ok _ \<Rightarrow> Ok (ts_thawed st2)
                | Err e \<Rightarrow> if is_absent e then Ok (ts_thawed st2) else Err (TfMarker e)))))"
    using walk fin
    by (cases plan rule: option.exhaust; cases "ts_unrecoverable st2")
       (auto simp: thaw_blocking_def walk_def Let_def split: sum.splits prod.splits)
  moreover have "ok k2 \<and> depth k2 \<le> depth k" using w f by (meson order_trans)
  ultimately show ?thesis
    using assms(2) held zero w f
    by (cases "marker_remove D d mk")
       (auto simp: removed_def list_all_iff split: option.splits sum.splits if_splits)
qed

lemma rollback_cases:
  assumes "ok k" "rollback tx K D mk k d held failed cause = (k', d', held', f)"
  shows "list_all (settled depth k' held') held \<and>
    (d' = d \<and> (\<exists>mp reason. f = FfRollbackIncomplete (from_utf8_lossy failed) cause mp reason) \<or>
     d' = fst (marker_remove D d mk) \<and> held' = [] \<and>
     (f = FfHard (from_utf8_lossy failed) cause \<longleftrightarrow> removed (snd (marker_remove D d mk))) \<and>
     (retains_frozen_state f \<longleftrightarrow> \<not> removed (snd (marker_remove D d mk))))"
proof -
  obtain k1 rc keep inc where dh: "drain_held tx K k held = (k1, rc, keep, inc)"
    by (metis surj_pair)
  note f = drain_held_fold [OF assms(1) dh [unfolded drain_held_def]]
  have "list_all (settled depth k1 keep) held" using f by (simp add: list_all_iff)
  moreover have "inc = None \<Longrightarrow> keep = []" using f by simp
  ultimately show ?thesis
    using assms(2) dh
    by (cases "marker_remove D d mk"; cases inc)
       (auto simp: rollback_def removed_def retains_frozen_state_def Let_def
         split: option.splits sum.splits if_splits)
qed

end

section \<open>Properties\<close>

text \<open>
  C25. A thaw that reports success has thawed everything it was responsible for: every filesystem
  this process held and every target of the plan is unfrozen, no handle is left over, and the
  recovery marker is gone. Stated for the kernel double that tracks freeze nesting, and a directory
  whose system calls do what they document.
\<close>

theorem thaw_success_is_complete:
  assumes "fake_tracking k" and "posix_dir D"
    and "thaw_blocking tx fake_kernel D mk plan k d held = (k', d', held', Ok n)"
  shows "list_all (\<lambda>m. fake_depth k' (mn_dev m) = 0) held \<and> held' = [] \<and>
    (\<forall>p. plan = Some (Ok p) \<longrightarrow> list_all (\<lambda>t. fake_depth k' (tg_dev t) = 0) (fp_targets p)) \<and>
    (\<forall>f. plan \<noteq> Some (Err f)) \<and> \<not> marker_exists D d' mk"
  using fake.thaw_blocking_cases [OF assms(1,3)] removed_gone [OF assms(2), of d mk]
  by (auto simp: settled_def list_all_iff)

text \<open>
  C26. A thaw that reports a failure never loses track: every filesystem it held is unfrozen or its
  handle is kept for the next attempt, and the recovery marker is still there.
\<close>

theorem thaw_failure_retains:
  assumes "fake_tracking k" and "posix_dir D" and "marker_exists D d mk"
    and "thaw_blocking tx fake_kernel D mk plan k d held = (k', d', held', Err f)"
  shows "list_all (\<lambda>m. fake_depth k' (mn_dev m) = 0 \<or> m \<in> set held') held \<and> marker_exists D d' mk"
  using fake.thaw_blocking_cases [OF assms(1,4)] not_removed_stays [OF assms(2), of d mk] assms(3)
  by (auto simp: settled_def list_all_iff)

text \<open>
  The rollback of a failed freeze: every filesystem frozen so far is thawed or its handle kept;
  the failure says \<open>rolled back\<close> only when all are thawed and the marker is gone, and otherwise it
  is one of those for which the agent stays \<^verbatim>\<open>Frozen\<close>, with the marker in place.
\<close>

theorem rollback_settles:
  assumes "fake_tracking k" and "posix_dir D" and "marker_exists D d mk"
    and "rollback tx fake_kernel D mk k d held failed cause = (k', d', held', f)"
  shows "list_all (\<lambda>m. fake_depth k' (mn_dev m) = 0 \<or> m \<in> set held') held \<and>
    (if retains_frozen_state f then marker_exists D d' mk
     else f = FfHard (from_utf8_lossy failed) cause \<and> held' = [] \<and> \<not> marker_exists D d' mk)"
  using fake.rollback_cases [OF assms(1,4)] removed_gone [OF assms(2), of d mk]
    not_removed_stays [OF assms(2), of d mk] assms(3)
  by (auto simp: settled_def list_all_iff retains_frozen_state_def)

subsection \<open>Concrete runs\<close>

definition example_mount :: mount where
  "example_mount = unopened ''/srv'' (8, 1)"

definition example_kernel :: fake_inner where
  "example_kernel = fst (fake_fifreeze (track_freeze_depth fake_new) example_mount)"

definition example_marker :: marker where
  "example_marker = \<lparr>mk_dir = 3, mk_name = ''frozen'', mk_path = ''/run/qeminga/frozen'', mk_dev = (0, 25)\<rparr>"

definition example_dir :: "(fd \<times> path) set" where
  "example_dir = {(3, ''frozen'')}"

lemma drain_loop_numeral:
  "drain_loop K m (numeral v) s k =
     (case snd (k_fithaw K k m) of
        Ok _ \<Rightarrow> drain_loop K m (pred_numeral v) (Suc s) (fst (k_fithaw K k m))
      | Err e \<Rightarrow> (fst (k_fithaw K k m),
                  \<lparr>dr_successes = s, dr_first_error = Some e, dr_capped = False\<rparr>))"
  by (cases "k_fithaw K k m") (simp add: numeral_eq_Suc split: sum.splits)

lemmas example_defs =
  example_mount_def example_kernel_def example_marker_def example_dir_def plain_dir_def
  track_freeze_depth_def fake_new_def unopened_def marker_remove_def marker_exists_def

lemmas run_simps =
  fake_op_defs thaw_blocking_def rollback_def drain_held_def drain_held_step_def
  thaw_state_drain_def thaw_state_default_def drain_def MAX_THAW_ITERATIONS_def drain_loop_numeral
  incomplete_def is_absent_def

lemma example_tracking: "fake_tracking example_kernel" "marker_exists plain_dir example_dir example_marker"
  by (simp_all add: fake_tracking_def example_defs fake_fifreeze_def fake_record_def)

theorem thaw_success_is_complete_witness:
  "\<exists>k' d'. thaw_blocking (\<lambda>_. []) fake_kernel plain_dir example_marker None example_kernel example_dir
     [example_mount] = (k', d', [], Ok 1) \<and>
     fake_depth example_kernel (8, 1) = 1 \<and> fake_depth k' (8, 1) = 0 \<and>
     \<not> marker_exists plain_dir d' example_marker"
proof -
  obtain k' d' held' where run: "thaw_blocking (\<lambda>_. []) fake_kernel plain_dir example_marker None
     example_kernel example_dir [example_mount] = (k', d', held', Ok 1)"
    by (simp add: run_simps example_defs kerror_defs)
  have "fake_depth example_kernel (8, 1) = 1"
    by (simp add: example_defs fake_fifreeze_def fake_record_def fake_depth_def)
  then show ?thesis
    using thaw_success_is_complete [OF example_tracking(1) posix_plain_dir run] run
    by (auto simp: example_mount_def unopened_def)
qed

definition denied_kernel :: fake_inner where
  "denied_kernel = script_thaw_error ''/srv'' EPERM example_kernel"

theorem thaw_failure_retains_witness:
  "\<exists>k' d' f. thaw_blocking (\<lambda>_. []) fake_kernel plain_dir example_marker None denied_kernel example_dir
     [example_mount] = (k', d', [example_mount], Err f) \<and> marker_exists plain_dir d' example_marker"
proof -
  have ok: "fake_tracking denied_kernel"
    by (simp add: fake_tracking_def denied_kernel_def script_thaw_error_def example_defs
        fake_fifreeze_def fake_record_def)
  obtain k' d' f where run: "thaw_blocking (\<lambda>_. []) fake_kernel plain_dir example_marker None
     denied_kernel example_dir [example_mount] = (k', d', [example_mount], Err f)"
    by (simp add: run_simps example_defs kerror_defs denied_kernel_def script_thaw_error_def)
  from thaw_failure_retains [OF ok posix_plain_dir example_tracking(2) run] run show ?thesis by blast
qed

theorem rollback_settles_witness:
  "\<exists>k' d'. rollback (\<lambda>_. []) fake_kernel plain_dir example_marker example_kernel example_dir
     [example_mount] ''/var'' (StopIoctl (KErrno EPERM)) =
     (k', d', [], FfHard ''/var'' (StopIoctl (KErrno EPERM))) \<and> fake_depth k' (8, 1) = 0 \<and>
     \<not> marker_exists plain_dir d' example_marker"
proof -
  have utf8: "from_utf8_lossy ''/var'' = ''/var''" by (simp add: from_utf8_lossy_id ascii_utf8_valid is_ascii_def)
  obtain k' d' held' f where run: "rollback (\<lambda>_. []) fake_kernel plain_dir example_marker
     example_kernel example_dir [example_mount] ''/var'' (StopIoctl (KErrno EPERM)) = (k', d', held', f)"
    and f: "\<not> retains_frozen_state f"
    by (simp add: run_simps example_defs kerror_defs retains_frozen_state_def)
  from rollback_settles [OF example_tracking(1) posix_plain_dir example_tracking(2) run] f run utf8
  show ?thesis by (auto simp: example_mount_def unopened_def)
qed

end
