(* ===== verification/Context.thy ===== *)
theory Context
  imports Drain State
begin

text \<open>
  The shared \<^verbatim>\<open>Context\<close> of \<^verbatim>\<open>src/dispatch.rs\<close>, as far as the freeze life cycle reads and writes it, and the
  production hooks of \<^verbatim>\<open>src/handlers/fsfreeze.rs\<close>. The kernel behind the trait object and the file
  system are states in it; the operations on them are in \<open>freeze_env\<close>, with what a read of the mount
  table may answer. The registered freeze operation
  is its identity (the pointer compared by \<^verbatim>\<open>Arc::ptr_eq\<close>); the spawned watchdog tasks are a list, and
  a \<^verbatim>\<open>WatchdogHandle\<close> is an index into it. \<open>cx_audit_ring\<close> is the mode of the audit router.

  The runtime has several threads, and two stretches of code take one lock after another: a task that has
  published \<^verbatim>\<open>Frozen\<close> calls \<^verbatim>\<open>on_frozen\<close> afterwards, and a watchdog whose deadline passed claims the thaw
  afterwards. Where other tasks can run in between, the tasks that are at that point are counted in
  \<open>cx_arming\<close> and \<open>cx_expired\<close>, and what they do next is a step of its own.
\<close>

datatype thaw_scope = Tracked | Discovery

text \<open>A watchdog task: when it was armed, its idle deadline, the two notifications, and whether it ended.\<close>

record watchdog_task =
  wt_armed :: nat
  wt_idle_deadline :: nat
  wt_refresh :: bool
  wt_cancel :: bool
  wt_done :: bool

record watchdog_config =
  wc_idle :: nat
  wc_max :: nat

record ('k, 'd) ctx =
  cx_state :: freeze_state_machine
  cx_kernel :: 'k
  cx_dir :: 'd
  cx_frozen_mounts :: "mount list"
  cx_thaw_scope :: thaw_scope
  cx_freeze_op :: "nat option"
  cx_watchdogs :: "watchdog_task list"
  cx_watchdog :: "nat option"
  cx_audit_ring :: bool
  cx_timeout :: nat
  cx_watchdog_cfg :: watchdog_config
  cx_now :: nat
  cx_arming :: nat
  cx_expired :: nat

record ('k, 'd) freeze_env =
  en_tx :: "errno \<Rightarrow> string"
  en_kernel :: "'k kernel_ops"
  en_dir :: "'d dir_calls"
  en_marker :: marker
  en_mounts :: "(error, mount_entry list) result \<Rightarrow> bool"

section \<open>Accessors\<close>

definition set_freeze_op :: "nat option \<Rightarrow> ('k, 'd) ctx \<Rightarrow> ('k, 'd) ctx" where
  "set_freeze_op i cx = cx\<lparr>cx_freeze_op := i\<rparr>"

definition retire_freeze_op :: "nat \<Rightarrow> ('k, 'd) ctx \<Rightarrow> ('k, 'd) ctx" where
  "retire_freeze_op i cx = (if cx_freeze_op cx = Some i then cx\<lparr>cx_freeze_op := None\<rparr> else cx)"

definition take_frozen_mounts :: "('k, 'd) ctx \<Rightarrow> ('k, 'd) ctx \<times> mount list" where
  "take_frozen_mounts cx = (cx\<lparr>cx_frozen_mounts := []\<rparr>, cx_frozen_mounts cx)"

definition hold_frozen_mounts :: "mount list \<Rightarrow> ('k, 'd) ctx \<Rightarrow> ('k, 'd) ctx" where
  "hold_frozen_mounts ms cx = cx\<lparr>cx_frozen_mounts := cx_frozen_mounts cx @ ms\<rparr>"

definition frozen_mount_count :: "('k, 'd) ctx \<Rightarrow> nat" where
  "frozen_mount_count cx = length (cx_frozen_mounts cx)"

definition set_thaw_scope :: "thaw_scope \<Rightarrow> ('k, 'd) ctx \<Rightarrow> ('k, 'd) ctx" where
  "set_thaw_scope s cx = cx\<lparr>cx_thaw_scope := s\<rparr>"

section \<open>Watchdog handles\<close>

definition watchdog_refresh :: "nat \<Rightarrow> ('k, 'd) ctx \<Rightarrow> ('k, 'd) ctx" where
  "watchdog_refresh h cx =
     cx\<lparr>cx_watchdogs := (cx_watchdogs cx)[h := (cx_watchdogs cx ! h)\<lparr>wt_refresh := True\<rparr>]\<rparr>"

definition watchdog_cancel :: "nat \<Rightarrow> ('k, 'd) ctx \<Rightarrow> ('k, 'd) ctx" where
  "watchdog_cancel h cx =
     cx\<lparr>cx_watchdogs := (cx_watchdogs cx)[h := (cx_watchdogs cx ! h)\<lparr>wt_cancel := True\<rparr>]\<rparr>"

definition watchdog_arm :: "('k, 'd) ctx \<Rightarrow> ('k, 'd) ctx \<times> nat" where
  "watchdog_arm cx =
     (cx\<lparr>cx_watchdogs := cx_watchdogs cx @ [\<lparr>wt_armed = cx_now cx, wt_idle_deadline = cx_now cx + wc_idle (cx_watchdog_cfg cx),
            wt_refresh = False, wt_cancel = False, wt_done = False\<rparr>]\<rparr>,
      length (cx_watchdogs cx))"

section \<open>The production hooks\<close>

definition on_freezing :: "('k, 'd) ctx \<Rightarrow> ('k, 'd) ctx" where
  "on_freezing cx = cx\<lparr>cx_audit_ring := True\<rparr>"

definition on_thawed :: "('k, 'd) ctx \<Rightarrow> ('k, 'd) ctx" where
  "on_thawed cx = cx\<lparr>cx_audit_ring := False\<rparr>"

definition on_frozen :: "('k, 'd) ctx \<Rightarrow> ('k, 'd) ctx" where
  "on_frozen cx =
     (let (cx1, h) = watchdog_arm cx;
          previous = cx_watchdog cx1;
          cx2 = cx1\<lparr>cx_watchdog := Some h\<rparr>
      in case previous of Some p \<Rightarrow> watchdog_cancel p cx2 | None \<Rightarrow> cx2)"

text \<open>A task that is past the publication of \<^verbatim>\<open>Frozen\<close> and about to call \<^verbatim>\<open>on_frozen\<close>, and that call.\<close>

definition calls_on_frozen :: "('k, 'd) ctx \<Rightarrow> ('k, 'd) ctx" where
  "calls_on_frozen cx = cx\<lparr>cx_arming := cx_arming cx + 1\<rparr>"

definition run_on_frozen :: "('k, 'd) ctx \<Rightarrow> ('k, 'd) ctx" where
  "run_on_frozen cx = on_frozen (cx\<lparr>cx_arming := cx_arming cx - 1\<rparr>)"

definition on_thaw_claimed :: "('k, 'd) ctx \<Rightarrow> ('k, 'd) ctx" where
  "on_thaw_claimed cx =
     (case cx_watchdog cx of
        Some h \<Rightarrow> watchdog_cancel h (cx\<lparr>cx_watchdog := None\<rparr>)
      | None \<Rightarrow> cx)"

definition on_heartbeat :: "('k, 'd) ctx \<Rightarrow> ('k, 'd) ctx" where
  "on_heartbeat cx =
     (case cx_watchdog cx of Some h \<Rightarrow> watchdog_refresh h cx | None \<Rightarrow> cx)"

section \<open>Live watchdogs\<close>

text \<open>The watchdog tasks that may still expire; only the one in the slot may be such a task.\<close>

definition alive :: "watchdog_task \<Rightarrow> bool" where
  "alive w \<longleftrightarrow> \<not> wt_cancel w \<and> \<not> wt_done w"

definition live :: "('k, 'd) ctx \<Rightarrow> nat list" where
  "live cx = filter (\<lambda>i. alive (cx_watchdogs cx ! i)) [0..<length (cx_watchdogs cx)]"

definition one_watchdog :: "('k, 'd) ctx \<Rightarrow> bool" where
  "one_watchdog cx \<longleftrightarrow> set (live cx) \<subseteq> set_option (cx_watchdog cx) \<and>
     (\<forall>h. cx_watchdog cx = Some h \<longrightarrow> h < length (cx_watchdogs cx))"

lemmas hook_defs =
  on_freezing_def on_thawed_def on_frozen_def on_thaw_claimed_def on_heartbeat_def
  watchdog_arm_def watchdog_cancel_def watchdog_refresh_def

lemmas slot_defs =
  set_freeze_op_def retire_freeze_op_def take_frozen_mounts_def hold_frozen_mounts_def
  frozen_mount_count_def set_thaw_scope_def

text \<open>What the hooks and slots leave alone.\<close>

lemma on_frozen_frame [frame_simps]:
  "cx_state (on_frozen cx) = cx_state cx" "cx_kernel (on_frozen cx) = cx_kernel cx"
  "cx_dir (on_frozen cx) = cx_dir cx" "cx_frozen_mounts (on_frozen cx) = cx_frozen_mounts cx"
  "cx_thaw_scope (on_frozen cx) = cx_thaw_scope cx" "cx_freeze_op (on_frozen cx) = cx_freeze_op cx"
  "cx_audit_ring (on_frozen cx) = cx_audit_ring cx" "cx_now (on_frozen cx) = cx_now cx"
  "cx_timeout (on_frozen cx) = cx_timeout cx" "cx_arming (on_frozen cx) = cx_arming cx"
  "cx_expired (on_frozen cx) = cx_expired cx"
  by (simp_all add: hook_defs Let_def split: option.splits)

lemma on_thaw_claimed_frame [frame_simps]:
  "cx_state (on_thaw_claimed cx) = cx_state cx" "cx_kernel (on_thaw_claimed cx) = cx_kernel cx"
  "cx_dir (on_thaw_claimed cx) = cx_dir cx"
  "cx_frozen_mounts (on_thaw_claimed cx) = cx_frozen_mounts cx"
  "cx_thaw_scope (on_thaw_claimed cx) = cx_thaw_scope cx"
  "cx_freeze_op (on_thaw_claimed cx) = cx_freeze_op cx"
  "cx_audit_ring (on_thaw_claimed cx) = cx_audit_ring cx" "cx_now (on_thaw_claimed cx) = cx_now cx"
  "cx_timeout (on_thaw_claimed cx) = cx_timeout cx" "cx_arming (on_thaw_claimed cx) = cx_arming cx"
  "cx_expired (on_thaw_claimed cx) = cx_expired cx"
  by (simp_all add: hook_defs split: option.splits)

lemma calls_on_frozen_frame [frame_simps]:
  "cx_state (calls_on_frozen cx) = cx_state cx" "cx_kernel (calls_on_frozen cx) = cx_kernel cx"
  "cx_dir (calls_on_frozen cx) = cx_dir cx" "cx_frozen_mounts (calls_on_frozen cx) = cx_frozen_mounts cx"
  "cx_thaw_scope (calls_on_frozen cx) = cx_thaw_scope cx" "cx_freeze_op (calls_on_frozen cx) = cx_freeze_op cx"
  "cx_audit_ring (calls_on_frozen cx) = cx_audit_ring cx" "cx_now (calls_on_frozen cx) = cx_now cx"
  "cx_timeout (calls_on_frozen cx) = cx_timeout cx" "cx_watchdog (calls_on_frozen cx) = cx_watchdog cx"
  "cx_watchdogs (calls_on_frozen cx) = cx_watchdogs cx" "cx_expired (calls_on_frozen cx) = cx_expired cx"
  "0 < cx_arming (calls_on_frozen cx)"
  by (simp_all add: calls_on_frozen_def)

lemma on_thawed_frame [frame_simps]:
  "cx_state (on_thawed cx) = cx_state cx" "cx_kernel (on_thawed cx) = cx_kernel cx"
  "cx_dir (on_thawed cx) = cx_dir cx" "cx_frozen_mounts (on_thawed cx) = cx_frozen_mounts cx"
  "cx_thaw_scope (on_thawed cx) = cx_thaw_scope cx" "cx_freeze_op (on_thawed cx) = cx_freeze_op cx"
  "cx_now (on_thawed cx) = cx_now cx" "cx_timeout (on_thawed cx) = cx_timeout cx"
  "cx_watchdog (on_thawed cx) = cx_watchdog cx" "cx_watchdogs (on_thawed cx) = cx_watchdogs cx"
  "cx_arming (on_thawed cx) = cx_arming cx" "cx_expired (on_thawed cx) = cx_expired cx"
  by (simp_all add: on_thawed_def)

lemma retire_frame [frame_simps]:
  "cx_state (retire_freeze_op i cx) = cx_state cx" "cx_kernel (retire_freeze_op i cx) = cx_kernel cx"
  "cx_dir (retire_freeze_op i cx) = cx_dir cx"
  "cx_frozen_mounts (retire_freeze_op i cx) = cx_frozen_mounts cx"
  "cx_thaw_scope (retire_freeze_op i cx) = cx_thaw_scope cx"
  "cx_audit_ring (retire_freeze_op i cx) = cx_audit_ring cx"
  "cx_now (retire_freeze_op i cx) = cx_now cx" "cx_timeout (retire_freeze_op i cx) = cx_timeout cx"
  "cx_watchdog (retire_freeze_op i cx) = cx_watchdog cx"
  "cx_watchdogs (retire_freeze_op i cx) = cx_watchdogs cx"
  "cx_arming (retire_freeze_op i cx) = cx_arming cx" "cx_expired (retire_freeze_op i cx) = cx_expired cx"
  by (simp_all add: retire_freeze_op_def)

text \<open>At most one watchdog runs, and it is the one in the slot.\<close>

lemma one_watchdog_iff:
  "one_watchdog cx \<longleftrightarrow>
     (\<forall>h < length (cx_watchdogs cx). alive (cx_watchdogs cx ! h) \<longrightarrow> cx_watchdog cx = Some h) \<and>
     (\<forall>h. cx_watchdog cx = Some h \<longrightarrow> h < length (cx_watchdogs cx))"
  by (auto simp: one_watchdog_def live_def elem_set)

lemma cancelled_alive:
  "h < length ws \<Longrightarrow> alive (ws[p := (ws ! p)\<lparr>wt_cancel := True\<rparr>] ! h) \<longleftrightarrow> h \<noteq> p \<and> alive (ws ! h)"
  by (cases "h = p") (simp_all add: alive_def)

lemma one_watchdog_claimed:
  assumes "one_watchdog cx"
  shows "one_watchdog (on_thaw_claimed cx)"
proof (cases "cx_watchdog cx")
  case (Some p)
  have "h = p" if "h < length (cx_watchdogs cx)" "alive (cx_watchdogs cx ! h)" for h
    using assms that Some unfolding one_watchdog_iff by (metis option.inject)
  moreover have "on_thaw_claimed cx = cx\<lparr>cx_watchdog := None,
      cx_watchdogs := (cx_watchdogs cx)[p := (cx_watchdogs cx ! p)\<lparr>wt_cancel := True\<rparr>]\<rparr>"
    using Some by (simp add: on_thaw_claimed_def watchdog_cancel_def)
  ultimately show ?thesis by (auto simp: one_watchdog_iff cancelled_alive)
qed (use assms in \<open>simp add: on_thaw_claimed_def\<close>)

text \<open>A new task takes the slot; the one it replaces, if any, is cancelled.\<close>

definition armed_now :: "('k, 'd) ctx \<Rightarrow> watchdog_task" where
  "armed_now cx = \<lparr>wt_armed = cx_now cx, wt_idle_deadline = cx_now cx + wc_idle (cx_watchdog_cfg cx),
    wt_refresh = False, wt_cancel = False, wt_done = False\<rparr>"

lemma on_frozen_slot: "cx_watchdog (on_frozen cx) = Some (length (cx_watchdogs cx))"
  by (simp add: on_frozen_def watchdog_arm_def watchdog_cancel_def Let_def split: option.split)

lemma on_frozen_tasks:
  "cx_watchdogs (on_frozen cx) =
     (let ws = cx_watchdogs cx @ [armed_now cx] in
      case cx_watchdog cx of None \<Rightarrow> ws | Some p \<Rightarrow> ws[p := (ws ! p)\<lparr>wt_cancel := True\<rparr>])"
  by (simp add: on_frozen_def watchdog_arm_def watchdog_cancel_def armed_now_def Let_def split: option.split)

lemma on_frozen_length: "length (cx_watchdogs (on_frozen cx)) = Suc (length (cx_watchdogs cx))"
  by (simp add: on_frozen_tasks Let_def split: option.split)

lemma armed_now_alive: "alive (armed_now cx)" "wt_armed (armed_now cx) = cx_now cx"
  by (simp_all add: armed_now_def alive_def)

lemma on_frozen_alive:
  assumes "one_watchdog cx" "h < length (cx_watchdogs (on_frozen cx))" "alive (cx_watchdogs (on_frozen cx) ! h)"
  shows "h = length (cx_watchdogs cx)"
proof (rule ccontr)
  assume ne: "h \<noteq> length (cx_watchdogs cx)"
  then have h: "h < length (cx_watchdogs cx)"
    using assms(2) by (simp add: on_frozen_length)
  have "cx_watchdog cx \<noteq> Some h \<and> alive (cx_watchdogs cx ! h)"
  proof (cases "cx_watchdog cx")
    case None
    then show ?thesis using assms(3) h by (simp add: on_frozen_tasks nth_append)
  next
    case (Some p)
    have "h \<noteq> p \<and> alive ((cx_watchdogs cx @ [armed_now cx]) ! h)"
      using cancelled_alive [of h "cx_watchdogs cx @ [armed_now cx]" p] assms(3) h
      unfolding on_frozen_tasks Let_def Some by simp
    then show ?thesis using Some h by (simp add: nth_append)
  qed
  then show False using assms(1) h unfolding one_watchdog_iff by blast
qed

lemma one_watchdog_frozen:
  assumes "one_watchdog cx"
  shows "one_watchdog (on_frozen cx)" "cx_watchdog (on_frozen cx) = Some (length (cx_watchdogs cx))"
    "alive (cx_watchdogs (on_frozen cx) ! length (cx_watchdogs cx))"
    "wt_armed (cx_watchdogs (on_frozen cx) ! length (cx_watchdogs cx)) = cx_now cx"
proof -
  have p: "p < length (cx_watchdogs cx)" if "cx_watchdog cx = Some p" for p
    using assms that by (simp add: one_watchdog_iff)
  have last: "cx_watchdogs (on_frozen cx) ! length (cx_watchdogs cx) = armed_now cx"
    using p by (cases "cx_watchdog cx") (auto simp: on_frozen_tasks Let_def nth_list_update nth_append)
  show "one_watchdog (on_frozen cx)"
    unfolding one_watchdog_iff on_frozen_slot using on_frozen_alive [OF assms] on_frozen_length [of cx] by auto
  show "cx_watchdog (on_frozen cx) = Some (length (cx_watchdogs cx))" by (rule on_frozen_slot)
  show "alive (cx_watchdogs (on_frozen cx) ! length (cx_watchdogs cx))"
    "wt_armed (cx_watchdogs (on_frozen cx) ! length (cx_watchdogs cx)) = cx_now cx"
    unfolding last by (rule armed_now_alive)+
qed

end
