(* ===== verification/FreezeOp.thy ===== *)
theory FreezeOp
  imports Context
begin

text \<open>
  \<^verbatim>\<open>src/freeze_op.rs\<close>: the coordinator of one freeze operation. The shared \<^verbatim>\<open>FreezeOp\<close> is the record
  \<open>freeze_op\<close> and the \<^verbatim>\<open>Driver\<close> task the record \<open>driver\<close>, which holds the context and the operation as
  the code's \<^verbatim>\<open>Arc\<close>s do. Each method of the driver is a function on it. The points at which the task
  awaits are the constructors of \<open>pc\<close>, each with the state of the blocking task it tracks, and
  \<open>op_step\<close> is one step of anything concurrent: time, a thaw request, a blocking task (one system call
  or one handle's drain at a time, or its loss), and the driver taking an event in the order its
  biased select polls them.
\<close>

section \<open>The operation\<close>

datatype outcome_flag = OUTCOME_OPEN | OUTCOME_ABORTING | OUTCOME_COMMITTED

datatype phase = PhaseFreezing | PhaseRecovering | PhaseSettled

record progress =
  pg_phase :: phase
  pg_frozen :: nat
  pg_in_flight :: "string option"
  pg_pass_done :: bool
  pg_recovered :: nat
  pg_unrecoverable :: "string option"
  pg_settled :: "freeze_state option"

definition progress_initial :: progress where
  "progress_initial =
     \<lparr>pg_phase = PhaseFreezing, pg_frozen = 0, pg_in_flight = Some PREPARING, pg_pass_done = False,
      pg_recovered = 0, pg_unrecoverable = None, pg_settled = None\<rparr>"

datatype abort_request = Accepted | Committed

record freeze_op =
  fo_id :: nat
  fo_deadline :: nat
  fo_outcome :: outcome_flag
  fo_aborted :: bool
  fo_notified :: bool
  fo_progress :: progress

text \<open>
  \<^verbatim>\<open>request_abort\<close>: the compare-exchange; the notification that follows it when the abort is accepted
  is a step of its own (\<open>notify_abort\<close>).
\<close>

definition request_abort :: "freeze_op \<Rightarrow> freeze_op \<times> abort_request" where
  "request_abort op =
     (case fo_outcome op of
        OUTCOME_OPEN \<Rightarrow> (op\<lparr>fo_outcome := OUTCOME_ABORTING\<rparr>, Accepted)
      | OUTCOME_ABORTING \<Rightarrow> (op, Accepted)
      | OUTCOME_COMMITTED \<Rightarrow> (op, Committed))"

definition notify_abort :: "freeze_op \<Rightarrow> freeze_op" where
  "notify_abort op = op\<lparr>fo_notified := True\<rparr>"

definition try_commit :: "freeze_op \<Rightarrow> freeze_op \<times> bool" where
  "try_commit op =
     (if fo_outcome op = OUTCOME_OPEN then (op\<lparr>fo_outcome := OUTCOME_COMMITTED\<rparr>, True)
      else (op, False))"

definition mark_aborting :: "freeze_op \<Rightarrow> freeze_op" where
  "mark_aborting op =
     (if fo_outcome op = OUTCOME_OPEN then op\<lparr>fo_outcome := OUTCOME_ABORTING\<rparr> else op)"

definition abort_due :: "nat \<Rightarrow> freeze_op \<Rightarrow> abort_cause option" where
  "abort_due now op =
     (if fo_outcome op = OUTCOME_ABORTING then Some ThawRequested
      else if now \<ge> fo_deadline op then Some Deadline
      else None)"

definition authorises :: "nat \<Rightarrow> freeze_op \<Rightarrow> bool" where
  "authorises now op \<longleftrightarrow> \<not> fo_aborted op \<and> now < fo_deadline op"

section \<open>The driver\<close>

datatype target_outcome =
    ToFrozen mount
  | ToBusy mount
  | ToSkipped
  | ToNotAuthorized
  | ToFailed freeze_stop

record recovery_pass =
  rp_recovered :: nat
  rp_keep :: "mount list"
  rp_incomplete :: "(string \<times> string) option"

text \<open>
  A recovery drain in flight: the handles still to drain and the results so far, or its end. The end
  of a tracked task is a \<^verbatim>\<open>Result<T, JoinError>\<close>: \<open>Err\<close> with the error's text when the task was lost.
\<close>

datatype drain_task =
    DrainRunning "mount list" nat "mount list" "(string \<times> string) option"
  | DrainDone "(string, recovery_pass) result"

datatype terminal = TerminalFrozen | TerminalThawed

record ('k, 'd) driver =
  dv_ctx :: "('k, 'd) ctx"
  dv_op :: freeze_op
  dv_token :: "freeze_token option"
  dv_thaw_token :: "thaw_token option"
  dv_reply :: "(freeze_failure, nat) result option"
  dv_frozen :: nat
  dv_recovered :: nat
  dv_recovery :: "drain_task option"
  dv_kept :: "mount list"
  dv_unrecoverable :: "(string \<times> string) option"
  dv_uncertain :: bool
  dv_abort :: "abort_cause option"
  dv_timeout :: nat

definition publish :: "(progress \<Rightarrow> progress) \<Rightarrow> ('k, 'd) driver \<Rightarrow> ('k, 'd) driver" where
  "publish f dv = dv\<lparr>dv_op := (dv_op dv)\<lparr>fo_progress := f (fo_progress (dv_op dv))\<rparr>\<rparr>"

definition send_reply :: "(freeze_failure, nat) result \<Rightarrow> ('k, 'd) driver \<Rightarrow> ('k, 'd) driver" where
  "send_reply r dv = (case dv_reply dv of None \<Rightarrow> dv\<lparr>dv_reply := Some r\<rparr> | Some _ \<Rightarrow> dv)"

definition refresh_pass_done :: "('k, 'd) driver \<Rightarrow> ('k, 'd) driver" where
  "refresh_pass_done dv =
     (let done = dv_abort dv \<noteq> None \<and> dv_recovery dv = None \<and> frozen_mount_count (dv_ctx dv) = 0
      in publish (\<lambda>p. p\<lparr>pg_pass_done := done\<rparr>) dv)"

definition start_recovery_if_needed :: "('k, 'd) driver \<Rightarrow> ('k, 'd) driver" where
  "start_recovery_if_needed dv =
     (if dv_recovery dv \<noteq> None then dv
      else let (cx, held) = take_frozen_mounts (dv_ctx dv); dv = dv\<lparr>dv_ctx := cx\<rparr> in
        if held = [] then dv
        else dv\<lparr>dv_recovery := Some (DrainRunning (rev held) 0 [] None)\<rparr>)"

definition commit_abort :: "abort_cause \<Rightarrow> ('k, 'd) driver \<Rightarrow> ('k, 'd) driver" where
  "commit_abort cause dv =
     (if dv_abort dv \<noteq> None then dv
      else
        let dv = dv\<lparr>dv_abort := Some cause, dv_op := (mark_aborting (dv_op dv))\<lparr>fo_aborted := True\<rparr>\<rparr>;
            dv = (case dv_token dv of
                None \<Rightarrow> dv
              | Some t \<Rightarrow>
                  (let (m, tt) = abort_freeze (cx_state (dv_ctx dv)) t in
                   dv\<lparr>dv_token := None, dv_thaw_token := Some tt,
                      dv_ctx := (dv_ctx dv)\<lparr>cx_state := m\<rparr>\<rparr>));
            dv = dv\<lparr>dv_ctx := on_thaw_claimed (dv_ctx dv)\<rparr>;
            dv = send_reply (Err (FfAborted cause (dv_timeout dv) (dv_frozen dv)
                   (pg_in_flight (fo_progress (dv_op dv))))) dv;
            dv = start_recovery_if_needed dv;
            dv = publish (\<lambda>p. p\<lparr>pg_phase := PhaseRecovering\<rparr>) dv
        in refresh_pass_done dv)"

definition decide :: "('k, 'd) driver \<Rightarrow> ('k, 'd) driver" where
  "decide dv =
     (if dv_abort dv = None
      then case abort_due (cx_now (dv_ctx dv)) (dv_op dv) of
             Some cause \<Rightarrow> commit_abort cause dv
           | None \<Rightarrow> dv
      else dv)"

definition record_recovery :: "(string, recovery_pass) result \<Rightarrow> ('k, 'd) driver \<Rightarrow> ('k, 'd) driver" where
  "record_recovery res dv =
     (let dv = (case res of
            Ok pass \<Rightarrow>
              dv\<lparr>dv_recovered := dv_recovered dv + rp_recovered pass,
                 dv_unrecoverable := (case rp_incomplete pass of
                     Some i \<Rightarrow> get_or_insert (dv_unrecoverable dv) i
                   | None \<Rightarrow> dv_unrecoverable dv),
                 dv_kept := dv_kept dv @ rp_keep pass\<rparr>
          | Err err \<Rightarrow>
              dv\<lparr>dv_uncertain := True,
                 dv_unrecoverable := get_or_insert (dv_unrecoverable dv)
                   (''(recovery drain)'', ''recovery drain lost ('' @ err @ '')'')\<rparr>)
      in publish (\<lambda>p. p\<lparr>pg_recovered := dv_recovered dv,
             pg_unrecoverable := map_option (\<lambda>(mp, reason). mp @ '': '' @ reason) (dv_unrecoverable dv)\<rparr>) dv)"

text \<open>The parts of \<^verbatim>\<open>conclude\<close>, in the order it runs them.\<close>

definition commit_outcome :: "('k, 'd) driver \<Rightarrow> ('k, 'd) driver" where
  "commit_outcome dv = dv\<lparr>dv_op := fst (try_commit (dv_op dv))\<rparr>"

definition finalise :: "terminal \<Rightarrow> ('k, 'd) driver \<Rightarrow> ('k, 'd) driver" where
  "finalise fin dv = (if fin = TerminalThawed then dv\<lparr>dv_ctx := on_thawed (dv_ctx dv)\<rparr> else dv)"

definition retire_op :: "('k, 'd) driver \<Rightarrow> ('k, 'd) driver" where
  "retire_op dv = dv\<lparr>dv_ctx := retire_freeze_op (fo_id (dv_op dv)) (dv_ctx dv)\<rparr>"

definition record_scope :: "terminal \<Rightarrow> ('k, 'd) driver \<Rightarrow> ('k, 'd) driver" where
  "record_scope fin dv =
     dv\<lparr>dv_ctx := set_thaw_scope
          (if fin = TerminalFrozen \<and> \<not> dv_uncertain dv then Tracked else Discovery) (dv_ctx dv)\<rparr>"

definition publish_state :: "terminal \<Rightarrow> ('k, 'd) driver \<Rightarrow> ('k, 'd) driver" where
  "publish_state fin dv =
     (let m = cx_state (dv_ctx dv) in
      case dv_token dv of
        Some t \<Rightarrow> dv\<lparr>dv_token := None, dv_ctx := (dv_ctx dv)\<lparr>cx_state :=
            (if fin = TerminalThawed then freeze_failed m t else freeze_succeeded m t)\<rparr>\<rparr>
      | None \<Rightarrow> (case dv_thaw_token dv of
          Some t \<Rightarrow> dv\<lparr>dv_thaw_token := None, dv_ctx := (dv_ctx dv)\<lparr>cx_state :=
            (if fin = TerminalThawed then thaw_succeeded m t else thaw_failed m t)\<rparr>\<rparr>
        | None \<Rightarrow> dv))"

text \<open>
  The call of \<^verbatim>\<open>on_frozen\<close> after the publication; it runs as a step of its own, since a thaw may claim the
  published state first. What \<^verbatim>\<open>conclude\<close> does after that call does not touch the context.
\<close>

definition enter_terminal :: "terminal \<Rightarrow> ('k, 'd) driver \<Rightarrow> ('k, 'd) driver" where
  "enter_terminal fin dv = (if fin = TerminalFrozen then dv\<lparr>dv_ctx := calls_on_frozen (dv_ctx dv)\<rparr> else dv)"

definition announce :: "terminal \<Rightarrow> ('k, 'd) driver \<Rightarrow> ('k, 'd) driver" where
  "announce fin dv =
     publish (\<lambda>p. p\<lparr>pg_phase := PhaseSettled, pg_in_flight := None,
       pg_settled := Some (if fin = TerminalThawed then Thawed else Frozen)\<rparr>) dv"

definition conclude ::
  "terminal \<Rightarrow> (freeze_failure, nat) result \<Rightarrow> ('k, 'd) driver \<Rightarrow> ('k, 'd) driver" where
  "conclude fin r dv =
     (let dv = commit_outcome dv;
          dv = finalise fin dv;
          dv = retire_op dv;
          dv = record_scope fin dv;
          dv = publish_state fin dv;
          dv = enter_terminal fin dv;
          dv = announce fin dv
      in send_reply r dv)"

section \<open>Awaiting\<close>

datatype prep_task = PrepRunning | PrepDone "(string, (freeze_failure, freeze_plan) result) result"

datatype worker_task =
    WorkerSpawned
  | WorkerOpened mount
  | WorkerAuthorised mount
  | WorkerDone "(string, target_outcome) result"

datatype marker_task = MarkerRunning | MarkerDone "(string, (marker_error, unit) result) result"

datatype rollback_task =
    RollbackRunning "mount list" string freeze_stop
  | RollbackDone "(string, freeze_failure \<times> mount list) result"

text \<open>Where the driver task stands: before or at an \<^verbatim>\<open>await\<close>, with the task it awaits.\<close>

datatype pc =
    AwaitPrep "path list option" prep_task
  | Walk "target list"
  | AwaitWorker target "target list" worker_task
  | AwaitNothingFrozen marker_task
  | AwaitPrepRemoval freeze_failure marker_task
  | AwaitRollback rollback_task
  | SettleAborted
  | AwaitAbortedRemoval marker_task
  | OpDone terminal

type_synonym ('k, 'd) op_state = "('k, 'd) driver \<times> pc"

text \<open>\<^verbatim>\<open>start\<close>: the operation of a request that just entered \<^verbatim>\<open>Freezing\<close>.\<close>

definition start_op :: "nat \<Rightarrow> ('k, 'd) ctx \<Rightarrow> freeze_token \<Rightarrow> path list option \<Rightarrow> ('k, 'd) op_state" where
  "start_op i cx token restrict =
     (\<lparr>dv_ctx = set_freeze_op (Some i) cx,
       dv_op = \<lparr>fo_id = i, fo_deadline = cx_now cx + cx_timeout cx, fo_outcome = OUTCOME_OPEN,
                fo_aborted = False, fo_notified = False, fo_progress = progress_initial\<rparr>,
       dv_token = Some token, dv_thaw_token = None, dv_reply = None, dv_frozen = 0, dv_recovered = 0,
       dv_recovery = None, dv_kept = [], dv_unrecoverable = None, dv_uncertain = False,
       dv_abort = None, dv_timeout = cx_timeout cx\<rparr>,
      AwaitPrep restrict PrepRunning)"

section \<open>The driver between two awaits\<close>

definition settle_before_ioctl :: "freeze_failure \<Rightarrow> ('k, 'd) driver \<Rightarrow> ('k, 'd) op_state" where
  "settle_before_ioctl f dv =
     (if dv_abort dv \<noteq> None then (dv, SettleAborted)
      else case f of
        FfTask _ \<Rightarrow> (dv, AwaitPrepRemoval f MarkerRunning)
      | _ \<Rightarrow> (conclude TerminalThawed (Err f) dv, OpDone TerminalThawed))"

definition after_prep ::
  "(string, (freeze_failure, freeze_plan) result) result \<Rightarrow> ('k, 'd) driver \<Rightarrow> ('k, 'd) op_state" where
  "after_prep res dv =
     (case res of
        Ok (Ok plan) \<Rightarrow> (publish (\<lambda>p. p\<lparr>pg_in_flight := None\<rparr>) dv, Walk (freeze_order plan))
      | Ok (Err f) \<Rightarrow> settle_before_ioctl f dv
      | Err err \<Rightarrow> settle_before_ioctl (FfTask err) dv)"

text \<open>After the loop: the last decision, the commit, and what there is to settle.\<close>

definition after_walk :: "('k, 'd) driver \<Rightarrow> ('k, 'd) op_state" where
  "after_walk dv =
     (let dv = decide dv in
      if dv_abort dv \<noteq> None then (dv, SettleAborted)
      else let (op, committed) = try_commit (dv_op dv) in
        if \<not> committed then (commit_abort ThawRequested dv, SettleAborted)
        else let dv = dv\<lparr>dv_op := op\<rparr> in
          if dv_frozen dv = 0 \<and> frozen_mount_count (dv_ctx dv) = 0 \<and> dv_unrecoverable dv = None
          then (dv, AwaitNothingFrozen MarkerRunning)
          else (conclude TerminalFrozen (Ok (dv_frozen dv)) dv, OpDone TerminalFrozen))"

text \<open>One round of the loop over the targets, up to the spawned worker.\<close>

definition walk_round :: "target list \<Rightarrow> ('k, 'd) driver \<Rightarrow> ('k, 'd) op_state" where
  "walk_round ts dv =
     (case ts of
        [] \<Rightarrow> after_walk dv
      | t # rest \<Rightarrow>
          (let dv = decide dv in
           if dv_abort dv \<noteq> None then after_walk dv
           else (publish (\<lambda>p. p\<lparr>pg_in_flight := Some (from_utf8_lossy (tg_mountpoint t))\<rparr>) dv,
                 AwaitWorker t rest WorkerSpawned)))"

definition after_worker ::
  "target \<Rightarrow> target list \<Rightarrow> (string, target_outcome) result \<Rightarrow> ('k, 'd) driver \<Rightarrow> ('k, 'd) op_state" where
  "after_worker t rest res dv =
     (let dv = publish (\<lambda>p. p\<lparr>pg_in_flight := None\<rparr>) dv;
          mp = from_utf8_lossy (tg_mountpoint t)
      in case res of
        Ok (ToFrozen m) \<Rightarrow>
          (let dv = dv\<lparr>dv_frozen := dv_frozen dv + 1, dv_ctx := hold_frozen_mounts [m] (dv_ctx dv)\<rparr>;
               dv = publish (\<lambda>p. p\<lparr>pg_frozen := dv_frozen dv\<rparr>) dv
           in (refresh_pass_done dv, Walk rest))
      | Ok (ToBusy m) \<Rightarrow>
          (refresh_pass_done (dv\<lparr>dv_ctx := hold_frozen_mounts [m] (dv_ctx dv)\<rparr>), Walk rest)
      | Ok ToSkipped \<Rightarrow> (dv, Walk rest)
      | Ok ToNotAuthorized \<Rightarrow> (decide dv, Walk rest)
      | Ok (ToFailed stop) \<Rightarrow>
          if dv_abort dv = None
          then (let (cx, held) = take_frozen_mounts (dv_ctx dv) in
                (dv\<lparr>dv_ctx := cx\<rparr>, AwaitRollback (RollbackRunning held mp stop)))
          else (dv, Walk rest)
      | Err err \<Rightarrow>
          after_walk (commit_abort WorkerLost
            (dv\<lparr>dv_uncertain := True,
                dv_unrecoverable := get_or_insert (dv_unrecoverable dv)
                  (mp, ''freeze worker lost ('' @ err @ ''); FIFREEZE outcome unknown'')\<rparr>)))"

definition after_nothing_frozen ::
  "(string, (marker_error, unit) result) result \<Rightarrow> ('k, 'd) driver \<Rightarrow> ('k, 'd) op_state" where
  "after_nothing_frozen res dv =
     (case res of
        Ok (Ok _) \<Rightarrow> (conclude TerminalThawed (Ok 0) dv, OpDone TerminalThawed)
      | Ok (Err e) \<Rightarrow>
          if is_absent e then (conclude TerminalThawed (Ok 0) dv, OpDone TerminalThawed)
          else (conclude TerminalFrozen (Err (FfNothingFrozenMarkerRetained e)) dv, OpDone TerminalFrozen)
      | Err err \<Rightarrow>
          (conclude TerminalFrozen (Err (FfTask (''marker removal lost: '' @ err))) dv, OpDone TerminalFrozen))"

definition after_prep_removal :: "(errno \<Rightarrow> string) \<Rightarrow> freeze_failure \<Rightarrow>
    (string, (marker_error, unit) result) result \<Rightarrow> ('k, 'd) driver \<Rightarrow> ('k, 'd) op_state" where
  "after_prep_removal tx f res dv =
     (case res of
        Ok (Err e) \<Rightarrow>
          if is_absent e then (conclude TerminalThawed (Err f) dv, OpDone TerminalThawed)
          else (conclude TerminalFrozen
                  (Err (FfMarkerRetained ''(preparation)'' (StopUnreachable (freeze_failure_text tx f)) e)) dv,
                OpDone TerminalFrozen)
      | _ \<Rightarrow> (conclude TerminalThawed (Err f) dv, OpDone TerminalThawed))"

definition after_rollback ::
  "(string, freeze_failure \<times> mount list) result \<Rightarrow> ('k, 'd) driver \<Rightarrow> ('k, 'd) op_state" where
  "after_rollback res dv =
     (let (dv, f) = (case res of
            Ok (f, keep) \<Rightarrow> (dv\<lparr>dv_ctx := hold_frozen_mounts keep (dv_ctx dv)\<rparr>, f)
          | Err err \<Rightarrow> (dv\<lparr>dv_uncertain := True\<rparr>, FfTask (''rollback lost: '' @ err)))
      in if retains_frozen_state f \<or> (case f of FfTask _ \<Rightarrow> True | _ \<Rightarrow> False)
         then (conclude TerminalFrozen (Err f) dv, OpDone TerminalFrozen)
         else (conclude TerminalThawed (Err f) dv, OpDone TerminalThawed))"

text \<open>One round of the loop of \<^verbatim>\<open>settle_aborted\<close>, entered when no drain is running.\<close>

definition settle_aborted_round :: "('k, 'd) driver \<Rightarrow> ('k, 'd) op_state" where
  "settle_aborted_round dv =
     (let dv = (case dv_recovery dv of
            Some (DrainDone res) \<Rightarrow> record_recovery res (dv\<lparr>dv_recovery := None\<rparr>)
          | _ \<Rightarrow> dv);
          dv = refresh_pass_done (start_recovery_if_needed dv)
      in if dv_recovery dv \<noteq> None then (dv, SettleAborted)
         else case dv_unrecoverable dv of
           Some _ \<Rightarrow>
             (let dv = dv\<lparr>dv_unrecoverable := None, dv_kept := [],
                          dv_ctx := hold_frozen_mounts (dv_kept dv) (dv_ctx dv)\<rparr>
              in (conclude TerminalFrozen (Err (FfTask ''aborted'')) dv, OpDone TerminalFrozen))
         | None \<Rightarrow> (dv, AwaitAbortedRemoval MarkerRunning))"

definition after_aborted_removal ::
  "(string, (marker_error, unit) result) result \<Rightarrow> ('k, 'd) driver \<Rightarrow> ('k, 'd) op_state" where
  "after_aborted_removal res dv =
     (case res of
        Ok (Ok _) \<Rightarrow> (conclude TerminalThawed (Err (FfTask ''aborted'')) dv, OpDone TerminalThawed)
      | Ok (Err e) \<Rightarrow>
          if is_absent e
          then (conclude TerminalThawed (Err (FfTask ''aborted'')) dv, OpDone TerminalThawed)
          else (conclude TerminalFrozen (Err (FfTask ''aborted'')) dv, OpDone TerminalFrozen)
      | Err err \<Rightarrow> (conclude TerminalFrozen (Err (FfTask ''aborted'')) dv, OpDone TerminalFrozen))"

section \<open>Steps\<close>

text \<open>
  The worker's answer for what \<^verbatim>\<open>FIFREEZE\<close> returned, and the tasks on the kernel and the marker.
\<close>

definition freeze_outcome :: "mount \<Rightarrow> (kernel_error, unit) result \<Rightarrow> target_outcome" where
  "freeze_outcome m r =
     (case r of
        Ok _ \<Rightarrow> ToFrozen m
      | Err e \<Rightarrow> if is_not_supported e then ToSkipped
                 else if is_busy e then ToBusy m
                 else ToFailed (StopIoctl e))"

definition opened_worker :: "(string, mount) result \<Rightarrow> worker_task" where
  "opened_worker r =
     (case r of
        Ok m \<Rightarrow> WorkerOpened m
      | Err attempts \<Rightarrow> WorkerDone (Ok (ToFailed (StopUnreachable attempts))))"

definition set_kernel :: "'k \<Rightarrow> ('k, 'd) driver \<Rightarrow> ('k, 'd) driver" where
  "set_kernel k dv = dv\<lparr>dv_ctx := (dv_ctx dv)\<lparr>cx_kernel := k\<rparr>\<rparr>"

definition set_dir :: "'d \<Rightarrow> ('k, 'd) driver \<Rightarrow> ('k, 'd) driver" where
  "set_dir d dv = dv\<lparr>dv_ctx := (dv_ctx dv)\<lparr>cx_dir := d\<rparr>\<rparr>"

text \<open>\<^verbatim>\<open>abort_signal\<close> is ready; the first branch of \<^verbatim>\<open>await_tracked\<close> while nothing was aborted.\<close>

definition signal_ready :: "('k, 'd) driver \<Rightarrow> bool" where
  "signal_ready dv \<longleftrightarrow> fo_notified (dv_op dv) \<or> cx_now (dv_ctx dv) \<ge> fo_deadline (dv_op dv)"

definition take_abort :: "('k, 'd) driver \<Rightarrow> ('k, 'd) driver" where
  "take_abort dv =
     (if fo_notified (dv_op dv)
      then commit_abort ThawRequested (dv\<lparr>dv_op := (dv_op dv)\<lparr>fo_notified := False\<rparr>\<rparr>)
      else commit_abort Deadline dv)"

fun abortable :: "pc \<Rightarrow> bool" where
  "abortable (AwaitPrep _ _) = True"
| "abortable (AwaitWorker _ _ _) = True"
| "abortable _ = False"

fun awaiting :: "pc \<Rightarrow> bool" where
  "awaiting (Walk _) = False"
| "awaiting SettleAborted = False"
| "awaiting (OpDone _) = False"
| "awaiting _ = True"

definition armed_signal :: "('k, 'd) driver \<Rightarrow> pc \<Rightarrow> bool" where
  "armed_signal dv q \<longleftrightarrow> abortable q \<and> dv_abort dv = None \<and> signal_ready dv"

fun drain_finished :: "drain_task option \<Rightarrow> bool" where
  "drain_finished (Some (DrainDone _)) = True"
| "drain_finished _ = False"

text \<open>The completion branch is taken when neither branch before it is ready.\<close>

definition may_complete :: "('k, 'd) driver \<Rightarrow> pc \<Rightarrow> bool" where
  "may_complete dv q \<longleftrightarrow> \<not> armed_signal dv q \<and> \<not> drain_finished (dv_recovery dv)"

text \<open>What the driver does with a completed task.\<close>

fun complete :: "(errno \<Rightarrow> string) \<Rightarrow> pc \<Rightarrow> ('k, 'd) driver \<Rightarrow> ('k, 'd) op_state option" where
  "complete tx (AwaitPrep restrict (PrepDone res)) dv = Some (after_prep res dv)"
| "complete tx (AwaitWorker t rest (WorkerDone res)) dv = Some (after_worker t rest res dv)"
| "complete tx (AwaitNothingFrozen (MarkerDone res)) dv = Some (after_nothing_frozen res dv)"
| "complete tx (AwaitPrepRemoval f (MarkerDone res)) dv = Some (after_prep_removal tx f res dv)"
| "complete tx (AwaitRollback (RollbackDone res)) dv = Some (after_rollback res dv)"
| "complete tx (AwaitAbortedRemoval (MarkerDone res)) dv = Some (after_aborted_removal res dv)"
| "complete tx _ dv = None"

text \<open>The tasks that remove the marker.\<close>

fun removal_task :: "pc \<Rightarrow> (marker_task \<Rightarrow> pc) option" where
  "removal_task (AwaitNothingFrozen MarkerRunning) = Some AwaitNothingFrozen"
| "removal_task (AwaitPrepRemoval f MarkerRunning) = Some (AwaitPrepRemoval f)"
| "removal_task (AwaitAbortedRemoval MarkerRunning) = Some AwaitAbortedRemoval"
| "removal_task _ = None"

text \<open>The preparation task: the plan from what the mount table holds now, then the marker.\<close>

definition run_prep :: "('k, 'd) freeze_env \<Rightarrow> (error, mount_entry list) result \<Rightarrow> path list option
    \<Rightarrow> ('k, 'd) driver \<Rightarrow> ('k, 'd) driver \<times> (freeze_failure, freeze_plan) result" where
  "run_prep E entries restrict dv =
     (case build_plan FfPlan entries restrict of
        Err f \<Rightarrow> (dv, Err f)
      | Ok plan \<Rightarrow>
          (let (d, r) = marker_create (en_dir E) (cx_dir (dv_ctx dv)) (en_marker E) in
           (set_dir d dv, case r of Ok _ \<Rightarrow> Ok plan | Err e \<Rightarrow> Err (FfMarker e))))"

inductive op_step :: "('k, 'd) freeze_env \<Rightarrow> ('k, 'd) op_state \<Rightarrow> ('k, 'd) op_state \<Rightarrow> bool"
  for E :: "('k, 'd) freeze_env" where
  os_time: "op_step E (dv, q) (dv\<lparr>dv_ctx := (dv_ctx dv)\<lparr>cx_now := cx_now (dv_ctx dv) + n\<rparr>\<rparr>, q)"
| os_request: "op_step E (dv, q) (dv\<lparr>dv_op := fst (request_abort (dv_op dv))\<rparr>, q)"
| os_notify: "fo_outcome (dv_op dv) = OUTCOME_ABORTING \<Longrightarrow>
    op_step E (dv, q) (dv\<lparr>dv_op := notify_abort (dv_op dv)\<rparr>, q)"
| os_prep: "en_mounts E entries \<Longrightarrow> run_prep E entries restrict dv = (dv', r) \<Longrightarrow>
    op_step E (dv, AwaitPrep restrict PrepRunning) (dv', AwaitPrep restrict (PrepDone (Ok r)))"
| os_prep_lost: "op_step E (dv, AwaitPrep restrict PrepRunning) (dv, AwaitPrep restrict (PrepDone (Err err)))"
| os_prep_lost_late: "en_mounts E entries \<Longrightarrow> run_prep E entries restrict dv = (dv', r) \<Longrightarrow>
    op_step E (dv, AwaitPrep restrict PrepRunning) (dv', AwaitPrep restrict (PrepDone (Err err)))"
| os_open: "open_target (en_tx E) (en_kernel E) (cx_kernel (dv_ctx dv)) t = (k, r) \<Longrightarrow>
    op_step E (dv, AwaitWorker t ts WorkerSpawned)
      (set_kernel k dv, AwaitWorker t ts (opened_worker r))"
| os_check: "op_step E (dv, AwaitWorker t ts (WorkerOpened m))
    (dv, AwaitWorker t ts
      (if authorises (cx_now (dv_ctx dv)) (dv_op dv) then WorkerAuthorised m
       else WorkerDone (Ok ToNotAuthorized)))"
| os_ioctl: "k_fifreeze (en_kernel E) (cx_kernel (dv_ctx dv)) m = (k, r) \<Longrightarrow>
    op_step E (dv, AwaitWorker t ts (WorkerAuthorised m))
      (set_kernel k dv, AwaitWorker t ts (WorkerDone (Ok (freeze_outcome m r))))"
| os_ioctl_lost: "k_fifreeze (en_kernel E) (cx_kernel (dv_ctx dv)) m = (k, r) \<Longrightarrow>
    op_step E (dv, AwaitWorker t ts (WorkerAuthorised m))
      (set_kernel k dv, AwaitWorker t ts (WorkerDone (Err err)))"
| os_worker_lost: "\<forall>res. w \<noteq> WorkerDone res \<Longrightarrow>
    op_step E (dv, AwaitWorker t ts w) (dv, AwaitWorker t ts (WorkerDone (Err err)))"
| os_drain: "dv_recovery dv = Some (DrainRunning (m # ms) rc keep inc) \<Longrightarrow>
    drain_held_step (en_tx E) (en_kernel E) m (cx_kernel (dv_ctx dv), rc, keep, inc) = (k, rc', keep', inc') \<Longrightarrow>
    op_step E (dv, q) (set_kernel k (dv\<lparr>dv_recovery := Some (DrainRunning ms rc' keep' inc')\<rparr>), q)"
| os_drain_end: "dv_recovery dv = Some (DrainRunning [] rc keep inc) \<Longrightarrow>
    op_step E (dv, q)
      (dv\<lparr>dv_recovery := Some (DrainDone (Ok \<lparr>rp_recovered = rc, rp_keep = keep, rp_incomplete = inc\<rparr>))\<rparr>, q)"
| os_drain_lost: "dv_recovery dv = Some (DrainRunning ms rc keep inc) \<Longrightarrow>
    op_step E (dv, q) (dv\<lparr>dv_recovery := Some (DrainDone (Err err))\<rparr>, q)"
| os_remove: "removal_task q = Some mk \<Longrightarrow>
    marker_remove (en_dir E) (cx_dir (dv_ctx dv)) (en_marker E) = (d, r) \<Longrightarrow>
    op_step E (dv, q) (set_dir d dv, mk (MarkerDone (Ok r)))"
| os_remove_lost: "removal_task q = Some mk \<Longrightarrow> op_step E (dv, q) (dv, mk (MarkerDone (Err err)))"
| os_remove_lost_late: "removal_task q = Some mk \<Longrightarrow>
    marker_remove (en_dir E) (cx_dir (dv_ctx dv)) (en_marker E) = (d, r) \<Longrightarrow>
    op_step E (dv, q) (set_dir d dv, mk (MarkerDone (Err err)))"
| os_rollback:
    "rollback (en_tx E) (en_kernel E) (en_dir E) (en_marker E) (cx_kernel (dv_ctx dv)) (cx_dir (dv_ctx dv))
       held failed stop = (k, d, keep, f) \<Longrightarrow>
    op_step E (dv, AwaitRollback (RollbackRunning held failed stop))
      (set_dir d (set_kernel k dv), AwaitRollback (RollbackDone (Ok (f, keep))))"
| os_rollback_lost: "op_step E (dv, AwaitRollback (RollbackRunning held failed stop))
    (dv, AwaitRollback (RollbackDone (Err err)))"
| os_rollback_lost_late:
    "rollback (en_tx E) (en_kernel E) (en_dir E) (en_marker E) (cx_kernel (dv_ctx dv)) (cx_dir (dv_ctx dv))
       held failed stop = (k, d, keep, f) \<Longrightarrow>
    op_step E (dv, AwaitRollback (RollbackRunning held failed stop))
      (set_dir d (set_kernel k dv), AwaitRollback (RollbackDone (Err err)))"
| os_abort: "armed_signal dv q \<Longrightarrow> op_step E (dv, q) (take_abort dv, q)"
| os_recovered: "awaiting q \<Longrightarrow> \<not> armed_signal dv q \<Longrightarrow> dv_recovery dv = Some (DrainDone res) \<Longrightarrow>
    op_step E (dv, q)
      (refresh_pass_done (start_recovery_if_needed (record_recovery res (dv\<lparr>dv_recovery := None\<rparr>))), q)"
| os_complete: "complete (en_tx E) q dv = Some s \<Longrightarrow> may_complete dv q \<Longrightarrow> op_step E (dv, q) s"
| os_walk: "op_step E (dv, Walk ts) (walk_round ts dv)"
| os_settle: "dv_recovery dv = None \<or> drain_finished (dv_recovery dv) \<Longrightarrow>
    op_step E (dv, SettleAborted) (settle_aborted_round dv)"

section \<open>The control invariant\<close>

text \<open>While nothing was aborted, and after the abort committed.\<close>

definition walking :: "('k, 'd) driver \<Rightarrow> bool" where
  "walking dv \<longleftrightarrow> dv_abort dv = None \<and> dv_token dv \<noteq> None \<and> dv_thaw_token dv = None \<and>
     fsm_state (cx_state (dv_ctx dv)) = Freezing \<and> dv_reply dv = None \<and> dv_recovery dv = None \<and>
     dv_kept dv = [] \<and> dv_unrecoverable dv = None \<and> \<not> dv_uncertain dv \<and> \<not> fo_aborted (dv_op dv) \<and>
     pg_settled (fo_progress (dv_op dv)) = None"

definition recovering :: "('k, 'd) driver \<Rightarrow> bool" where
  "recovering dv \<longleftrightarrow> dv_abort dv \<noteq> None \<and> dv_token dv = None \<and> dv_thaw_token dv \<noteq> None \<and>
     fsm_state (cx_state (dv_ctx dv)) = Thawing \<and> (\<exists>e. dv_reply dv = Some (Err e)) \<and>
     fo_outcome (dv_op dv) = OUTCOME_ABORTING \<and> fo_aborted (dv_op dv) \<and>
     pg_settled (fo_progress (dv_op dv)) = None"

definition uncommitted :: "('k, 'd) driver \<Rightarrow> bool" where
  "uncommitted dv \<longleftrightarrow> walking dv \<and> fo_outcome (dv_op dv) \<noteq> OUTCOME_COMMITTED"

definition concluded :: "terminal \<Rightarrow> ('k, 'd) driver \<Rightarrow> bool" where
  "concluded fin dv \<longleftrightarrow> dv_token dv = None \<and> dv_thaw_token dv = None \<and> dv_reply dv \<noteq> None \<and>
     fsm_state (cx_state (dv_ctx dv)) = (if fin = TerminalThawed then Thawed else Frozen) \<and>
     pg_settled (fo_progress (dv_op dv)) = Some (if fin = TerminalThawed then Thawed else Frozen) \<and>
     cx_freeze_op (dv_ctx dv) \<noteq> Some (fo_id (dv_op dv)) \<and> fo_outcome (dv_op dv) \<noteq> OUTCOME_OPEN \<and>
     cx_thaw_scope (dv_ctx dv) = (if fin = TerminalFrozen \<and> \<not> dv_uncertain dv then Tracked else Discovery) \<and>
     (\<forall>n. dv_reply dv = Some (Ok n) \<longrightarrow> fo_outcome (dv_op dv) = OUTCOME_COMMITTED)"

fun control_inv :: "('k, 'd) op_state \<Rightarrow> bool" where
  "control_inv (dv, AwaitPrep _ _) \<longleftrightarrow> uncommitted dv \<or> recovering dv"
| "control_inv (dv, Walk _) \<longleftrightarrow> uncommitted dv \<or> recovering dv"
| "control_inv (dv, AwaitWorker _ _ _) \<longleftrightarrow> uncommitted dv \<or> recovering dv"
| "control_inv (dv, AwaitNothingFrozen _) \<longleftrightarrow>
     walking dv \<and> fo_outcome (dv_op dv) = OUTCOME_COMMITTED \<and> cx_frozen_mounts (dv_ctx dv) = []"
| "control_inv (dv, AwaitPrepRemoval f _) \<longleftrightarrow> uncommitted dv"
| "control_inv (dv, AwaitRollback _) \<longleftrightarrow> uncommitted dv \<and> cx_frozen_mounts (dv_ctx dv) = []"
| "control_inv (dv, SettleAborted) \<longleftrightarrow> recovering dv"
| "control_inv (dv, AwaitAbortedRemoval _) \<longleftrightarrow>
     recovering dv \<and> dv_recovery dv = None \<and> cx_frozen_mounts (dv_ctx dv) = [] \<and> dv_unrecoverable dv = None"
| "control_inv (dv, OpDone fin) \<longleftrightarrow> concluded fin dv"

text \<open>The contexts an operation starts in: the request moved the machine into \<^verbatim>\<open>Freezing\<close>.\<close>

definition op_start :: "('k, 'd) ctx \<Rightarrow> ('k, 'd) op_state \<Rightarrow> bool" where
  "op_start cx s \<longleftrightarrow> fsm_state (cx_state cx) = Freezing \<and> (\<exists>i restrict. s = start_op i cx FreezeToken restrict)"

section \<open>Lemmas on the driver\<close>

lemmas driver_defs =
  publish_def send_reply_def refresh_pass_done_def start_recovery_if_needed_def
  record_recovery_def set_kernel_def set_dir_def

lemma recovering_frame [frame_simps]:
  "recovering (refresh_pass_done dv) = recovering dv"
  "recovering (start_recovery_if_needed dv) = recovering dv"
  "recovering (record_recovery res dv) = recovering dv"
  "recovering (set_kernel k dv) = recovering dv"
  "recovering (set_dir d dv) = recovering dv"
  "recovering (dv\<lparr>dv_recovery := dr\<rparr>) = recovering dv"
  "recovering (dv\<lparr>dv_kept := ms\<rparr>) = recovering dv"
  "recovering (dv\<lparr>dv_frozen := n\<rparr>) = recovering dv"
  "recovering (dv\<lparr>dv_unrecoverable := u\<rparr>) = recovering dv"
  "recovering (dv\<lparr>dv_ctx := hold_frozen_mounts ms (dv_ctx dv)\<rparr>) = recovering dv"
  "recovering (publish (\<lambda>p. p\<lparr>pg_in_flight := x\<rparr>) dv) = recovering dv"
  "recovering (publish (\<lambda>p. p\<lparr>pg_frozen := y\<rparr>) dv) = recovering dv"
  by (auto simp: recovering_def driver_defs Let_def slot_defs split: sum.splits)

lemma walking_frame [frame_simps]:
  "walking (set_kernel k dv) = walking dv"
  "walking (set_dir d dv) = walking dv"
  "walking (refresh_pass_done dv) = walking dv"
  "walking (dv\<lparr>dv_frozen := n\<rparr>) = walking dv"
  "walking (dv\<lparr>dv_ctx := hold_frozen_mounts ms (dv_ctx dv)\<rparr>) = walking dv"
  "walking (dv\<lparr>dv_ctx := fst (take_frozen_mounts (dv_ctx dv))\<rparr>) = walking dv"
  "walking (publish (\<lambda>p. p\<lparr>pg_in_flight := x\<rparr>) dv) = walking dv"
  "walking (publish (\<lambda>p. p\<lparr>pg_frozen := y\<rparr>) dv) = walking dv"
  by (auto simp: walking_def driver_defs Let_def slot_defs)

lemma set_frame [frame_simps]:
  "cx_frozen_mounts (dv_ctx (set_kernel k dv)) = cx_frozen_mounts (dv_ctx dv)"
  "cx_frozen_mounts (dv_ctx (set_dir d dv)) = cx_frozen_mounts (dv_ctx dv)"
  "cx_kernel (dv_ctx (set_kernel k dv)) = k" "cx_kernel (dv_ctx (set_dir d dv)) = cx_kernel (dv_ctx dv)"
  "cx_dir (dv_ctx (set_kernel k dv)) = cx_dir (dv_ctx dv)" "cx_dir (dv_ctx (set_dir d dv)) = d"
  "dv_recovery (set_kernel k dv) = dv_recovery dv" "dv_recovery (set_dir d dv) = dv_recovery dv"
  "dv_kept (set_kernel k dv) = dv_kept dv" "dv_kept (set_dir d dv) = dv_kept dv"
  "dv_uncertain (set_kernel k dv) = dv_uncertain dv" "dv_uncertain (set_dir d dv) = dv_uncertain dv"
  "dv_unrecoverable (set_kernel k dv) = dv_unrecoverable dv"
  "dv_unrecoverable (set_dir d dv) = dv_unrecoverable dv"
  "dv_reply (set_kernel k dv) = dv_reply dv" "dv_reply (set_dir d dv) = dv_reply dv"
  "dv_op (set_kernel k dv) = dv_op dv" "dv_op (set_dir d dv) = dv_op dv"
  by (simp_all add: set_kernel_def set_dir_def)

lemma outcome_frame [frame_simps]:
  "fo_outcome (dv_op (set_kernel k dv)) = fo_outcome (dv_op dv)"
  "fo_outcome (dv_op (set_dir d dv)) = fo_outcome (dv_op dv)"
  "fo_outcome (dv_op (refresh_pass_done dv)) = fo_outcome (dv_op dv)"
  "fo_outcome (dv_op (publish f dv)) = fo_outcome (dv_op dv)"
  by (simp_all add: driver_defs Let_def)

lemma commit_abort_recovering:
  assumes "dv_abort dv = None" "dv_token dv \<noteq> None" "dv_reply dv = None"
    "fo_outcome (dv_op dv) \<noteq> OUTCOME_COMMITTED" "pg_settled (fo_progress (dv_op dv)) = None"
  shows "recovering (commit_abort cause dv)"
proof -
  have "mark_aborting (dv_op dv) = (dv_op dv)\<lparr>fo_outcome := OUTCOME_ABORTING\<rparr>"
    using assms(4) by (cases "fo_outcome (dv_op dv)") (simp_all add: mark_aborting_def)
  with assms show ?thesis
    by (auto simp: commit_abort_def recovering_def driver_defs abort_freeze_def Let_def slot_defs frame_simps)
qed

lemma uncommitted_commit_abort: "uncommitted dv \<Longrightarrow> recovering (commit_abort cause dv)"
  by (intro commit_abort_recovering) (auto simp: uncommitted_def walking_def)

lemma recovering_commit_abort [simp]: "recovering dv \<Longrightarrow> commit_abort cause dv = dv"
  by (simp add: commit_abort_def recovering_def)

lemma decide_cases:
  "uncommitted dv \<Longrightarrow> uncommitted (decide dv) \<and> decide dv = dv \<and> fo_outcome (dv_op dv) = OUTCOME_OPEN \<or>
     recovering (decide dv) \<and> (\<exists>c. decide dv = commit_abort c dv)"
  "recovering dv \<Longrightarrow> decide dv = dv"
proof -
  assume u: "uncommitted dv"
  show "uncommitted (decide dv) \<and> decide dv = dv \<and> fo_outcome (dv_op dv) = OUTCOME_OPEN \<or>
     recovering (decide dv) \<and> (\<exists>c. decide dv = commit_abort c dv)"
  proof (cases "abort_due (cx_now (dv_ctx dv)) (dv_op dv)")
    case None
    then have "fo_outcome (dv_op dv) = OUTCOME_OPEN"
      using u by (cases "fo_outcome (dv_op dv)") (auto simp: abort_due_def uncommitted_def split: if_splits)
    then show ?thesis using u None by (auto simp: decide_def)
  next
    case (Some c)
    then have "decide dv = commit_abort c dv" using u by (simp add: decide_def uncommitted_def walking_def)
    then show ?thesis using uncommitted_commit_abort [OF u] by auto
  qed
qed (auto simp: decide_def recovering_def)

lemma try_commit_outcome:
  "fo_outcome (fst (try_commit op)) =
     (if fo_outcome op = OUTCOME_OPEN then OUTCOME_COMMITTED else fo_outcome op)"
  "fo_id (fst (try_commit op)) = fo_id op" "fo_progress (fst (try_commit op)) = fo_progress op"
  "fo_aborted (fst (try_commit op)) = fo_aborted op"
  by (simp_all add: try_commit_def)

lemmas settle_ops =
  freeze_failed_def freeze_succeeded_def thaw_failed_def thaw_succeeded_def

text \<open>What each part of a conclusion leaves, field by field.\<close>

lemma send_reply_fields [frame_simps]:
  "dv_ctx (send_reply r dv) = dv_ctx dv" "dv_op (send_reply r dv) = dv_op dv"
  "dv_token (send_reply r dv) = dv_token dv" "dv_thaw_token (send_reply r dv) = dv_thaw_token dv"
  "dv_uncertain (send_reply r dv) = dv_uncertain dv" "dv_recovery (send_reply r dv) = dv_recovery dv"
  "dv_kept (send_reply r dv) = dv_kept dv"
  "dv_reply (send_reply r dv) = (case dv_reply dv of None \<Rightarrow> Some r | Some x \<Rightarrow> Some x)"
  by (simp_all add: send_reply_def split: option.splits)

lemma publish_state_fields [frame_simps]:
  "dv_reply (publish_state fin dv) = dv_reply dv" "dv_op (publish_state fin dv) = dv_op dv"
  "dv_token (publish_state fin dv) = None"
  "dv_thaw_token (publish_state fin dv) = (if dv_token dv = None then None else dv_thaw_token dv)"
  "dv_uncertain (publish_state fin dv) = dv_uncertain dv"
  "dv_recovery (publish_state fin dv) = dv_recovery dv" "dv_kept (publish_state fin dv) = dv_kept dv"
  "cx_kernel (dv_ctx (publish_state fin dv)) = cx_kernel (dv_ctx dv)"
  "cx_dir (dv_ctx (publish_state fin dv)) = cx_dir (dv_ctx dv)"
  "cx_frozen_mounts (dv_ctx (publish_state fin dv)) = cx_frozen_mounts (dv_ctx dv)"
  "cx_thaw_scope (dv_ctx (publish_state fin dv)) = cx_thaw_scope (dv_ctx dv)"
  "cx_freeze_op (dv_ctx (publish_state fin dv)) = cx_freeze_op (dv_ctx dv)"
  "cx_audit_ring (dv_ctx (publish_state fin dv)) = cx_audit_ring (dv_ctx dv)"
  "fsm_state (cx_state (dv_ctx (publish_state fin dv))) =
     (if dv_token dv = None \<and> dv_thaw_token dv = None then fsm_state (cx_state (dv_ctx dv))
      else if fin = TerminalThawed then Thawed else Frozen)"
  by (simp_all add: publish_state_def Let_def settle_ops split: option.splits)

lemma commit_outcome_fields [frame_simps]:
  "dv_ctx (commit_outcome dv) = dv_ctx dv"
  "dv_op (commit_outcome dv) = fst (try_commit (dv_op dv))"
  "dv_token (commit_outcome dv) = dv_token dv"
  "dv_thaw_token (commit_outcome dv) = dv_thaw_token dv"
  "dv_reply (commit_outcome dv) = dv_reply dv"
  "dv_uncertain (commit_outcome dv) = dv_uncertain dv"
  "dv_recovery (commit_outcome dv) = dv_recovery dv"
  "dv_kept (commit_outcome dv) = dv_kept dv"
  by (simp_all add: commit_outcome_def)

lemma finalise_fields [frame_simps]:
  "dv_ctx (finalise fin dv) = (if fin = TerminalThawed then on_thawed (dv_ctx dv) else dv_ctx dv)"
  "dv_op (finalise fin dv) = dv_op dv"
  "dv_token (finalise fin dv) = dv_token dv"
  "dv_thaw_token (finalise fin dv) = dv_thaw_token dv"
  "dv_reply (finalise fin dv) = dv_reply dv"
  "dv_uncertain (finalise fin dv) = dv_uncertain dv"
  "dv_recovery (finalise fin dv) = dv_recovery dv"
  "dv_kept (finalise fin dv) = dv_kept dv"
  by (simp_all add: finalise_def)

lemma retire_op_fields [frame_simps]:
  "dv_ctx (retire_op dv) = retire_freeze_op (fo_id (dv_op dv)) (dv_ctx dv)"
  "dv_op (retire_op dv) = dv_op dv"
  "dv_token (retire_op dv) = dv_token dv"
  "dv_thaw_token (retire_op dv) = dv_thaw_token dv"
  "dv_reply (retire_op dv) = dv_reply dv"
  "dv_uncertain (retire_op dv) = dv_uncertain dv"
  "dv_recovery (retire_op dv) = dv_recovery dv"
  "dv_kept (retire_op dv) = dv_kept dv"
  by (simp_all add: retire_op_def)

lemma record_scope_fields [frame_simps]:
  "dv_ctx (record_scope fin dv) = set_thaw_scope (if fin = TerminalFrozen \<and> \<not> dv_uncertain dv then Tracked else Discovery) (dv_ctx dv)"
  "dv_op (record_scope fin dv) = dv_op dv"
  "dv_token (record_scope fin dv) = dv_token dv"
  "dv_thaw_token (record_scope fin dv) = dv_thaw_token dv"
  "dv_reply (record_scope fin dv) = dv_reply dv"
  "dv_uncertain (record_scope fin dv) = dv_uncertain dv"
  "dv_recovery (record_scope fin dv) = dv_recovery dv"
  "dv_kept (record_scope fin dv) = dv_kept dv"
  by (simp_all add: record_scope_def)

lemma enter_terminal_fields [frame_simps]:
  "dv_ctx (enter_terminal fin dv) = (if fin = TerminalFrozen then calls_on_frozen (dv_ctx dv) else dv_ctx dv)"
  "dv_op (enter_terminal fin dv) = dv_op dv"
  "dv_token (enter_terminal fin dv) = dv_token dv"
  "dv_thaw_token (enter_terminal fin dv) = dv_thaw_token dv"
  "dv_reply (enter_terminal fin dv) = dv_reply dv"
  "dv_uncertain (enter_terminal fin dv) = dv_uncertain dv"
  "dv_recovery (enter_terminal fin dv) = dv_recovery dv"
  "dv_kept (enter_terminal fin dv) = dv_kept dv"
  by (simp_all add: enter_terminal_def)

lemma announce_fields [frame_simps]:
  "dv_ctx (announce fin dv) = dv_ctx dv"
  "dv_token (announce fin dv) = dv_token dv"
  "dv_thaw_token (announce fin dv) = dv_thaw_token dv"
  "dv_reply (announce fin dv) = dv_reply dv"
  "dv_uncertain (announce fin dv) = dv_uncertain dv"
  "dv_recovery (announce fin dv) = dv_recovery dv"
  "dv_kept (announce fin dv) = dv_kept dv"
  "fo_outcome (dv_op (announce fin dv)) = fo_outcome (dv_op dv)"
  "fo_id (dv_op (announce fin dv)) = fo_id (dv_op dv)"
  "pg_settled (fo_progress (dv_op (announce fin dv))) = Some (if fin = TerminalThawed then Thawed else Frozen)"
  by (simp_all add: announce_def publish_def)

lemma retire_slot: "cx_freeze_op (retire_freeze_op i cx) \<noteq> Some i"
  by (simp add: retire_freeze_op_def)

lemma conclude_fields:
  "dv_reply (conclude fin r dv) = (case dv_reply dv of None \<Rightarrow> Some r | Some x \<Rightarrow> Some x)"
  "dv_token (conclude fin r dv) = None"
  "dv_thaw_token (conclude fin r dv) = (if dv_token dv = None then None else dv_thaw_token dv)"
  "dv_uncertain (conclude fin r dv) = dv_uncertain dv"
  "dv_recovery (conclude fin r dv) = dv_recovery dv"
  "dv_kept (conclude fin r dv) = dv_kept dv"
  "fo_outcome (dv_op (conclude fin r dv)) =
     (if fo_outcome (dv_op dv) = OUTCOME_OPEN then OUTCOME_COMMITTED else fo_outcome (dv_op dv))"
  "fo_id (dv_op (conclude fin r dv)) = fo_id (dv_op dv)"
  "pg_settled (fo_progress (dv_op (conclude fin r dv))) =
     Some (if fin = TerminalThawed then Thawed else Frozen)"
  unfolding conclude_def Let_def
  by (cases fin; simp add: frame_simps try_commit_outcome)+

lemma conclude_ctx:
  "cx_kernel (dv_ctx (conclude fin r dv)) = cx_kernel (dv_ctx dv)"
  "cx_dir (dv_ctx (conclude fin r dv)) = cx_dir (dv_ctx dv)"
  "cx_frozen_mounts (dv_ctx (conclude fin r dv)) = cx_frozen_mounts (dv_ctx dv)"
  "cx_thaw_scope (dv_ctx (conclude fin r dv)) =
     (if fin = TerminalFrozen \<and> \<not> dv_uncertain dv then Tracked else Discovery)"
  "cx_freeze_op (dv_ctx (conclude fin r dv)) \<noteq> Some (fo_id (dv_op dv))"
  "dv_token dv \<noteq> None \<or> dv_thaw_token dv \<noteq> None \<Longrightarrow>
   fsm_state (cx_state (dv_ctx (conclude fin r dv))) = (if fin = TerminalThawed then Thawed else Frozen)"
  unfolding conclude_def Let_def
  by (cases fin; auto simp: frame_simps try_commit_outcome set_thaw_scope_def retire_slot)+

lemma conclude_concluded:
  assumes "walking dv \<and> (\<forall>n. r = Ok n \<longrightarrow> fo_outcome (dv_op dv) = OUTCOME_COMMITTED) \<or> recovering dv"
  shows "concluded fin (conclude fin r dv)"
  using assms
  by (auto simp: concluded_def conclude_fields conclude_ctx walking_def recovering_def)

section \<open>The control invariant is kept\<close>

definition in_walk :: "('k, 'd) driver \<Rightarrow> bool" where
  "in_walk dv \<longleftrightarrow> uncommitted dv \<or> recovering dv"

lemma recovering_abort: "recovering dv \<Longrightarrow> dv_abort dv \<noteq> None"
  by (simp add: recovering_def)

lemma uncommitted_abort: "uncommitted dv \<Longrightarrow> dv_abort dv = None"
  by (simp add: uncommitted_def walking_def)

lemma uncommitted_frame [frame_simps]:
  "uncommitted (set_kernel k dv) = uncommitted dv"
  "uncommitted (set_dir d dv) = uncommitted dv"
  "uncommitted (refresh_pass_done dv) = uncommitted dv"
  "uncommitted (dv\<lparr>dv_frozen := n\<rparr>) = uncommitted dv"
  "uncommitted (dv\<lparr>dv_ctx := hold_frozen_mounts ms (dv_ctx dv)\<rparr>) = uncommitted dv"
  "uncommitted (publish (\<lambda>p. p\<lparr>pg_in_flight := x\<rparr>) dv) = uncommitted dv"
  "uncommitted (publish (\<lambda>p. p\<lparr>pg_frozen := y\<rparr>) dv) = uncommitted dv"
  by (simp_all add: uncommitted_def frame_simps)

lemma conclude_inv:
  "walking dv \<Longrightarrow> control_inv (conclude fin (Err e) dv, OpDone fin)"
  "recovering dv \<Longrightarrow> control_inv (conclude fin r dv, OpDone fin)"
  "walking dv \<Longrightarrow> fo_outcome (dv_op dv) = OUTCOME_COMMITTED \<Longrightarrow> control_inv (conclude fin r dv, OpDone fin)"
  by (simp_all add: conclude_concluded)

lemma walking_commit:
  assumes "walking dv" "try_commit (dv_op dv) = (op, True)"
  shows "walking (dv\<lparr>dv_op := op\<rparr>)" "fo_outcome op = OUTCOME_COMMITTED"
  using assms by (auto simp: walking_def try_commit_def split: if_splits)

lemma after_walk_inv: "in_walk dv \<Longrightarrow> control_inv (after_walk dv)"
proof -
  assume "in_walk dv"
  then consider (rec) "recovering (decide dv)"
    | (go) "uncommitted dv" "decide dv = dv" "fo_outcome (dv_op dv) = OUTCOME_OPEN"
    using decide_cases unfolding in_walk_def by metis
  then show ?thesis
  proof cases
    case rec
    then show ?thesis using recovering_abort [OF rec] by (auto simp: after_walk_def Let_def)
  next
    case go
    obtain op where tc: "try_commit (dv_op dv) = (op, True)"
      using go(3) by (simp add: try_commit_def)
    have w: "walking dv" using go(1) by (simp add: uncommitted_def)
    note wc = walking_commit [OF w tc]
    show ?thesis
      using go tc wc conclude_inv(3) [OF wc(1)]
      by (auto simp: after_walk_def Let_def uncommitted_abort frozen_mount_count_def)
  qed
qed

lemma in_walk_frame [frame_simps]:
  "in_walk (set_kernel k dv) = in_walk dv"
  "in_walk (set_dir d dv) = in_walk dv"
  "in_walk (refresh_pass_done dv) = in_walk dv"
  "in_walk (dv\<lparr>dv_frozen := n\<rparr>) = in_walk dv"
  "in_walk (dv\<lparr>dv_ctx := hold_frozen_mounts ms (dv_ctx dv)\<rparr>) = in_walk dv"
  "in_walk (publish (\<lambda>p. p\<lparr>pg_in_flight := x\<rparr>) dv) = in_walk dv"
  "in_walk (publish (\<lambda>p. p\<lparr>pg_frozen := y\<rparr>) dv) = in_walk dv"
  by (simp_all add: in_walk_def frame_simps)

lemma in_walk_decide: "in_walk dv \<Longrightarrow> in_walk (decide dv)"
  using decide_cases unfolding in_walk_def by metis

lemma walk_round_inv: "in_walk dv \<Longrightarrow> control_inv (walk_round ts dv)"
  using after_walk_inv in_walk_decide [of dv]
  by (auto simp: walk_round_def Let_def in_walk_def frame_simps split: list.splits)

lemma in_walk_control:
  "control_inv (dv, Walk ts) = in_walk dv" "control_inv (dv, AwaitWorker t ts w) = in_walk dv"
  "control_inv (dv, AwaitPrep r p) = in_walk dv"
  by (simp_all add: in_walk_def)

lemma worker_lost_recovering:
  assumes "in_walk dv"
  shows "recovering (commit_abort WorkerLost (dv\<lparr>dv_uncertain := True, dv_unrecoverable := u\<rparr>))"
proof (cases "uncommitted dv")
  case True
  then show ?thesis
    by (intro commit_abort_recovering) (auto simp: uncommitted_def walking_def)
next
  case False
  then have "recovering (dv\<lparr>dv_uncertain := True, dv_unrecoverable := u\<rparr>)"
    using assms by (simp add: in_walk_def recovering_def)
  then show ?thesis by simp
qed

lemma after_worker_inv:
  assumes "in_walk dv"
  shows "control_inv (after_worker t rest res dv)"
proof -
  define pv where "pv = publish (\<lambda>p. p\<lparr>pg_in_flight := None\<rparr>) dv"
  have iw: "in_walk pv" using assms by (simp add: pv_def frame_simps)
  have lost: "control_inv (after_walk (commit_abort WorkerLost (pv\<lparr>dv_uncertain := True, dv_unrecoverable := u\<rparr>)))"
    for u by (rule after_walk_inv) (use worker_lost_recovering [OF iw] in_walk_def in blast)
  have held: "uncommitted pv \<Longrightarrow> uncommitted (pv\<lparr>dv_ctx := (dv_ctx pv)\<lparr>cx_frozen_mounts := []\<rparr>\<rparr>)"
    by (auto simp: uncommitted_def walking_def)
  have frozen: "in_walk (pv\<lparr>dv_frozen := n, dv_ctx := hold_frozen_mounts ms (dv_ctx pv)\<rparr>)" for n ms
    using iw in_walk_frame(5) [of ms "pv\<lparr>dv_frozen := n\<rparr>"] by (simp add: frame_simps)
  show ?thesis
  proof (cases res)
    case (Inl err)
    then show ?thesis using lost by (simp add: after_worker_def pv_def [symmetric] Let_def)
  next
    case (Inr oc)
    then show ?thesis
      using iw held frozen in_walk_decide [OF iw] recovering_abort [of pv]
      by (cases oc)
         (auto simp: after_worker_def pv_def [symmetric] Let_def in_walk_control frame_simps
           take_frozen_mounts_def in_walk_def)
  qed
qed

lemma settle_before_ioctl_inv: "in_walk dv \<Longrightarrow> control_inv (settle_before_ioctl f dv)"
  using conclude_inv(1) [of dv TerminalThawed f] recovering_abort [of dv]
  by (cases f) (auto simp: settle_before_ioctl_def in_walk_def uncommitted_def walking_def)

lemma after_prep_inv: "in_walk dv \<Longrightarrow> control_inv (after_prep res dv)"
  using settle_before_ioctl_inv
  by (auto simp: after_prep_def in_walk_def frame_simps split: sum.splits)

lemma after_rollback_inv:
  assumes "uncommitted dv"
  shows "control_inv (after_rollback res dv)"
proof -
  have w: "walking (dv\<lparr>dv_ctx := hold_frozen_mounts keep (dv_ctx dv)\<rparr>)" for keep
    using assms by (simp add: uncommitted_def frame_simps)
  have lost: "concluded fin (conclude fin (Err f) (dv\<lparr>dv_uncertain := True\<rparr>))" for fin f
    using assms conclude_ctx(5) [of fin "Err f" "dv\<lparr>dv_uncertain := True\<rparr>"]
    by (auto simp: concluded_def conclude_fields conclude_ctx uncommitted_def walking_def)
  show ?thesis
    using conclude_inv(1) [OF w] lost
    by (cases res) (auto simp: after_rollback_def retains_frozen_state_def split: prod.splits)
qed

lemma settle_aborted_round_inv:
  assumes "recovering dv"
  shows "control_inv (settle_aborted_round dv)"
proof -
  define d1 where "d1 = (case dv_recovery dv of
      Some (DrainDone res) \<Rightarrow> record_recovery res (dv\<lparr>dv_recovery := None\<rparr>) | _ \<Rightarrow> dv)"
  define d2 where "d2 = refresh_pass_done (start_recovery_if_needed d1)"
  have "recovering d1"
    using assms by (auto simp: d1_def frame_simps split: option.splits drain_task.splits)
  then have r2: "recovering d2" by (simp add: d2_def frame_simps)
  have empty: "dv_recovery d2 = None \<Longrightarrow> cx_frozen_mounts (dv_ctx d2) = []"
    by (auto simp: d2_def driver_defs Let_def slot_defs split: if_splits)
  have held: "recovering (d2\<lparr>dv_unrecoverable := None, dv_kept := [], dv_ctx := hold_frozen_mounts ms (dv_ctx d2)\<rparr>)"
    for ms using r2 by (simp add: recovering_def hold_frozen_mounts_def)
  have "settle_aborted_round dv =
    (if dv_recovery d2 \<noteq> None then (d2, SettleAborted)
     else case dv_unrecoverable d2 of
       Some _ \<Rightarrow> (conclude TerminalFrozen (Err (FfTask ''aborted''))
           (d2\<lparr>dv_unrecoverable := None, dv_kept := [], dv_ctx := hold_frozen_mounts (dv_kept d2) (dv_ctx d2)\<rparr>),
         OpDone TerminalFrozen)
     | None \<Rightarrow> (d2, AwaitAbortedRemoval MarkerRunning))"
    unfolding settle_aborted_round_def d2_def d1_def Let_def by (rule refl)
  then show ?thesis
    using r2 empty conclude_inv(2) [OF held] by (auto split: option.splits)
qed

lemma complete_inv:
  assumes "control_inv (dv, q)" "complete tx q dv = Some s"
  shows "control_inv s"
proof -
  have w: "uncommitted dv \<Longrightarrow> walking dv" by (simp add: uncommitted_def)
  show ?thesis
    using assms after_prep_inv after_worker_inv after_rollback_inv conclude_inv w
    by (cases "(tx, q, dv)" rule: complete.cases)
       (auto simp: in_walk_control after_nothing_frozen_def after_prep_removal_def
         after_aborted_removal_def split: sum.splits simp del: control_inv.simps(1-3))
qed

text \<open>Steps of the environment leave the control state alone.\<close>

lemma env_frame:
  "control_inv (dv\<lparr>dv_ctx := (dv_ctx dv)\<lparr>cx_now := n\<rparr>\<rparr>, q) = control_inv (dv, q)"
  "control_inv (dv\<lparr>dv_op := (dv_op dv)\<lparr>fo_notified := b\<rparr>\<rparr>, q) = control_inv (dv, q)"
  "control_inv (set_kernel k dv, q) = control_inv (dv, q)"
  "control_inv (set_dir d dv, q) = control_inv (dv, q)"
  by (cases q; simp add: uncommitted_def walking_def recovering_def concluded_def set_kernel_def set_dir_def)+

lemma request_inv: "control_inv (dv, q) \<Longrightarrow> control_inv (dv\<lparr>dv_op := fst (request_abort (dv_op dv))\<rparr>, q)"
  by (cases q; cases "fo_outcome (dv_op dv)")
     (auto simp: request_abort_def uncommitted_def walking_def recovering_def concluded_def)

lemma drain_inv:
  assumes "control_inv (dv, q)" "dv_recovery dv = Some dr"
  shows "control_inv (dv\<lparr>dv_recovery := Some dr'\<rparr>, q)"
  using assms
  by (cases q) (auto simp: uncommitted_def walking_def recovering_def concluded_def)

lemma take_abort_recovering:
  assumes "control_inv (dv, q)" "armed_signal dv q"
  shows "recovering (take_abort dv)"
proof -
  have "abortable q" "dv_abort dv = None" using assms(2) by (auto simp: armed_signal_def)
  then have "uncommitted dv"
    using assms(1) by (cases q) (auto simp: recovering_def)
  then show ?thesis
    using uncommitted_commit_abort [of "dv\<lparr>dv_op := (dv_op dv)\<lparr>fo_notified := False\<rparr>\<rparr>"]
      uncommitted_commit_abort [of dv]
    by (auto simp: take_abort_def uncommitted_def walking_def)
qed

lemma take_abort_inv:
  assumes "control_inv (dv, q)" "armed_signal dv q"
  shows "control_inv (take_abort dv, q)"
  using take_abort_recovering [OF assms] assms(2) by (cases q) (auto simp: armed_signal_def)

lemma recovered_inv:
  assumes "control_inv (dv, q)" "awaiting q" "dv_recovery dv = Some dr"
  shows "control_inv (refresh_pass_done (start_recovery_if_needed (record_recovery res (dv\<lparr>dv_recovery := None\<rparr>))), q)"
  using assms
  by (cases q) (auto simp: uncommitted_def walking_def frame_simps)

lemma run_prep_frame:
  assumes "run_prep E entries restrict dv = (dv', r)"
  shows "\<exists>d. dv' = set_dir d dv"
proof -
  have "set_dir (cx_dir (dv_ctx dv)) dv = dv" by (simp add: set_dir_def)
  then show ?thesis
    using assms by (auto simp: run_prep_def Let_def split: sum.splits prod.splits) metis
qed

lemma removal_inv:
  assumes "control_inv (dv, q)" "removal_task q = Some mk"
  shows "control_inv (dv, mk t)"
  using assms by (cases q rule: removal_task.cases) auto

lemma control_step:
  assumes "control_inv s" "op_step E s s'"
  shows "control_inv s'"
  using assms(2,1)
proof cases
  case (os_request dv q)
  then show ?thesis using assms(1) request_inv by simp
next
  case (os_prep entries restrict dv dv' r)
  then show ?thesis using assms(1) run_prep_frame [of E entries restrict dv dv' r] by (auto simp: frame_simps)
next
  case (os_prep_lost_late entries restrict dv dv' r err)
  then show ?thesis using assms(1) run_prep_frame [of E entries restrict dv dv' r] by (auto simp: frame_simps)
next
  case (os_drain dv m ms rc keep inc k rc' keep' inc' q)
  then show ?thesis using assms(1) drain_inv [of dv q] by (simp add: env_frame)
next
  case (os_drain_end dv rc keep inc q)
  then show ?thesis using assms(1) drain_inv [of dv q] by simp
next
  case (os_drain_lost dv ms rc keep inc q err)
  then show ?thesis using assms(1) drain_inv [of dv q] by simp
next
  case (os_abort dv q)
  then show ?thesis using assms(1) take_abort_inv by simp
next
  case (os_recovered q dv res)
  then show ?thesis using assms(1) recovered_inv by simp
next
  case (os_complete q dv)
  then show ?thesis using assms(1) complete_inv by simp
next
  case (os_walk dv ts)
  then show ?thesis using assms(1) walk_round_inv in_walk_control(1) by blast
next
  case (os_settle dv)
  then show ?thesis using assms(1) settle_aborted_round_inv by simp
qed (use assms(1) removal_inv in \<open>auto simp: env_frame notify_abort_def in_walk_control frame_simps simp del: control_inv.simps(1-3)\<close>)

interpretation op: inductive_invariant "op_start cx" "op_step E" control_inv
proof unfold_locales
  fix s
  assume "op_start cx s"
  then show "control_inv s"
    by (auto simp: op_start_def start_op_def uncommitted_def walking_def set_freeze_op_def
        progress_initial_def)
qed (rule control_step)

section \<open>A reply is sent once, an abort once accepted stays accepted\<close>

definition keeps :: "('k, 'd) driver \<Rightarrow> ('k, 'd) driver \<Rightarrow> bool" where
  "keeps dv dv' \<longleftrightarrow> (\<forall>r. dv_reply dv = Some r \<longrightarrow> dv_reply dv' = Some r) \<and>
     (fo_outcome (dv_op dv) = OUTCOME_ABORTING \<longrightarrow> fo_outcome (dv_op dv') = OUTCOME_ABORTING)"

lemma keeps_refl: "keeps dv dv"
  by (simp add: keeps_def)

lemma keeps_trans: "keeps dv dv1 \<Longrightarrow> keeps dv1 dv2 \<Longrightarrow> keeps dv dv2"
  by (simp add: keeps_def)

lemma keeps_same:
  "dv_reply dv' = dv_reply dv \<Longrightarrow> fo_outcome (dv_op dv') = fo_outcome (dv_op dv) \<Longrightarrow> keeps dv dv'"
  by (simp add: keeps_def)

lemma reply_frame [frame_simps]:
  "dv_reply (publish f dv) = dv_reply dv" "dv_reply (refresh_pass_done dv) = dv_reply dv"
  "dv_reply (start_recovery_if_needed dv) = dv_reply dv" "dv_reply (record_recovery res dv) = dv_reply dv"
  "fo_outcome (dv_op (start_recovery_if_needed dv)) = fo_outcome (dv_op dv)"
  "fo_outcome (dv_op (record_recovery res dv)) = fo_outcome (dv_op dv)"
  by (simp_all add: driver_defs Let_def slot_defs split: sum.splits)

lemma keeps_commit_abort: "keeps dv (commit_abort cause dv)"
proof (cases "dv_abort dv")
  case None
  define d1 where "d1 = dv\<lparr>dv_abort := Some cause, dv_op := (mark_aborting (dv_op dv))\<lparr>fo_aborted := True\<rparr>\<rparr>"
  define d2 where "d2 = (case dv_token d1 of None \<Rightarrow> d1
      | Some t \<Rightarrow> (let (m, tt) = abort_freeze (cx_state (dv_ctx d1)) t in
          d1\<lparr>dv_token := None, dv_thaw_token := Some tt, dv_ctx := (dv_ctx d1)\<lparr>cx_state := m\<rparr>\<rparr>))"
  define d3 where "d3 = d2\<lparr>dv_ctx := on_thaw_claimed (dv_ctx d2)\<rparr>"
  have d3: "dv_reply d3 = dv_reply dv" "dv_op d3 = (mark_aborting (dv_op dv))\<lparr>fo_aborted := True\<rparr>"
    by (auto simp: d1_def d2_def d3_def split: option.splits prod.splits)
  have "commit_abort cause dv = refresh_pass_done (publish (\<lambda>p. p\<lparr>pg_phase := PhaseRecovering\<rparr>)
      (start_recovery_if_needed (send_reply (Err (FfAborted cause (dv_timeout d3) (dv_frozen d3)
        (pg_in_flight (fo_progress (dv_op d3))))) d3)))"
    unfolding commit_abort_def d1_def d2_def d3_def Let_def using None by simp
  then show ?thesis
    using d3 by (simp add: keeps_def frame_simps mark_aborting_def)
qed (simp add: commit_abort_def keeps_refl)

lemma keeps_decide: "keeps dv (decide dv)"
  by (auto simp: decide_def keeps_commit_abort keeps_refl split: option.splits)

lemma keeps_conclude: "keeps dv dv' \<Longrightarrow> keeps dv (conclude fin r dv')"
  by (auto simp: keeps_def conclude_fields)

lemma keeps_upd:
  "keeps dv (publish f dv)" "keeps dv (dv\<lparr>dv_ctx := cx\<rparr>)" "keeps dv (dv\<lparr>dv_uncertain := b\<rparr>)"
  by (simp_all add: keeps_def frame_simps)

lemma keeps_after_walk: "keeps dv (fst (after_walk dv))"
proof -
  have "keeps (decide dv) ((decide dv)\<lparr>dv_op := fst (try_commit (dv_op (decide dv)))\<rparr>)"
    by (simp add: keeps_def try_commit_def)
  then show ?thesis
    using keeps_trans [OF keeps_decide [of dv]] keeps_commit_abort [of "decide dv" ThawRequested]
    by (auto simp: after_walk_def Let_def keeps_decide keeps_conclude split: prod.splits)
qed

lemma keeps_after_worker: "keeps dv (fst (after_worker t rest res dv))"
proof -
  define pv where "pv = publish (\<lambda>p. p\<lparr>pg_in_flight := None\<rparr>) dv"
  have pv: "keeps dv pv" by (simp add: pv_def keeps_def frame_simps)
  have lost: "keeps dv (fst (after_walk (commit_abort WorkerLost (pv\<lparr>dv_uncertain := True, dv_unrecoverable := u\<rparr>))))" for u
    by (intro keeps_trans [OF _ keeps_after_walk] keeps_trans [OF _ keeps_commit_abort])
       (use pv in \<open>simp add: keeps_def\<close>)
  have "keeps dv (decide pv)" by (rule keeps_trans [OF pv keeps_decide])
  with pv lost show ?thesis
    by (cases res; cases "projr res")
       (auto simp: after_worker_def pv_def [symmetric] Let_def keeps_def frame_simps split: prod.splits)
qed

lemma keeps_complete: "complete tx q dv = Some s \<Longrightarrow> keeps dv (fst s)"
  using keeps_after_worker [of dv]
  by (cases "(tx, q, dv)" rule: complete.cases)
     (auto simp: after_prep_def settle_before_ioctl_def after_nothing_frozen_def after_prep_removal_def
       after_rollback_def after_aborted_removal_def keeps_refl keeps_conclude keeps_upd
       split: sum.splits prod.splits freeze_failure.splits)

lemma keeps_walk_round: "keeps dv (fst (walk_round ts dv))"
  using keeps_after_walk [of dv] keeps_trans [OF keeps_decide keeps_after_walk, of dv] keeps_decide [of dv]
  by (auto simp: walk_round_def Let_def frame_simps keeps_def split: list.splits)

lemma keeps_settle: "keeps dv (fst (settle_aborted_round dv))"
proof -
  define d1 where "d1 = (case dv_recovery dv of
      Some (DrainDone res) \<Rightarrow> record_recovery res (dv\<lparr>dv_recovery := None\<rparr>) | _ \<Rightarrow> dv)"
  define d2 where "d2 = refresh_pass_done (start_recovery_if_needed d1)"
  have "dv_reply d1 = dv_reply dv" "fo_outcome (dv_op d1) = fo_outcome (dv_op dv)"
    by (auto simp: d1_def frame_simps split: option.splits drain_task.splits)
  then have "dv_reply d2 = dv_reply dv" "fo_outcome (dv_op d2) = fo_outcome (dv_op dv)"
    by (simp_all add: d2_def frame_simps)
  then show ?thesis
    unfolding settle_aborted_round_def d1_def [symmetric] d2_def [symmetric] Let_def
    by (auto simp: keeps_def conclude_fields split: option.splits)
qed

lemma keeps_step:
  assumes "op_step E s s'"
  shows "keeps (fst s) (fst s')"
  using assms
proof cases
  case (os_prep entries restrict dv dv' r)
  then show ?thesis using run_prep_frame [of E entries restrict dv dv' r] by (auto simp: frame_simps keeps_refl intro!: keeps_same)
next
  case (os_prep_lost_late entries restrict dv dv' r err)
  then show ?thesis using run_prep_frame [of E entries restrict dv dv' r] by (auto simp: frame_simps intro!: keeps_same)
next
  case (os_abort dv q)
  have "keeps dv (dv\<lparr>dv_op := (dv_op dv)\<lparr>fo_notified := False\<rparr>\<rparr>)" by (simp add: keeps_def)
  then show ?thesis
    using keeps_commit_abort keeps_trans os_abort by (auto simp: take_abort_def) blast
next
  case (os_complete q dv)
  then show ?thesis using keeps_complete by fastforce
next
  case (os_walk dv ts)
  then show ?thesis using keeps_walk_round by simp
next
  case (os_settle dv)
  then show ?thesis using keeps_settle by simp
qed (auto simp: keeps_def request_abort_def notify_abort_def frame_simps)

lemma keeps_run: "(op_step E)\<^sup>*\<^sup>* s t \<Longrightarrow> keeps (fst s) (fst t)"
  by (induction rule: rtranclp_induct) (auto simp: keeps_refl intro: keeps_trans keeps_step)

lemma control_reply: "control_inv s \<Longrightarrow> dv_reply (fst s) = Some (Ok n) \<Longrightarrow> fo_outcome (dv_op (fst s)) = OUTCOME_COMMITTED"
  by (cases s rule: control_inv.cases)
     (auto simp: uncommitted_def walking_def recovering_def concluded_def)

section \<open>One schedule\<close>

text \<open>
  The schedule in which every blocking task runs to its end: a drain before anything else, then the
  task the driver awaits, then the driver. Used to reach concrete states.
\<close>

fun is_done :: "pc \<Rightarrow> bool" where
  "is_done (OpDone fin) = True"
| "is_done _ = False"

definition run_task :: "('k, 'd) freeze_env \<Rightarrow> (error, mount_entry list) result \<Rightarrow> ('k, 'd) driver \<Rightarrow> pc
    \<Rightarrow> ('k, 'd) op_state" where
  "run_task E es dv q =
     (case q of
        AwaitPrep r PrepRunning \<Rightarrow>
          (let (dv', res) = run_prep E es r dv in (dv', AwaitPrep r (PrepDone (Ok res))))
      | AwaitWorker t ts WorkerSpawned \<Rightarrow>
          (let (k, r) = open_target (en_tx E) (en_kernel E) (cx_kernel (dv_ctx dv)) t
           in (set_kernel k dv, AwaitWorker t ts (opened_worker r)))
      | AwaitWorker t ts (WorkerOpened m) \<Rightarrow>
          (dv, AwaitWorker t ts (if authorises (cx_now (dv_ctx dv)) (dv_op dv) then WorkerAuthorised m
                                 else WorkerDone (Ok ToNotAuthorized)))
      | AwaitWorker t ts (WorkerAuthorised m) \<Rightarrow>
          (let (k, r) = k_fifreeze (en_kernel E) (cx_kernel (dv_ctx dv)) m
           in (set_kernel k dv, AwaitWorker t ts (WorkerDone (Ok (freeze_outcome m r)))))
      | AwaitRollback (RollbackRunning held failed stop) \<Rightarrow>
          (let (k, d, keep, f) = rollback (en_tx E) (en_kernel E) (en_dir E) (en_marker E)
                 (cx_kernel (dv_ctx dv)) (cx_dir (dv_ctx dv)) held failed stop
           in (set_dir d (set_kernel k dv), AwaitRollback (RollbackDone (Ok (f, keep)))))
      | Walk ts \<Rightarrow> walk_round ts dv
      | SettleAborted \<Rightarrow> settle_aborted_round dv
      | _ \<Rightarrow>
          (case removal_task q of
             Some mk \<Rightarrow>
               (let (d, r) = marker_remove (en_dir E) (cx_dir (dv_ctx dv)) (en_marker E)
                in (set_dir d dv, mk (MarkerDone (Ok r))))
           | None \<Rightarrow> (case complete (en_tx E) q dv of Some s \<Rightarrow> s | None \<Rightarrow> (dv, q))))"

definition advance :: "('k, 'd) freeze_env \<Rightarrow> (error, mount_entry list) result \<Rightarrow> ('k, 'd) op_state
    \<Rightarrow> ('k, 'd) op_state" where
  "advance E es = (\<lambda>(dv, q).
     if armed_signal dv q then (take_abort dv, q)
     else case dv_recovery dv of
       Some (DrainRunning (m # ms) rc keep inc) \<Rightarrow>
         (let (k, rc', keep', inc') =
              drain_held_step (en_tx E) (en_kernel E) m (cx_kernel (dv_ctx dv), rc, keep, inc)
          in (set_kernel k (dv\<lparr>dv_recovery := Some (DrainRunning ms rc' keep' inc')\<rparr>), q))
     | Some (DrainRunning [] rc keep inc) \<Rightarrow>
         (dv\<lparr>dv_recovery := Some (DrainDone (Ok \<lparr>rp_recovered = rc, rp_keep = keep, rp_incomplete = inc\<rparr>))\<rparr>, q)
     | Some (DrainDone res) \<Rightarrow>
         if awaiting q
         then (refresh_pass_done (start_recovery_if_needed (record_recovery res (dv\<lparr>dv_recovery := None\<rparr>))), q)
         else run_task E es dv q
     | None \<Rightarrow> run_task E es dv q)"

lemma run_task_step:
  assumes "dv_recovery dv = None \<or> drain_finished (dv_recovery dv) \<and> \<not> awaiting q" "\<not> armed_signal dv q" "\<not> is_done q"
    and "en_mounts E es"
  shows "op_step E (dv, q) (run_task E es dv q)"
proof -
  have "may_complete dv q \<or> \<not> awaiting q" using assms(1,2) by (auto simp: may_complete_def)
  moreover have "op_step E (dv, AwaitWorker t ts (WorkerOpened m)) (dv, AwaitWorker t ts
      (if authorises (cx_now (dv_ctx dv)) (dv_op dv) then WorkerAuthorised m else WorkerDone (Ok ToNotAuthorized)))"
    for t ts m by (rule os_check)
  ultimately show ?thesis
    using assms
    by (cases q rule: removal_task.cases)
       (auto simp: run_task_def Let_def intro: op_step.intros
         split: prod.splits prep_task.splits worker_task.splits rollback_task.splits marker_task.splits)
qed

lemma advance_step:
  assumes "\<not> is_done (snd s)" "en_mounts E es"
  shows "op_step E s (advance E es s)"
proof (cases s)
  case (Pair dv q)
  then have nd: "\<not> is_done q" using assms by simp
  show ?thesis
  proof (cases "armed_signal dv q")
    case True
    then show ?thesis using Pair by (simp add: advance_def os_abort)
  next
    case False
    then show ?thesis
      using Pair nd run_task_step [of dv q E es] assms(2)
      by (auto simp: advance_def Let_def intro: os_drain os_drain_end os_recovered
          split: option.splits drain_task.splits list.splits prod.splits)
  qed
qed

lemma advance_run:
  "en_mounts E es \<Longrightarrow> \<forall>i < n. \<not> is_done (snd ((advance E es ^^ i) s)) \<Longrightarrow> (op_step E)\<^sup>*\<^sup>* s ((advance E es ^^ n) s)"
  by (induction n) (auto intro: rtranclp.rtrancl_into_rtrancl advance_step)

section \<open>Properties\<close>

text \<open>
  C13. Every freeze operation that ends has answered its request exactly as it left the state machine:
  it has sent a reply, holds no token any more, is no longer the registered operation, its published
  progress and the machine are at the same terminal state, and the scope of the next thaw is
  \<^verbatim>\<open>Tracked\<close> only where it settled frozen without having lost a task.
\<close>

theorem operation_concludes:
  assumes "reachable (op_start cx) (op_step E) (dv, OpDone fin)"
  shows "dv_reply dv \<noteq> None \<and> dv_token dv = None \<and> dv_thaw_token dv = None \<and>
    cx_freeze_op (dv_ctx dv) \<noteq> Some (fo_id (dv_op dv)) \<and>
    fsm_state (cx_state (dv_ctx dv)) = (if fin = TerminalThawed then Thawed else Frozen) \<and>
    pg_settled (fo_progress (dv_op dv)) = Some (fsm_state (cx_state (dv_ctx dv))) \<and>
    cx_thaw_scope (dv_ctx dv) = (if fin = TerminalFrozen \<and> \<not> dv_uncertain dv then Tracked else Discovery)"
  using op.inv_reachable [OF assms] by (auto simp: concluded_def)

text \<open>
  A request is answered once: whatever runs after a reply was sent, the reply stays that one.
\<close>

theorem reply_is_final:
  assumes "(op_step E)\<^sup>*\<^sup>* s t" and "dv_reply (fst s) = Some r"
  shows "dv_reply (fst t) = Some r"
  using keeps_run [OF assms(1)] assms(2) by (simp add: keeps_def)

text \<open>
  C12. A thaw request and the freeze's own success exclude each other: once a thaw request was
  accepted as an abort, no later state of the operation has answered the freeze with success, in any
  interleaving.
\<close>

theorem accepted_abort_never_succeeds:
  assumes "reachable (op_start cx) (op_step E) (dv, q)"
    and "request_abort (dv_op dv) = (op', Accepted)"
    and "(op_step E)\<^sup>*\<^sup>* (dv\<lparr>dv_op := op'\<rparr>, q) t"
  shows "dv_reply (fst t) \<noteq> Some (Ok n)"
proof -
  have ab: "fo_outcome op' = OUTCOME_ABORTING"
    using assms(2) by (cases "fo_outcome (dv_op dv)") (auto simp: request_abort_def)
  have "op_step E (dv, q) (dv\<lparr>dv_op := op'\<rparr>, q)" using os_request [of E dv q] assms(2) by simp
  then have "control_inv (dv\<lparr>dv_op := op'\<rparr>, q)"
    using control_step op.inv_reachable [OF assms(1)] by blast
  then have "control_inv t" using op.inv_run [OF assms(3)] by blast
  moreover have "fo_outcome (dv_op (fst t)) = OUTCOME_ABORTING"
    using keeps_run [OF assms(3)] ab by (simp add: keeps_def)
  ultimately show ?thesis using control_reply [of t n] by auto
qed

section \<open>Witnesses\<close>

definition example_ctx :: "(fake_inner, (fd \<times> path) set) ctx" where
  "example_ctx =
     \<lparr>cx_state = \<lparr>fsm_state = Freezing\<rparr>, cx_kernel = track_freeze_depth fake_new, cx_dir = {},
      cx_frozen_mounts = [], cx_thaw_scope = Discovery, cx_freeze_op = None, cx_watchdogs = [],
      cx_watchdog = None, cx_audit_ring = True, cx_timeout = 120,
      cx_watchdog_cfg = \<lparr>wc_idle = 60, wc_max = 600\<rparr>, cx_now = 0, cx_arming = 0, cx_expired = 0\<rparr>"

definition example_row :: mount_entry where
  "example_row =
     \<lparr>me_mount_id = 22, me_parent_id = 1, me_major = 8, me_minor = 1, me_root = ''/'', me_mount_point = ''/srv'',
      me_mount_options = ''rw'', me_optional_fields = [], me_fs_type = ''ext4'', me_source = ''/dev/sda1'',
      me_super_options = ''rw''\<rparr>"

definition example_env :: "(fake_inner, (fd \<times> path) set) freeze_env" where
  "example_env = \<lparr>en_tx = (\<lambda>_. []), en_kernel = fake_kernel, en_dir = plain_dir, en_marker = example_marker,
     en_mounts = (\<lambda>r. r = Ok [example_row])\<rparr>"

lemma example_mounts: "en_mounts example_env (Ok [example_row])"
  by (simp add: example_env_def)

definition example_run :: "nat \<Rightarrow> (fake_inner, (fd \<times> path) set) op_state" where
  "example_run n = (advance example_env (Ok [example_row]) ^^ n) (start_op 1 example_ctx FreezeToken None)"

lemma example_start: "op_start example_ctx (start_op 1 example_ctx FreezeToken None)"
  by (auto simp: op_start_def example_ctx_def)

text \<open>The run that freezes \<^verbatim>\<open>/srv\<close>, and the one a thaw request aborts after its last freeze.\<close>

definition example_abort :: "nat \<Rightarrow> (fake_inner, (fd \<times> path) set) op_state" where
  "example_abort n = (let (dv, q) = example_run 7 in
     (advance example_env (Ok [example_row]) ^^ n) (dv\<lparr>dv_op := fst (request_abort (dv_op dv))\<rparr>, q))"

lemma example_run_pending: "list_all (\<lambda>i. \<not> is_done (snd (example_run i))) [0, 1, 2, 3, 4, 5, 6, 7]"
  by code_simp

lemma example_run_reachable:
  assumes "n \<le> 8"
  shows "reachable (op_start example_ctx) (op_step example_env) (example_run n)"
proof -
  have "\<not> is_done (snd (example_run i))" if "i < n" for i
  proof -
    have "i \<in> set [0, 1, 2, 3, 4, 5, 6, 7]" using that assms by auto
    then show ?thesis using example_run_pending unfolding list_all_iff by blast
  qed
  then have "(op_step example_env)\<^sup>*\<^sup>* (example_run 0) (example_run n)"
    using advance_run [of example_env "Ok [example_row]" n "example_run 0"]
    by (simp add: example_run_def example_mounts)
  then show ?thesis
    by (induction rule: rtranclp_induct) (use example_start in \<open>auto simp: example_run_def intro: reachable.intros\<close>)
qed

lemma example_abort_pending: "list_all (\<lambda>i. \<not> is_done (snd (example_abort i))) [0, 1, 2, 3, 4, 5]"
  by code_simp

lemma example_abort_run:
  assumes "m \<le> n" "n \<le> 6"
  shows "(op_step example_env)\<^sup>*\<^sup>* (example_abort m) (example_abort n)"
proof -
  have eq: "(advance example_env (Ok [example_row]) ^^ i) (example_abort m) = example_abort (m + i)" for i
    by (simp add: example_abort_def funpow_add [symmetric] add.commute split: prod.splits) (simp add: funpow_add)
  have "\<not> is_done (snd (example_abort i))" if "i < n" for i
  proof -
    have "i \<in> set [0, 1, 2, 3, 4, 5]" using that assms by auto
    then show ?thesis using example_abort_pending unfolding list_all_iff by blast
  qed
  then show ?thesis
    using advance_run [of example_env "Ok [example_row]" "n - m" "example_abort m"] assms
    by (simp add: eq example_mounts)
qed

theorem operation_concludes_witness:
  "\<exists>dv. reachable (op_start example_ctx) (op_step example_env) (dv, OpDone TerminalFrozen) \<and>
     dv_reply dv = Some (Ok 1) \<and> fsm_state (cx_state (dv_ctx dv)) = Frozen \<and>
     cx_thaw_scope (dv_ctx dv) = Tracked"
proof -
  have s: "snd (example_run 8) = OpDone TerminalFrozen" "dv_reply (fst (example_run 8)) = Some (Ok 1)"
    "\<not> dv_uncertain (fst (example_run 8))"
    by code_simp+
  have r: "reachable (op_start example_ctx) (op_step example_env) (fst (example_run 8), OpDone TerminalFrozen)"
    using example_run_reachable [of 8] s(1) by (metis le_refl prod.collapse)
  show ?thesis using operation_concludes [OF r] r s by (intro exI [of _ "fst (example_run 8)"]) auto
qed

theorem reply_is_final_witness:
  "dv_reply (fst (example_abort 6)) = Some (Err (FfAborted ThawRequested 120 1 None))"
proof (rule reply_is_final [of example_env "example_abort 1"])
  show "(op_step example_env)\<^sup>*\<^sup>* (example_abort 1) (example_abort 6)" by (rule example_abort_run) simp_all
  show "dv_reply (fst (example_abort 1)) = Some (Err (FfAborted ThawRequested 120 1 None))" by code_simp
qed

theorem accepted_abort_never_succeeds_witness:
  "is_done (snd (example_abort 6)) \<and> (\<forall>n. dv_reply (fst (example_abort 6)) \<noteq> Some (Ok n))"
proof
  show "is_done (snd (example_abort 6))" by code_simp
  show "\<forall>n. dv_reply (fst (example_abort 6)) \<noteq> Some (Ok n)"
  proof
    fix n
    have "snd (request_abort (dv_op (fst (example_run 7)))) = Accepted" by code_simp
    then have ra: "request_abort (dv_op (fst (example_run 7))) =
        (fst (request_abort (dv_op (fst (example_run 7)))), Accepted)" by (metis prod.collapse)
    have "example_abort 0 = ((fst (example_run 7))\<lparr>dv_op := fst (request_abort (dv_op (fst (example_run 7))))\<rparr>,
        snd (example_run 7))"
      by (simp add: example_abort_def split: prod.splits)
    then have run: "(op_step example_env)\<^sup>*\<^sup>*
        ((fst (example_run 7))\<lparr>dv_op := fst (request_abort (dv_op (fst (example_run 7))))\<rparr>, snd (example_run 7))
        (example_abort 6)"
      using example_abort_run [of 0 6] by simp
    have "reachable (op_start example_ctx) (op_step example_env) (fst (example_run 7), snd (example_run 7))"
      using example_run_reachable [of 7] by simp
    then show "dv_reply (fst (example_abort 6)) \<noteq> Some (Ok n)"
      by (rule accepted_abort_never_succeeds [OF _ ra run])
  qed
qed

end
