(* ===== verification/FreezeSafety.thy ===== *)
theory FreezeSafety
  imports FreezeOp
begin

text \<open>
  What a freeze operation guarantees of the kernel and the recovery marker, at every point of every
  interleaving: the handles of what it froze are always held somewhere or their loss is on record, and
  the marker is on disk whenever something it froze may still be frozen.
\<close>

section \<open>What was frozen is accounted for\<close>

text \<open>The handles something still answers for: published, in a drain, kept, or just returned.\<close>

fun drain_mounts :: "drain_task option \<Rightarrow> mount list" where
  "drain_mounts (Some (DrainRunning ms rc keep inc)) = ms @ keep"
| "drain_mounts (Some (DrainDone (Inr pass))) = rp_keep pass"
| "drain_mounts _ = []"

fun pc_mounts :: "pc \<Rightarrow> mount list" where
  "pc_mounts (AwaitWorker t ts (WorkerDone (Inr (ToFrozen m)))) = [m]"
| "pc_mounts (AwaitWorker t ts (WorkerDone (Inr (ToBusy m)))) = [m]"
| "pc_mounts (AwaitRollback (RollbackRunning held failed stop)) = held"
| "pc_mounts (AwaitRollback (RollbackDone (Inr (f, keep)))) = keep"
| "pc_mounts _ = []"

definition tracked :: "('k, 'd) op_state \<Rightarrow> mount list" where
  "tracked s = cx_frozen_mounts (dv_ctx (fst s)) @ drain_mounts (dv_recovery (fst s)) @
     dv_kept (fst s) @ pc_mounts (snd s)"

text \<open>A task was lost with its handles.\<close>

fun pc_lost :: "pc \<Rightarrow> bool" where
  "pc_lost (AwaitWorker t ts (WorkerDone (Inl err))) = True"
| "pc_lost (AwaitRollback (RollbackDone (Inl err))) = True"
| "pc_lost _ = False"

fun drain_is_lost :: "drain_task option \<Rightarrow> bool" where
  "drain_is_lost (Some (DrainDone (Inl err))) = True"
| "drain_is_lost _ = False"

definition lost :: "('k, 'd) op_state \<Rightarrow> bool" where
  "lost s \<longleftrightarrow> dv_uncertain (fst s) \<or> drain_is_lost (dv_recovery (fst s)) \<or> pc_lost (snd s)"

text \<open>A drain reports the handles it keeps; what is kept or uncertain is reported as unrecoverable.\<close>

fun drain_reports :: "drain_task option \<Rightarrow> bool" where
  "drain_reports (Some (DrainRunning ms rc keep inc)) \<longleftrightarrow> (inc = None \<longrightarrow> keep = [])"
| "drain_reports (Some (DrainDone (Inr pass))) \<longleftrightarrow> (rp_incomplete pass = None \<longrightarrow> rp_keep pass = [])"
| "drain_reports _ \<longleftrightarrow> True"

fun pc_reports :: "pc \<Rightarrow> bool" where
  "pc_reports (AwaitRollback (RollbackDone (Inr (f, keep)))) \<longleftrightarrow>
     (\<not> retains_frozen_state f \<longrightarrow> keep = [] \<and> (\<forall>t. f \<noteq> FfTask t))"
| "pc_reports _ \<longleftrightarrow> True"

definition book_inv :: "('k, 'd) op_state \<Rightarrow> bool" where
  "book_inv s \<longleftrightarrow> drain_reports (dv_recovery (fst s)) \<and> pc_reports (snd s) \<and>
     (if is_done (snd s) then dv_kept (fst s) = [] \<and> dv_recovery (fst s) = None
      else dv_unrecoverable (fst s) = None \<longrightarrow> dv_kept (fst s) = [] \<and> \<not> dv_uncertain (fst s))"

text \<open>Where nothing of this operation may be frozen: before the walk, and once settled \<^verbatim>\<open>Thawed\<close>.\<close>

fun quiet :: "('k, 'd) op_state \<Rightarrow> bool" where
  "quiet (dv, AwaitPrep r t) \<longleftrightarrow> dv_abort dv = None"
| "quiet (dv, AwaitPrepRemoval f t) \<longleftrightarrow> dv_abort dv = None"
| "quiet (dv, OpDone fin) \<longleftrightarrow> fin = TerminalThawed"
| "quiet (dv, _) \<longleftrightarrow> False"

text \<open>Every frozen device was so before (\<open>F0\<close>) or is that of a handle in the list.\<close>

definition accounted :: "('k \<Rightarrow> dev \<Rightarrow> nat) \<Rightarrow> dev set \<Rightarrow> 'k \<Rightarrow> mount list \<Rightarrow> bool" where
  "accounted depth F0 k ms \<longleftrightarrow> (\<forall>d. 0 < depth k d \<longrightarrow> d \<in> F0 \<or> d \<in> mn_dev ` set ms)"

lemma accounted_mono: "accounted depth F0 k ms \<Longrightarrow> set ms \<subseteq> set ms' \<Longrightarrow> accounted depth F0 k ms'"
  unfolding accounted_def by blast

lemma accountedD: "accounted depth F0 k ms \<Longrightarrow> 0 < depth k d \<Longrightarrow> d \<in> F0 \<or> d \<in> mn_dev ` set ms"
  unfolding accounted_def by blast

lemma accounted_same:
  "accounted depth F0 k ms \<Longrightarrow> depth k' = depth k \<Longrightarrow> set ms \<subseteq> set ms' \<Longrightarrow> accounted depth F0 k' ms'"
  unfolding accounted_def by (metis image_mono subsetD)

lemma accounted_add:
  "accounted depth F0 k ms \<Longrightarrow> depth k' = (depth k)(mn_dev m := n) \<Longrightarrow> insert m (set ms) \<subseteq> set ms' \<Longrightarrow>
   accounted depth F0 k' ms'"
  unfolding accounted_def by (metis fun_upd_apply image_eqI image_mono insert_subset subsetD)

lemma accounted_settled:
  assumes "accounted depth F0 k ms" "depth k' \<le> depth k"
    and "\<And>m. m \<in> set ms \<Longrightarrow> m \<in> set ms' \<or> depth k' (mn_dev m) = 0"
  shows "accounted depth F0 k' ms'"
  unfolding accounted_def
proof (intro allI impI)
  fix d
  assume pos: "0 < depth k' d"
  then have "0 < depth k d" using assms(2) by (metis le_funD less_le_trans)
  then consider "d \<in> F0" | m where "m \<in> set ms" "d = mn_dev m"
    using assms(1) unfolding accounted_def by blast
  then show "d \<in> F0 \<or> d \<in> mn_dev ` set ms'"
  proof cases
    case (2 m)
    with pos assms(3) [OF 2(1)] have "m \<in> set ms'" by simp
    with 2(2) show ?thesis by blast
  qed simp
qed

text \<open>The driver's own steps move handles between the places that hold them and lose none.\<close>

definition dm :: "('k, 'd) driver \<Rightarrow> mount set" where
  "dm dv = set (cx_frozen_mounts (dv_ctx dv)) \<union> set (drain_mounts (dv_recovery dv)) \<union> set (dv_kept dv)"

definition dl :: "('k, 'd) driver \<Rightarrow> bool" where
  "dl dv \<longleftrightarrow> dv_uncertain dv \<or> drain_is_lost (dv_recovery dv)"

definition bk :: "('k, 'd) driver \<Rightarrow> bool" where
  "bk dv \<longleftrightarrow> drain_reports (dv_recovery dv) \<and>
     (dv_unrecoverable dv = None \<longrightarrow> dv_kept dv = [] \<and> \<not> dv_uncertain dv)"

lemmas hold_defs = dm_def dl_def bk_def

lemma tracked_set: "set (tracked (dv, q)) = dm dv \<union> set (pc_mounts q)"
  by (auto simp: tracked_def dm_def)

lemma lost_iff: "lost (dv, q) \<longleftrightarrow> dl dv \<or> pc_lost q"
  by (auto simp: lost_def dl_def)

lemma book_inv_iff:
  "book_inv (dv, q) \<longleftrightarrow> pc_reports q \<and>
     (if is_done q then dv_kept dv = [] \<and> dv_recovery dv = None else bk dv)"
  by (auto simp: book_inv_def bk_def)

text \<open>The same handles, the same losses, the same kernel.\<close>

definition same_hold :: "('k, 'd) driver \<Rightarrow> ('k, 'd) driver \<Rightarrow> bool" where
  "same_hold dv dv' \<longleftrightarrow> dm dv' = dm dv \<and> dl dv' = dl dv \<and> (bk dv \<longrightarrow> bk dv') \<and>
     cx_kernel (dv_ctx dv') = cx_kernel (dv_ctx dv) \<and> cx_dir (dv_ctx dv') = cx_dir (dv_ctx dv)"

lemma same_hold_refl: "same_hold dv dv"
  by (simp add: same_hold_def)

lemma same_hold_trans: "same_hold dv dv1 \<Longrightarrow> same_hold dv1 dv2 \<Longrightarrow> same_hold dv dv2"
  by (simp add: same_hold_def)

lemma same_hold_ops:
  "same_hold dv (publish f dv)" "same_hold dv (refresh_pass_done dv)"
  "same_hold dv (send_reply r dv)" "same_hold dv (dv\<lparr>dv_op := op\<rparr>)"
  "same_hold dv (dv\<lparr>dv_frozen := n\<rparr>)"
  "same_hold dv (start_recovery_if_needed dv)"
  by (auto simp: same_hold_def hold_defs driver_defs Let_def slot_defs split: option.splits)

lemma same_hold_record:
  "dv_recovery dv = Some (DrainDone res) \<Longrightarrow> same_hold dv (record_recovery res (dv\<lparr>dv_recovery := None\<rparr>))"
  by (cases res) (auto simp: same_hold_def hold_defs driver_defs Let_def get_or_insert_def split: option.splits)

lemma same_hold_commit_abort: "same_hold dv (commit_abort cause dv)"
proof (cases "dv_abort dv")
  case None
  define d1 where "d1 = dv\<lparr>dv_abort := Some cause, dv_op := (mark_aborting (dv_op dv))\<lparr>fo_aborted := True\<rparr>\<rparr>"
  define d2 where "d2 = (case dv_token d1 of None \<Rightarrow> d1
      | Some t \<Rightarrow> (let (m, tt) = abort_freeze (cx_state (dv_ctx d1)) t in
          d1\<lparr>dv_token := None, dv_thaw_token := Some tt, dv_ctx := (dv_ctx d1)\<lparr>cx_state := m\<rparr>\<rparr>))"
  define d3 where "d3 = d2\<lparr>dv_ctx := on_thaw_claimed (dv_ctx d2)\<rparr>"
  have d3: "same_hold dv d3"
    by (auto simp: same_hold_def hold_defs d1_def d2_def d3_def frame_simps split: option.splits prod.splits)
  have "commit_abort cause dv = refresh_pass_done (publish (\<lambda>p. p\<lparr>pg_phase := PhaseRecovering\<rparr>)
      (start_recovery_if_needed (send_reply (Err (FfAborted cause (dv_timeout d3) (dv_frozen d3)
        (pg_in_flight (fo_progress (dv_op d3))))) d3)))"
    unfolding commit_abort_def d1_def d2_def d3_def Let_def using None by simp
  then show ?thesis
    using same_hold_ops same_hold_trans d3 by metis
qed (simp add: commit_abort_def same_hold_refl)

lemma same_hold_take_abort: "same_hold dv (take_abort dv)"
  using same_hold_trans [OF same_hold_ops(4) same_hold_commit_abort [of "dv\<lparr>dv_op := (dv_op dv)\<lparr>fo_notified := False\<rparr>\<rparr>"]]
  by (simp add: take_abort_def same_hold_commit_abort)

lemma same_hold_decide: "same_hold dv (decide dv)"
  by (auto simp: decide_def same_hold_commit_abort same_hold_refl split: option.splits)

lemma same_hold_conclude:
  "dm (conclude fin r dv) = dm dv" "dl (conclude fin r dv) = dl dv"
  by (simp_all add: dm_def dl_def conclude_fields conclude_ctx)

lemma same_hold_after_walk:
  "dm (fst (after_walk dv)) = dm dv \<and> dl (fst (after_walk dv)) = dl dv \<and>
   cx_kernel (dv_ctx (fst (after_walk dv))) = cx_kernel (dv_ctx dv) \<and>
   cx_dir (dv_ctx (fst (after_walk dv))) = cx_dir (dv_ctx dv)"
  using same_hold_decide [of dv] same_hold_commit_abort [of "decide dv" ThawRequested]
    same_hold_ops(4) [of "decide dv"]
  by (auto simp: after_walk_def Let_def same_hold_def same_hold_conclude conclude_ctx split: prod.splits)

text \<open>A whole step of the driver, with the handles its task returned.\<close>

definition carries :: "('k, 'd) op_state \<Rightarrow> ('k, 'd) op_state \<Rightarrow> bool" where
  "carries s s' \<longleftrightarrow> set (tracked s') = set (tracked s) \<and> lost s' = lost s \<and>
     cx_kernel (dv_ctx (fst s')) = cx_kernel (dv_ctx (fst s)) \<and>
     cx_dir (dv_ctx (fst s')) = cx_dir (dv_ctx (fst s))"

lemma after_walk_pc: "pc_mounts (snd (after_walk dv)) = []" "\<not> pc_lost (snd (after_walk dv))"
  "\<not> quiet (after_walk dv)"
  by (auto simp: after_walk_def Let_def split: prod.splits)

lemma after_walk_carries:
  "pc_mounts q = [] \<Longrightarrow> \<not> pc_lost q \<Longrightarrow> same_hold dv dv' \<Longrightarrow> carries (dv, q) (after_walk dv')"
  using same_hold_after_walk [of dv'] after_walk_pc [of dv']
  by (cases "after_walk dv'") (auto simp: carries_def tracked_set lost_iff same_hold_def)

lemma hold_upd:
  "dm (dv\<lparr>dv_ctx := hold_frozen_mounts ms (dv_ctx dv)\<rparr>) = dm dv \<union> set ms"
  "dl (dv\<lparr>dv_ctx := hold_frozen_mounts ms (dv_ctx dv)\<rparr>) = dl dv"
  "dm (dv\<lparr>dv_uncertain := b\<rparr>) = dm dv" "dl (dv\<lparr>dv_uncertain := True\<rparr>)"
  "cx_kernel (hold_frozen_mounts ms cx) = cx_kernel cx" "cx_dir (hold_frozen_mounts ms cx) = cx_dir cx"
  "dm (dv\<lparr>dv_frozen := n, dv_ctx := hold_frozen_mounts ms (dv_ctx dv)\<rparr>) = dm dv \<union> set ms"
  "dl (dv\<lparr>dv_frozen := n, dv_ctx := hold_frozen_mounts ms (dv_ctx dv)\<rparr>) = dl dv"
  "dm (dv\<lparr>dv_unrecoverable := u, dv_kept := [], dv_ctx := hold_frozen_mounts (dv_kept dv) (dv_ctx dv)\<rparr>) = dm dv"
  "dl (dv\<lparr>dv_unrecoverable := u, dv_kept := [], dv_ctx := hold_frozen_mounts (dv_kept dv) (dv_ctx dv)\<rparr>) = dl dv"
  "dm (refresh_pass_done dv) = dm dv" "dl (refresh_pass_done dv) = dl dv" "dm (publish f dv) = dm dv"
  "dl (publish f dv) = dl dv" "cx_kernel (dv_ctx (refresh_pass_done dv)) = cx_kernel (dv_ctx dv)"
  "cx_kernel (dv_ctx (publish f dv)) = cx_kernel (dv_ctx dv)"
  "cx_dir (dv_ctx (refresh_pass_done dv)) = cx_dir (dv_ctx dv)" "cx_dir (dv_ctx (publish f dv)) = cx_dir (dv_ctx dv)"
  by (auto simp: hold_defs slot_defs refresh_pass_done_def publish_def Let_def)

lemma take_hold:
  "take_frozen_mounts (dv_ctx dv) = (cx, held) \<Longrightarrow>
   dm (dv\<lparr>dv_ctx := cx\<rparr>) \<union> set held = dm dv \<and> dl (dv\<lparr>dv_ctx := cx\<rparr>) = dl dv \<and> cx_kernel cx = cx_kernel (dv_ctx dv) \<and>
   cx_dir cx = cx_dir (dv_ctx dv)"
  by (auto simp: hold_defs slot_defs)

lemma after_worker_carries: "carries (dv, AwaitWorker t rest (WorkerDone res)) (after_worker t rest res dv)"
proof -
  define pv where "pv = publish (\<lambda>p. p\<lparr>pg_in_flight := None\<rparr>) dv"
  have pv: "dm pv = dm dv" "dl pv = dl dv" "cx_kernel (dv_ctx pv) = cx_kernel (dv_ctx dv)"
    "cx_dir (dv_ctx pv) = cx_dir (dv_ctx dv)"
    using same_hold_ops(1) by (auto simp: pv_def same_hold_def)
  show ?thesis
  proof (cases res)
    case (Inl err)
    define u where "u = pv\<lparr>dv_uncertain := True, dv_unrecoverable := get_or_insert (dv_unrecoverable pv)
      (from_utf8_lossy (tg_mountpoint t), ''freeze worker lost ('' @ err @ ''); FIFREEZE outcome unknown'')\<rparr>"
    have "dm u = dm dv" "dl u" "cx_kernel (dv_ctx u) = cx_kernel (dv_ctx dv)" "cx_dir (dv_ctx u) = cx_dir (dv_ctx dv)"
      using pv by (simp_all add: u_def dm_def dl_def)
    moreover have "after_worker t rest res dv = after_walk (commit_abort WorkerLost u)"
      unfolding after_worker_def Let_def u_def pv_def Inl by simp
    ultimately show ?thesis
      using Inl same_hold_commit_abort [of u WorkerLost] same_hold_after_walk [of "commit_abort WorkerLost u"]
        after_walk_pc [of "commit_abort WorkerLost u"]
      by (cases "after_walk (commit_abort WorkerLost u)")
         (simp add: carries_def tracked_set lost_iff same_hold_def)
  next
    case (Inr oc)
    then show ?thesis
      using pv same_hold_decide [of pv] take_hold [of pv]
      by (cases oc)
         (auto simp: after_worker_def pv_def [symmetric] Let_def carries_def tracked_set lost_iff same_hold_def
           hold_upd split: prod.splits)
  qed
qed

lemma walk_round_carries: "carries (dv, Walk ts) (walk_round ts dv)"
proof (cases ts)
  case Nil
  then show ?thesis using after_walk_carries [of "Walk ts" dv dv] by (simp add: walk_round_def same_hold_refl)
next
  case (Cons t rest)
  have "same_hold dv (publish (\<lambda>p. p\<lparr>pg_in_flight := Some x\<rparr>) (decide dv))" for x
    using same_hold_decide same_hold_ops(1) same_hold_trans by blast
  then show ?thesis
    using Cons after_walk_carries [OF _ _ same_hold_decide, of "Walk ts" dv]
    by (auto simp: walk_round_def Let_def carries_def tracked_set lost_iff same_hold_def)
qed

lemma settle_before_ioctl_carries:
  "pc_mounts q = [] \<Longrightarrow> \<not> pc_lost q \<Longrightarrow> carries (dv, q) (settle_before_ioctl f dv)"
  by (cases f)
     (auto simp: settle_before_ioctl_def carries_def tracked_set lost_iff same_hold_conclude conclude_ctx)

lemma after_prep_carries: "carries (dv, AwaitPrep r (PrepDone res)) (after_prep res dv)"
  using settle_before_ioctl_carries [of "AwaitPrep r (PrepDone res)" dv] same_hold_ops(1) [of dv]
  by (auto simp: after_prep_def carries_def tracked_set lost_iff same_hold_def split: sum.splits)

lemma after_rollback_carries: "carries (dv, AwaitRollback (RollbackDone res)) (after_rollback res dv)"
  by (cases res)
     (auto simp: after_rollback_def carries_def tracked_set lost_iff same_hold_conclude conclude_ctx
       retains_frozen_state_def hold_upd split: prod.splits)

lemma removal_carries:
  "carries (dv, AwaitNothingFrozen (MarkerDone res)) (after_nothing_frozen res dv)"
  "carries (dv, AwaitPrepRemoval f (MarkerDone res)) (after_prep_removal tx f res dv)"
  "carries (dv, AwaitAbortedRemoval (MarkerDone res)) (after_aborted_removal res dv)"
  by (auto simp: after_nothing_frozen_def after_prep_removal_def after_aborted_removal_def
       carries_def tracked_set lost_iff same_hold_conclude conclude_ctx split: sum.splits)

lemma complete_carries: "complete tx q dv = Some s \<Longrightarrow> carries (dv, q) s"
  using after_prep_carries after_worker_carries after_rollback_carries removal_carries
  by (cases "(tx, q, dv)" rule: complete.cases) auto

lemma settle_carries: "carries (dv, SettleAborted) (settle_aborted_round dv)"
proof -
  define d1 where "d1 = (case dv_recovery dv of
      Some (DrainDone res) \<Rightarrow> record_recovery res (dv\<lparr>dv_recovery := None\<rparr>) | _ \<Rightarrow> dv)"
  define d2 where "d2 = refresh_pass_done (start_recovery_if_needed d1)"
  have "same_hold dv d1"
    by (auto simp: d1_def same_hold_refl same_hold_record split: option.splits drain_task.splits)
  then have d2: "same_hold dv d2"
    unfolding d2_def using same_hold_ops(2,6) same_hold_trans by blast
  show ?thesis
    using d2 unfolding settle_aborted_round_def d1_def [symmetric] d2_def [symmetric] Let_def
    by (auto simp: carries_def tracked_set lost_iff same_hold_conclude conclude_ctx same_hold_def
        hold_upd split: option.splits)
qed

text \<open>The books are kept by the driver's steps.\<close>

lemma walking_bk: "walking dv \<Longrightarrow> bk dv \<and> \<not> dl dv \<and> dv_kept dv = [] \<and> dv_recovery dv = None"
  by (simp add: walking_def bk_def dl_def)

lemma after_walk_book:
  assumes "in_walk dv" "bk dv"
  shows "book_inv (after_walk dv)"
proof -
  have d: "bk (decide dv)" "in_walk (decide dv)"
    using assms same_hold_decide [of dv] in_walk_decide by (auto simp: same_hold_def)
  have w: "dv_abort (decide dv) = None \<Longrightarrow> walking (decide dv)"
    using d(2) by (auto simp: in_walk_def uncommitted_def recovering_def)
  show ?thesis
    using d(1) w walking_bk [of "decide dv"] same_hold_commit_abort [of "decide dv" ThawRequested]
      same_hold_ops(4) [of "decide dv"]
    by (auto simp: after_walk_def Let_def book_inv_iff same_hold_def conclude_fields split: prod.splits)
qed

lemma bk_upd:
  "bk (dv\<lparr>dv_ctx := cx\<rparr>) = bk dv" "bk (dv\<lparr>dv_frozen := n, dv_ctx := cx\<rparr>) = bk dv"
  "bk dv \<Longrightarrow> bk (dv\<lparr>dv_uncertain := True, dv_unrecoverable := get_or_insert (dv_unrecoverable dv) x\<rparr>)"
  "bk (publish f dv) = bk dv" "bk (refresh_pass_done dv) = bk dv" "bk (set_kernel k dv) = bk dv"
  "bk (set_dir d dv) = bk dv" "bk (dv\<lparr>dv_op := op\<rparr>) = bk dv"
  "bk (dv\<lparr>dv_frozen := n\<rparr>) = bk dv"
  by (cases x; auto simp: bk_def driver_defs Let_def get_or_insert_def split: option.splits)+

lemma after_worker_book:
  assumes "in_walk dv" "bk dv"
  shows "book_inv (after_worker t rest res dv)"
proof -
  define pv where "pv = publish (\<lambda>p. p\<lparr>pg_in_flight := None\<rparr>) dv"
  have pv: "in_walk pv" "bk pv" using assms by (simp_all add: pv_def frame_simps bk_upd)
  show ?thesis
  proof (cases res)
    case (Inl err)
    define u where "u = pv\<lparr>dv_uncertain := True, dv_unrecoverable := get_or_insert (dv_unrecoverable pv)
      (from_utf8_lossy (tg_mountpoint t), ''freeze worker lost ('' @ err @ ''); FIFREEZE outcome unknown'')\<rparr>"
    have "in_walk (commit_abort WorkerLost u)"
      unfolding u_def in_walk_def using worker_lost_recovering [OF pv(1)] by blast
    moreover have "bk (commit_abort WorkerLost u)"
      using bk_upd(3) [OF pv(2)] same_hold_commit_abort [of u WorkerLost] by (simp add: u_def same_hold_def)
    moreover have "after_worker t rest res dv = after_walk (commit_abort WorkerLost u)"
      unfolding after_worker_def Let_def u_def pv_def Inl by simp
    ultimately show ?thesis using after_walk_book by metis
  next
    case (Inr oc)
    then show ?thesis
      using pv(2) same_hold_decide [of pv]
      by (cases oc)
         (auto simp: after_worker_def pv_def [symmetric] Let_def book_inv_iff same_hold_def bk_upd split: prod.splits)
  qed
qed

lemma walk_round_book:
  assumes "in_walk dv" "bk dv"
  shows "book_inv (walk_round ts dv)"
  using assms after_walk_book [of dv] after_walk_book [of "decide dv"] in_walk_decide [of dv]
    same_hold_decide [of dv]
  by (auto simp: walk_round_def Let_def book_inv_iff bk_upd same_hold_def split: list.splits)

lemma conclude_book:
  "dv_kept dv = [] \<Longrightarrow> dv_recovery dv = None \<Longrightarrow> book_inv (conclude fin r dv, OpDone fin')"
  by (simp add: book_inv_iff conclude_fields)

lemma after_prep_book:
  assumes "in_walk dv" "bk dv"
  shows "book_inv (after_prep res dv)"
proof -
  have w: "dv_abort dv = None \<Longrightarrow> dv_kept dv = [] \<and> dv_recovery dv = None"
    using assms by (auto simp: in_walk_def uncommitted_def recovering_def walking_def)
  have "book_inv (settle_before_ioctl f dv)" for f
    using assms(2) w by (cases f) (auto simp: settle_before_ioctl_def conclude_fields book_inv_iff)
  then show ?thesis
    using assms(2) by (auto simp: after_prep_def book_inv_iff bk_upd split: sum.splits)
qed

lemma settle_book:
  assumes "bk dv"
  shows "book_inv (settle_aborted_round dv)"
proof -
  define d1 where "d1 = (case dv_recovery dv of
      Some (DrainDone res) \<Rightarrow> record_recovery res (dv\<lparr>dv_recovery := None\<rparr>) | _ \<Rightarrow> dv)"
  define d2 where "d2 = refresh_pass_done (start_recovery_if_needed d1)"
  have "same_hold dv d1"
    by (auto simp: d1_def same_hold_refl same_hold_record split: option.splits drain_task.splits)
  then have "same_hold dv d2"
    unfolding d2_def using same_hold_ops(2,6) same_hold_trans by blast
  then have "bk d2" using assms by (simp add: same_hold_def)
  then show ?thesis
    unfolding settle_aborted_round_def d1_def [symmetric] d2_def [symmetric] Let_def
    by (auto simp: book_inv_iff conclude_fields split: option.splits)
qed

lemma bk_kept: "bk dv \<Longrightarrow> dv_unrecoverable dv = None \<Longrightarrow> dv_kept dv = [] \<and> \<not> dv_uncertain dv"
  by (simp add: bk_def)

lemma complete_book:
  assumes "control_inv (dv, q)" "book_inv (dv, q)" "complete tx q dv = Some s"
  shows "book_inv s"
  using assms after_prep_book after_worker_book walking_bk [of dv] bk_kept [of dv]
  by (cases "(tx, q, dv)" rule: complete.cases)
     (auto simp: in_walk_control book_inv_iff after_nothing_frozen_def after_prep_removal_def
       after_aborted_removal_def after_rollback_def conclude_fields uncommitted_def
       split: sum.splits prod.splits simp del: control_inv.simps(1-3))

lemma complete_quiet:
  assumes "control_inv (dv, q)" "book_inv (dv, q)" "complete tx q dv = Some s" "quiet s"
  shows "quiet (dv, q) \<or> tracked (dv, q) = [] \<and> \<not> lost (dv, q)"
proof -
  have "\<not> quiet (after_worker t rest res dv)" for t rest res
    by (cases res) (auto simp: after_worker_def Let_def after_walk_pc split: target_outcome.splits prod.splits)
  then show ?thesis
    using assms walking_bk [of dv] bk_kept [of dv] uncommitted_abort [of dv]
    by (cases "(tx, q, dv)" rule: complete.cases)
       (auto simp: after_prep_def settle_before_ioctl_def after_rollback_def tracked_def lost_def dl_def
         book_inv_iff uncommitted_def split: sum.splits if_splits prod.splits freeze_failure.splits)
qed

lemma walk_quiet: "\<not> quiet (walk_round ts dv)" "\<not> quiet (settle_aborted_round dv)"
  by (auto simp: walk_round_def settle_aborted_round_def Let_def after_walk_pc split: list.splits option.splits)

text \<open>A quiet state has no drain in flight.\<close>

lemma quiet_no_drain:
  assumes "quiet (dv, q)" "control_inv (dv, q)" "book_inv (dv, q)"
  shows "dv_recovery dv = None"
  using assms
  by (cases q) (auto simp: uncommitted_def walking_def recovering_def book_inv_iff)

text \<open>Where the marker has to be on disk: a freeze may be issued, or a failed one is being undone.\<close>

fun marker_needed :: "pc \<Rightarrow> bool" where
  "marker_needed (Walk ts) = True"
| "marker_needed (AwaitWorker t ts w) = True"
| "marker_needed (AwaitPrep r (PrepDone (Inr (Inr plan)))) = True"
| "marker_needed (AwaitRollback (RollbackRunning held failed stop)) = True"
| "marker_needed _ = False"

lemma complete_needed: "complete tx q dv = Some s \<Longrightarrow> marker_needed (snd s) \<Longrightarrow> marker_needed q"
  by (cases "(tx, q, dv)" rule: complete.cases)
     (auto simp: after_prep_def settle_before_ioctl_def after_nothing_frozen_def after_prep_removal_def
       after_rollback_def after_aborted_removal_def split: sum.splits if_splits prod.splits freeze_failure.splits)

lemma settle_needed: "\<not> marker_needed (snd (settle_aborted_round dv))"
  by (simp add: settle_aborted_round_def Let_def split: option.splits)

lemma run_prep_marker:
  assumes "posix_dir (en_dir E)" "run_prep E entries restrict dv = (dv', r)"
  shows "marker_exists (en_dir E) (cx_dir (dv_ctx dv)) (en_marker E) \<Longrightarrow>
      marker_exists (en_dir E) (cx_dir (dv_ctx dv')) (en_marker E)"
    and "is_ok r \<Longrightarrow> marker_exists (en_dir E) (cx_dir (dv_ctx dv')) (en_marker E)"
    and "cx_kernel (dv_ctx dv') = cx_kernel (dv_ctx dv)"
proof -
  note mono = create_keeps [OF assms(1), of "cx_dir (dv_ctx dv)" "en_marker E"]
    created_exists [OF assms(1), of "cx_dir (dv_ctx dv)" "en_marker E"]
  show "marker_exists (en_dir E) (cx_dir (dv_ctx dv)) (en_marker E) \<Longrightarrow>
      marker_exists (en_dir E) (cx_dir (dv_ctx dv')) (en_marker E)"
    "is_ok r \<Longrightarrow> marker_exists (en_dir E) (cx_dir (dv_ctx dv')) (en_marker E)"
    "cx_kernel (dv_ctx dv') = cx_kernel (dv_ctx dv)"
    using assms(2) mono
    by (cases "build_plan FfPlan entries restrict";
        auto simp: run_prep_def Let_def frame_simps split: sum.splits prod.splits)+
qed

context freeze_depth
begin

definition depth_inv where
  "depth_inv F0 s \<longleftrightarrow> ok (cx_kernel (dv_ctx (fst s))) \<and>
     (lost s \<or> accounted depth F0 (cx_kernel (dv_ctx (fst s))) (tracked s)) \<and>
     (quiet s \<longrightarrow> accounted depth F0 (cx_kernel (dv_ctx (fst s))) [])"

lemma depth_inv_same:
  assumes "depth_inv F0 s" "set (tracked s') = set (tracked s)" "lost s' = lost s"
    "cx_kernel (dv_ctx (fst s')) = cx_kernel (dv_ctx (fst s))" "quiet s' \<Longrightarrow> quiet s \<or> tracked s = [] \<and> \<not> lost s"
  shows "depth_inv F0 s'"
  using assms unfolding depth_inv_def by (auto simp: accounted_def)

lemma depth_inv_carries:
  assumes "depth_inv F0 s" "carries s s'" "quiet s' \<Longrightarrow> quiet s \<or> tracked s = [] \<and> \<not> lost s"
  shows "depth_inv F0 s'"
  using assms(2) by (intro depth_inv_same [OF assms(1) _ _ _ assms(3)]) (auto simp: carries_def)

lemma drain_step_depth:
  assumes "ok k" "drain_held_step tx K m (k, rc, keep, inc) = (k', rc', keep', inc')"
  shows "ok k' \<and> depth k' \<le> depth k \<and> set keep \<subseteq> set keep' \<and> (m \<in> set keep' \<or> depth k' (mn_dev m) = 0) \<and>
    (inc' = None \<longrightarrow> inc = None \<and> keep' = keep)"
  using drain_held_fold [of k tx "[m]" rc keep inc k' rc' keep' inc'] assms by (simp add: settled_def)

lemma rollback_depth:
  assumes "ok k" "rollback tx K D mk k d held failed cause = (k', d', held', f)"
  shows "ok k' \<and> depth k' \<le> depth k \<and> (\<forall>m \<in> set held. m \<in> set held' \<or> depth k' (mn_dev m) = 0) \<and>
    (\<not> retains_frozen_state f \<longrightarrow> held' = [] \<and> (\<forall>t. f \<noteq> FfTask t))"
proof -
  obtain k1 rc keep inc where dh: "drain_held tx K k held = (k1, rc, keep, inc)"
    by (metis surj_pair)
  have "k' = k1"
    using assms(2) dh by (auto simp: rollback_def Let_def split: option.splits prod.splits)
  then show ?thesis
    using drain_held_fold [OF assms(1) dh [unfolded drain_held_def]] rollback_cases [OF assms]
    by (auto simp: list_all_iff settled_def retains_frozen_state_def)
qed

lemma drain_depth_inv:
  assumes "control_inv (dv, q)" "book_inv (dv, q)" "depth_inv F0 (dv, q)"
    and "dv_recovery dv = Some (DrainRunning (m # ms) rc keep inc)"
    and "drain_held_step tx K m (cx_kernel (dv_ctx dv), rc, keep, inc) = (k, rc', keep', inc')"
  shows "depth_inv F0 (set_kernel k (dv\<lparr>dv_recovery := Some (DrainRunning ms rc' keep' inc')\<rparr>), q)"
proof -
  let ?dv = "set_kernel k (dv\<lparr>dv_recovery := Some (DrainRunning ms rc' keep' inc')\<rparr>)"
  let ?k = "cx_kernel (dv_ctx dv)"
  have okk: "ok ?k" using assms(3) by (simp add: depth_inv_def)
  note st = drain_step_depth [OF okk assms(5)]
  have "\<not> quiet (dv, q)" using quiet_no_drain assms(1,2,4) by fastforce
  then have nq: "\<not> quiet (?dv, q)" by (cases q) (simp_all add: set_kernel_def)
  have lost: "lost (?dv, q) = lost (dv, q)" by (simp add: lost_def assms(4) frame_simps)
  have "accounted depth F0 k (tracked (?dv, q))" if acc: "accounted depth F0 ?k (tracked (dv, q))"
    using acc st by (elim accounted_settled) (auto simp: tracked_def assms(4) frame_simps)
  then show ?thesis
    using assms(3) st nq lost by (auto simp: depth_inv_def frame_simps)
qed

lemma env_depth_inv:
  fixes dv dv' :: "('k, 'd) driver"
  assumes "depth_inv F0 (dv, q)" "dm dv' = dm dv" "dl dv' = dl dv" "dv_abort dv' = dv_abort dv"
    "cx_kernel (dv_ctx dv') = cx_kernel (dv_ctx dv)"
  shows "depth_inv F0 (dv', q)"
  by (rule depth_inv_same [OF assms(1)])
     (use assms in \<open>cases q; simp add: tracked_set lost_iff\<close>)+

lemma worker_depth_inv:
  assumes "depth_inv F0 (dv, AwaitWorker t ts w)" "ok k" "pc_mounts (AwaitWorker t ts w) = []"
    and "\<not> lost (dv, AwaitWorker t ts w) \<Longrightarrow> pc_lost (AwaitWorker t ts w') \<or>
      depth k = depth (cx_kernel (dv_ctx dv)) \<or>
      (\<exists>m. pc_mounts (AwaitWorker t ts w') = [m] \<and>
         depth k = (depth (cx_kernel (dv_ctx dv)))(mn_dev m := depth (cx_kernel (dv_ctx dv)) (mn_dev m) + 1))"
    and "pc_lost (AwaitWorker t ts w) \<Longrightarrow> pc_lost (AwaitWorker t ts w')"
  shows "depth_inv F0 (set_kernel k dv, AwaitWorker t ts w')"
proof (cases "lost (dv, AwaitWorker t ts w)")
  case True
  then show ?thesis
    using assms(2,5) by (auto simp: depth_inv_def lost_def frame_simps)
next
  case False
  have "accounted depth F0 k (tracked (set_kernel k dv, AwaitWorker t ts w'))" (is ?acc')
    if "depth k = depth (cx_kernel (dv_ctx dv)) \<or> (\<exists>m. pc_mounts (AwaitWorker t ts w') = [m] \<and>
      depth k = (depth (cx_kernel (dv_ctx dv)))(mn_dev m := depth (cx_kernel (dv_ctx dv)) (mn_dev m) + 1))"
    using that
  proof
    have acc: "accounted depth F0 (cx_kernel (dv_ctx dv)) (tracked (dv, AwaitWorker t ts w))"
      using assms(1) False by (simp add: depth_inv_def)
    have sub: "set (tracked (dv, AwaitWorker t ts w)) \<union> set (pc_mounts (AwaitWorker t ts w')) \<subseteq>
        set (tracked (set_kernel k dv, AwaitWorker t ts w'))"
      using assms(3) by (auto simp: tracked_def frame_simps)
    show "?acc'" if "depth k = depth (cx_kernel (dv_ctx dv))"
      using accounted_same [OF acc that] sub by blast
    show "?acc'" if "\<exists>m. pc_mounts (AwaitWorker t ts w') = [m] \<and>
      depth k = (depth (cx_kernel (dv_ctx dv)))(mn_dev m := depth (cx_kernel (dv_ctx dv)) (mn_dev m) + 1)"
      using that accounted_add [OF acc] sub by fastforce
  qed
  then show ?thesis
    using assms(2,4) False by (auto simp: depth_inv_def lost_def frame_simps)
qed

lemma rollback_depth_inv:
  assumes "control_inv (dv, AwaitRollback (RollbackRunning held failed stop))"
    "depth_inv F0 (dv, AwaitRollback (RollbackRunning held failed stop))"
    "rollback tx K D mk (cx_kernel (dv_ctx dv)) d0 held failed stop = (k, d, keep, f)"
  shows "depth_inv F0 (set_dir d (set_kernel k dv), AwaitRollback (RollbackDone (Ok (f, keep))))"
    and "depth_inv F0 (set_dir d (set_kernel k dv), AwaitRollback (RollbackDone (Err err)))"
proof -
  have okk: "ok (cx_kernel (dv_ctx dv))" using assms(2) by (simp add: depth_inv_def)
  note rb = rollback_depth [OF okk assms(3)]
  have w: "\<not> dv_uncertain dv" "dv_recovery dv = None" "dv_kept dv = []" "cx_frozen_mounts (dv_ctx dv) = []"
    using assms(1) by (simp_all add: uncommitted_def walking_def)
  then have "accounted depth F0 (cx_kernel (dv_ctx dv)) held"
    using assms(2) by (auto simp: depth_inv_def lost_def tracked_def)
  then have "accounted depth F0 k keep"
    using rb by (elim accounted_settled) auto
  then show "depth_inv F0 (set_dir d (set_kernel k dv), AwaitRollback (RollbackDone (Ok (f, keep))))"
    "depth_inv F0 (set_dir d (set_kernel k dv), AwaitRollback (RollbackDone (Err err)))"
    using rb w by (auto simp: depth_inv_def lost_def tracked_def frame_simps)
qed

lemma open_depth_inv:
  assumes "depth_inv F0 (dv, AwaitWorker t ts WorkerSpawned)"
    "open_target tx K (cx_kernel (dv_ctx dv)) t = (k, r)"
  shows "depth_inv F0 (set_kernel k dv, AwaitWorker t ts w)"
proof (rule worker_depth_inv [OF assms(1)])
  have "ok (cx_kernel (dv_ctx dv))" using assms(1) by (simp add: depth_inv_def)
  note d = open_target_depth [OF this assms(2)]
  then show "ok k" by blast
  show "pc_lost (AwaitWorker t ts w) \<or> depth k = depth (cx_kernel (dv_ctx dv)) \<or>
    (\<exists>m. pc_mounts (AwaitWorker t ts w) = [m] \<and>
       depth k = (depth (cx_kernel (dv_ctx dv)))(mn_dev m := depth (cx_kernel (dv_ctx dv)) (mn_dev m) + 1))"
    using d by blast
qed simp_all

lemma ioctl_depth_inv:
  assumes "depth_inv F0 (dv, AwaitWorker t ts (WorkerAuthorised m))"
    "k_fifreeze K (cx_kernel (dv_ctx dv)) m = (k, r)"
  shows "depth_inv F0 (set_kernel k dv, AwaitWorker t ts (WorkerDone (Ok (freeze_outcome m r))))"
    and "depth_inv F0 (set_kernel k dv, AwaitWorker t ts (WorkerDone (Err err)))"
proof -
  have okk: "ok (cx_kernel (dv_ctx dv))" using assms(1) by (simp add: depth_inv_def)
  have ok: "ok k" using ok_freeze [OF okk, of m] assms(2) by simp
  have d: "depth k = (if is_ok r then (depth (cx_kernel (dv_ctx dv)))(mn_dev m := depth (cx_kernel (dv_ctx dv)) (mn_dev m) + 1)
      else depth (cx_kernel (dv_ctx dv)))"
    using depth_freeze [OF okk, of m] assms(2) by simp
  show "depth_inv F0 (set_kernel k dv, AwaitWorker t ts (WorkerDone (Ok (freeze_outcome m r))))"
    by (rule worker_depth_inv [OF assms(1) ok]) (use d in \<open>cases r; simp add: freeze_outcome_def\<close>)+
  show "depth_inv F0 (set_kernel k dv, AwaitWorker t ts (WorkerDone (Err err)))"
    using ok by (simp add: depth_inv_def lost_def frame_simps)
qed

lemma abort_depth_inv:
  assumes "armed_signal dv q" "control_inv (dv, q)" "depth_inv F0 (dv, q)"
  shows "depth_inv F0 (take_abort dv, q)"
proof (rule depth_inv_carries [OF assms(3)])
  show "carries (dv, q) (take_abort dv, q)"
    using same_hold_take_abort [of dv] by (simp add: carries_def tracked_set lost_iff same_hold_def)
  have "dv_abort (take_abort dv) \<noteq> None"
    by (rule recovering_abort [OF take_abort_recovering [OF assms(2,1)]])
  moreover assume "quiet (take_abort dv, q)"
  ultimately show "quiet (dv, q) \<or> tracked (dv, q) = [] \<and> \<not> lost (dv, q)"
    using assms(1) by (cases q) (auto simp: armed_signal_def)
qed

lemma recovered_depth_inv:
  assumes "dv_recovery dv = Some (DrainDone res)" "depth_inv F0 (dv, q)"
  shows "depth_inv F0 (refresh_pass_done (start_recovery_if_needed (record_recovery res (dv\<lparr>dv_recovery := None\<rparr>))), q)"
proof -
  let ?dv = "refresh_pass_done (start_recovery_if_needed (record_recovery res (dv\<lparr>dv_recovery := None\<rparr>)))"
  have "same_hold dv ?dv"
    using same_hold_record [OF assms(1)] same_hold_ops(2,6) same_hold_trans by blast
  moreover have "dv_abort ?dv = dv_abort dv"
    by (simp add: driver_defs Let_def slot_defs split: sum.splits)
  ultimately show ?thesis
    using env_depth_inv [OF assms(2)] by (simp add: same_hold_def)
qed

lemma drain_end_depth_inv:
  assumes "dv_recovery dv = Some (DrainRunning ms rc keep inc)" "control_inv (dv, q)" "book_inv (dv, q)"
    "depth_inv F0 (dv, q)"
  shows "ms = [] \<Longrightarrow> depth_inv F0
      (dv\<lparr>dv_recovery := Some (DrainDone (Ok \<lparr>rp_recovered = rc, rp_keep = keep, rp_incomplete = inc\<rparr>))\<rparr>, q)"
    and "depth_inv F0 (dv\<lparr>dv_recovery := Some (DrainDone (Err err))\<rparr>, q)"
proof -
  have "\<not> quiet (dv, q)" using quiet_no_drain [of dv q] assms by auto
  then have nq: "\<not> quiet (dv\<lparr>dv_recovery := dr\<rparr>, q)" for dr by (cases q) simp_all
  then show "depth_inv F0 (dv\<lparr>dv_recovery := Some (DrainDone (Err err))\<rparr>, q)"
    using assms(4) by (auto simp: depth_inv_def lost_def)
  show "ms = [] \<Longrightarrow> depth_inv F0
      (dv\<lparr>dv_recovery := Some (DrainDone (Ok \<lparr>rp_recovered = rc, rp_keep = keep, rp_incomplete = inc\<rparr>))\<rparr>, q)"
    by (rule env_depth_inv [OF assms(4)]) (simp_all add: dm_def dl_def assms(1))
qed

lemma pc_depth_inv:
  fixes dv dv' :: "('k, 'd) driver"
  assumes "depth_inv F0 (dv, q)" "cx_kernel (dv_ctx dv') = cx_kernel (dv_ctx dv)" "dm dv' = dm dv" "dl dv' = dl dv"
    "pc_mounts q' = pc_mounts q" "pc_lost q' = pc_lost q" "quiet (dv', q') = quiet (dv, q)"
  shows "depth_inv F0 (dv', q')"
  by (rule depth_inv_same [OF assms(1)]) (use assms in \<open>simp_all add: tracked_set lost_iff\<close>)

text \<open>A step of a task that leaves the handles and the kernel alone.\<close>

lemma worker_lost_depth_inv:
  "depth_inv F0 (dv, q) \<Longrightarrow> \<not> quiet (dv, q') \<Longrightarrow> pc_lost q' \<Longrightarrow> depth_inv F0 (dv, q')"
  by (simp add: depth_inv_def lost_def)

lemma removal_depth_inv:
  assumes "depth_inv F0 (dv, q)" "removal_task q = Some mk"
  shows "depth_inv F0 (dv, mk t)" "depth_inv F0 (set_dir d dv, mk t)"
  using assms
  by (cases q rule: removal_task.cases; auto intro!: pc_depth_inv [OF assms(1)] simp: set_dir_def hold_defs)+

lemma prep_depth_inv:
  assumes "depth_inv F0 (dv, AwaitPrep restrict t)" "run_prep E entries restrict dv = (dv', r)"
  shows "depth_inv F0 (dv', AwaitPrep restrict t')"
proof -
  obtain d where "dv' = set_dir d dv" using run_prep_frame [OF assms(2)] by blast
  then show ?thesis
    by (intro pc_depth_inv [OF assms(1)]) (auto simp: set_dir_def hold_defs)
qed

lemma op_step_depth_inv:
  assumes "op_step E s s'" "en_kernel E = K" "control_inv s" "book_inv s" "depth_inv F0 s"
  shows "depth_inv F0 s'"
  using assms(1)
proof cases
  case (os_check dv t ts m)
  then show ?thesis
    using pc_depth_inv [of F0 dv "AwaitWorker t ts (WorkerOpened m)" dv] assms(5) by simp
next
  case (os_complete q dv)
  then show ?thesis
    using depth_inv_carries [OF assms(5)] complete_carries complete_quiet assms(3,4) by metis
next
  case (os_walk dv ts)
  then show ?thesis using depth_inv_carries [OF assms(5)] walk_round_carries walk_quiet(1) by blast
next
  case (os_settle dv)
  then show ?thesis using depth_inv_carries [OF assms(5)] settle_carries walk_quiet(2) by blast
next
  case (os_drain dv m ms rc keep inc k rc' keep' inc' q)
  then show ?thesis using drain_depth_inv assms by simp
next
  case (os_drain_end dv rc keep inc q)
  then show ?thesis using drain_end_depth_inv(1) [of dv "[]" rc keep inc q F0] assms by simp
next
  case (os_drain_lost dv ms rc keep inc q err)
  then show ?thesis using drain_end_depth_inv(2) assms by simp
next
  case (os_rollback dv held failed stop k d keep f)
  then show ?thesis using rollback_depth_inv(1) assms by simp
next
  case (os_rollback_lost_late dv held failed stop k d keep f err)
  then show ?thesis using rollback_depth_inv(2) assms by simp
next
  case (os_time dv q n)
  then show ?thesis using env_depth_inv [of F0 dv q] assms(5) by (simp add: hold_defs)
next
  case (os_request dv q)
  then show ?thesis using env_depth_inv [of F0 dv q] assms(5) by (simp add: hold_defs)
next
  case (os_notify dv q)
  then show ?thesis using env_depth_inv [of F0 dv q] assms(5) by (simp add: hold_defs)
next
  case (os_prep_lost dv restrict err)
  then show ?thesis using pc_depth_inv [of F0 dv "AwaitPrep restrict PrepRunning" dv] assms(5) by simp
next
  case (os_worker_lost w dv t ts err)
  then show ?thesis using worker_lost_depth_inv [of F0 dv "AwaitWorker t ts w"] assms(5) by simp
next
  case (os_rollback_lost dv held failed stop err)
  then show ?thesis
    using worker_lost_depth_inv [of F0 dv "AwaitRollback (RollbackRunning held failed stop)"] assms(5) by simp
qed (use assms prep_depth_inv open_depth_inv ioctl_depth_inv abort_depth_inv recovered_depth_inv
      removal_depth_inv in \<open>simp_all\<close>)

lemma book_step:
  assumes "op_step E s s'" "en_kernel E = K" "control_inv s" "book_inv s" "ok (cx_kernel (dv_ctx (fst s)))"
  shows "book_inv s'"
  using assms(1)
proof cases
  case (os_drain dv m ms rc keep inc k rc' keep' inc' q)
  moreover have "\<not> is_done q" using assms(4) os_drain by (auto simp: book_inv_iff)
  ultimately show ?thesis
    using drain_step_depth [of "cx_kernel (dv_ctx dv)" "en_tx E" m rc keep inc k rc' keep' inc'] assms
    by (auto simp: book_inv_iff bk_upd) (auto simp: bk_def)
next
  case (os_rollback dv held failed stop k d keep f)
  then show ?thesis
    using rollback_depth [of "cx_kernel (dv_ctx dv)" "en_tx E" "en_dir E" "en_marker E"] assms
    by (auto simp: book_inv_iff bk_upd)
next
  case (os_abort dv q)
  moreover have "\<not> is_done q" using os_abort by (cases q) (auto simp: armed_signal_def)
  ultimately show ?thesis
    using same_hold_take_abort [of dv] assms(4) by (auto simp: book_inv_iff same_hold_def)
next
  case (os_recovered q dv res)
  have "same_hold dv (refresh_pass_done (start_recovery_if_needed (record_recovery res (dv\<lparr>dv_recovery := None\<rparr>))))"
    using same_hold_record [OF os_recovered(5)] same_hold_ops(2,6) same_hold_trans by blast
  moreover have "\<not> is_done q" using os_recovered by (cases q) auto
  ultimately show ?thesis
    using os_recovered assms(4) by (simp add: book_inv_iff same_hold_def)
next
  case (os_complete q dv)
  then show ?thesis using complete_book assms(3,4) by blast
next
  case (os_walk dv ts)
  then show ?thesis using walk_round_book assms(3,4) by (simp add: book_inv_iff in_walk_def)
next
  case (os_settle dv)
  then show ?thesis using settle_book assms(4) by (simp add: book_inv_iff)
next
  case (os_prep entries restrict dv dv' r)
  then show ?thesis
    using run_prep_frame [of E entries restrict dv dv' r] assms(4) by (auto simp: book_inv_iff bk_upd)
next
  case (os_prep_lost_late entries restrict dv dv' r err)
  then show ?thesis
    using run_prep_frame [of E entries restrict dv dv' r] assms(4) by (auto simp: book_inv_iff bk_upd)
next
  case (os_remove q mk dv d r)
  then show ?thesis
    using assms(4) by (cases q rule: removal_task.cases) (auto simp: book_inv_iff bk_upd)
next
  case (os_remove_lost q mk dv err)
  then show ?thesis
    using assms(4) by (cases q rule: removal_task.cases) (auto simp: book_inv_iff bk_upd)
next
  case (os_remove_lost_late q mk dv d r err)
  then show ?thesis
    using assms(4) by (cases q rule: removal_task.cases) (auto simp: book_inv_iff bk_upd)
next
  case (os_ioctl dv m k r t ts)
  then show ?thesis using assms(4) by (simp add: book_inv_iff bk_upd)
qed (use assms(4) in \<open>auto simp: book_inv_iff bk_def set_kernel_def set_dir_def\<close>)

text \<open>The marker is on disk, or everything frozen was so before the operation.\<close>

definition marker_inv where
  "marker_inv E F0 s \<longleftrightarrow>
     (marker_needed (snd s) \<longrightarrow> marker_exists (en_dir E) (cx_dir (dv_ctx (fst s))) (en_marker E)) \<and>
     (marker_exists (en_dir E) (cx_dir (dv_ctx (fst s))) (en_marker E) \<or>
      accounted depth F0 (cx_kernel (dv_ctx (fst s))) [])"

lemma marker_inv_same:
  assumes "marker_inv E F0 s" "cx_dir (dv_ctx (fst s')) = cx_dir (dv_ctx (fst s))"
    "marker_needed (snd s') \<Longrightarrow> marker_needed (snd s)"
    "depth (cx_kernel (dv_ctx (fst s'))) \<le> depth (cx_kernel (dv_ctx (fst s))) \<or> marker_needed (snd s)"
  shows "marker_inv E F0 s'"
proof -
  have "accounted depth F0 k' []" if "depth k' \<le> depth k" "accounted depth F0 k []" for k k'
    using accounted_settled [OF that(2,1)] by simp
  with assms show ?thesis unfolding marker_inv_def by metis
qed

lemma carries_marker_inv:
  "marker_inv E F0 s \<Longrightarrow> carries s s' \<Longrightarrow> (marker_needed (snd s') \<Longrightarrow> marker_needed (snd s)) \<Longrightarrow>
   marker_inv E F0 s'"
  by (rule marker_inv_same) (auto simp: carries_def)

lemma same_marker_inv: "marker_inv E F0 (dv, q) \<Longrightarrow> same_hold dv dv' \<Longrightarrow> marker_inv E F0 (dv', q)"
  by (erule marker_inv_same) (auto simp: same_hold_def)

text \<open>Wherever the marker is removed, nothing new is frozen.\<close>

lemma removal_accounted:
  assumes "removal_task q = Some mk" "control_inv (dv, q)" "book_inv (dv, q)" "depth_inv F0 (dv, q)"
  shows "accounted depth F0 (cx_kernel (dv_ctx dv)) []"
proof -
  have "quiet (dv, q) \<or> tracked (dv, q) = [] \<and> \<not> lost (dv, q)"
    using assms(1-3) walking_bk [of dv] bk_kept [of dv] uncommitted_abort [of dv]
    by (cases q rule: removal_task.cases)
       (auto simp: tracked_def lost_def dl_def book_inv_iff)
  then show ?thesis using assms(4) by (auto simp: depth_inv_def)
qed

lemma removal_marker_inv:
  assumes "removal_task q = Some mk" "control_inv (dv, q)" "book_inv (dv, q)" "depth_inv F0 (dv, q)"
  shows "marker_inv E F0 (set_dir d dv, mk t)" "marker_inv E F0 (dv, mk t)"
  using removal_accounted [OF assms] assms(1)
  by (cases q rule: removal_task.cases; auto simp: marker_inv_def frame_simps)+

lemma rollback_marker_inv:
  assumes "posix_dir (en_dir E)" "marker_inv E F0 (dv, AwaitRollback (RollbackRunning held failed stop))"
    "depth_inv F0 (dv, AwaitRollback (RollbackRunning held failed stop))"
    "control_inv (dv, AwaitRollback (RollbackRunning held failed stop))"
    "rollback tx K (en_dir E) (en_marker E) (cx_kernel (dv_ctx dv)) (cx_dir (dv_ctx dv)) held failed stop = (k, d, keep, f)"
  shows "marker_inv E F0 (set_dir d (set_kernel k dv), AwaitRollback (RollbackDone res))"
proof -
  have okk: "ok (cx_kernel (dv_ctx dv))" using assms(3) by (simp add: depth_inv_def)
  have ex: "marker_exists (en_dir E) (cx_dir (dv_ctx dv)) (en_marker E)"
    using assms(2) by (simp add: marker_inv_def)
  note rb = rollback_cases [OF okk assms(5)] and rd = rollback_depth [OF okk assms(5)]
  have w: "\<not> dv_uncertain dv" "dv_recovery dv = None" "dv_kept dv = []" "cx_frozen_mounts (dv_ctx dv) = []"
    using assms(4) by (simp_all add: uncommitted_def walking_def)
  then have "accounted depth F0 (cx_kernel (dv_ctx dv)) held"
    using assms(3) by (auto simp: depth_inv_def lost_def tracked_def)
  then have acc: "accounted depth F0 k keep"
    using rd by (elim accounted_settled) auto
  have "marker_exists (en_dir E) d (en_marker E) \<or> keep = []"
    using rb ex by auto
  then show ?thesis using acc by (auto simp: marker_inv_def frame_simps)
qed

lemma marker_step:
  assumes "op_step E s s'" "en_kernel E = K" "posix_dir (en_dir E)" "control_inv s" "book_inv s"
    "depth_inv F0 s" "marker_inv E F0 s"
  shows "marker_inv E F0 s'"
  using assms(1)
proof cases
  case (os_prep entries restrict dv dv' r)
  then show ?thesis
    using run_prep_marker [OF assms(3) os_prep(4)] assms(7)
    by (cases r) (auto simp: marker_inv_def)
next
  case (os_prep_lost_late entries restrict dv dv' r err)
  then show ?thesis
    using run_prep_marker [OF assms(3) os_prep_lost_late(4)] assms(7)
    by (auto simp: marker_inv_def)
next
  case (os_drain dv m ms rc keep inc k rc' keep' inc' q)
  have "ok (cx_kernel (dv_ctx dv))" using assms(6) os_drain(1) by (simp add: depth_inv_def)
  note st = drain_step_depth [OF this os_drain(4) [unfolded assms(2)]]
  show ?thesis
    by (rule marker_inv_same [OF assms(7)]) (use st os_drain in \<open>auto simp: frame_simps\<close>)
next
  case (os_complete q dv)
  then show ?thesis
    using carries_marker_inv [OF assms(7)] complete_carries complete_needed by (metis snd_conv)
next
  case (os_walk dv ts)
  then show ?thesis
    using carries_marker_inv [OF assms(7)] walk_round_carries by (metis marker_needed.simps(1) snd_conv)
next
  case (os_settle dv)
  then show ?thesis
    using carries_marker_inv [OF assms(7)] settle_carries settle_needed by metis
next
  case (os_abort dv q)
  then show ?thesis
    using same_marker_inv same_hold_take_abort assms(7) by blast
next
  case (os_recovered q dv res)
  have "same_hold dv (refresh_pass_done (start_recovery_if_needed (record_recovery res (dv\<lparr>dv_recovery := None\<rparr>))))"
    using same_hold_record [OF os_recovered(5)] same_hold_ops(2,6) same_hold_trans by blast
  then show ?thesis
    using same_marker_inv assms(7) os_recovered(1,2) by blast
next
  case (os_remove q mk dv d r)
  then show ?thesis using removal_marker_inv(1) assms by simp
next
  case (os_remove_lost q mk dv err)
  then show ?thesis using removal_marker_inv(2) assms by simp
next
  case (os_remove_lost_late q mk dv d r err)
  then show ?thesis using removal_marker_inv(1) assms by simp
next
  case (os_rollback dv held failed stop k d keep f)
  then show ?thesis using rollback_marker_inv assms by simp
next
  case (os_rollback_lost_late dv held failed stop k d keep f err)
  then show ?thesis using rollback_marker_inv assms by simp
next
  case (os_rollback_lost dv held failed stop err)
  then show ?thesis using assms(7) by (simp add: marker_inv_def)
qed (rule marker_inv_same [OF assms(7)]; simp add: frame_simps)+

text \<open>All of it together, from the start of an operation.\<close>

definition safe_inv where
  "safe_inv E F0 s \<longleftrightarrow> control_inv s \<and> book_inv s \<and> depth_inv F0 s \<and> marker_inv E F0 s"

lemma safe_step:
  "op_step E s s' \<Longrightarrow> en_kernel E = K \<Longrightarrow> posix_dir (en_dir E) \<Longrightarrow> safe_inv E F0 s \<Longrightarrow> safe_inv E F0 s'"
  unfolding safe_inv_def
  using control_step book_step op_step_depth_inv marker_step by (metis depth_inv_def)

lemma safe_start:
  assumes "op_start cx s" "ok (cx_kernel cx)" "accounted depth F0 (cx_kernel cx) []"
  shows "safe_inv E F0 s"
proof -
  obtain i restrict where "s = start_op i cx FreezeToken restrict"
    using assms(1) by (auto simp: op_start_def)
  then show ?thesis
    using assms op.inv_start [OF assms(1)] accounted_mono [OF assms(3), of "cx_frozen_mounts cx"]
    by (auto simp: safe_inv_def start_op_def set_freeze_op_def book_inv_def depth_inv_def marker_inv_def
        lost_def tracked_def)
qed

lemma safe_reachable:
  assumes "reachable (op_start cx) (op_step E) s" "ok (cx_kernel cx)" "en_kernel E = K" "posix_dir (en_dir E)"
  shows "safe_inv E {d. 0 < depth (cx_kernel cx) d} s"
  using assms(1)
proof (induction rule: reachable.induct)
  case (reach_start s)
  then show ?case by (rule safe_start [OF _ assms(2)]) (simp add: accounted_def)
next
  case (reach_step s t)
  then show ?case using safe_step assms(3,4) by blast
qed

end

section \<open>Properties\<close>

text \<open>
  C8. Crash safety of a freeze. At every point of every interleaving, the losses of blocking tasks
  included, either the recovery marker is on disk or every filesystem that is frozen was so before the
  operation began: a daemon killed there comes back up in recovery whenever the operation left
  something frozen.
\<close>

theorem frozen_implies_marker:
  assumes "reachable (op_start cx) (op_step E) (dv, q)" and "fake_tracking (cx_kernel cx)"
    and "en_kernel E = fake_kernel" and "posix_dir (en_dir E)"
  shows "marker_exists (en_dir E) (cx_dir (dv_ctx dv)) (en_marker E) \<or>
    (\<forall>d. 0 < fake_depth (cx_kernel (dv_ctx dv)) d \<longrightarrow> 0 < fake_depth (cx_kernel cx) d)"
  using fake.safe_reachable [OF assms]
  by (auto simp: fake.safe_inv_def fake.marker_inv_def accounted_def)

text \<open>
  C9. An operation that settles \<^verbatim>\<open>Thawed\<close> leaves no filesystem frozen that was not frozen before it.
\<close>

theorem settled_thawed_releases:
  assumes "reachable (op_start cx) (op_step E) (dv, OpDone TerminalThawed)" and "fake_tracking (cx_kernel cx)"
    and "en_kernel E = fake_kernel" and "posix_dir (en_dir E)"
  shows "fake_depth (cx_kernel (dv_ctx dv)) d = 0 \<or> 0 < fake_depth (cx_kernel cx) d"
proof -
  have "accounted fake_depth {d. 0 < fake_depth (cx_kernel cx) d} (cx_kernel (dv_ctx dv)) []"
    using fake.safe_reachable [OF assms(1-4)] by (simp add: fake.safe_inv_def fake.depth_inv_def)
  from accountedD [OF this, of d] show ?thesis by force
qed

text \<open>
  C10. An operation that settles \<^verbatim>\<open>Frozen\<close> and tells the next thaw to trust its handles (scope
  \<^verbatim>\<open>Tracked\<close>) has published a handle for every filesystem that is frozen and was not before: nothing
  it froze is left out of the set the thaw drains.
\<close>

theorem tracked_scope_is_complete:
  assumes "reachable (op_start cx) (op_step E) (dv, OpDone fin)" and "fake_tracking (cx_kernel cx)"
    and "en_kernel E = fake_kernel" and "posix_dir (en_dir E)"
    and "cx_thaw_scope (dv_ctx dv) = Tracked"
  shows "fake_depth (cx_kernel (dv_ctx dv)) d = 0 \<or> 0 < fake_depth (cx_kernel cx) d \<or>
    d \<in> mn_dev ` set (cx_frozen_mounts (dv_ctx dv))"
proof -
  note inv = fake.safe_reachable [OF assms(1-4), unfolded fake.safe_inv_def]
  have "\<not> dv_uncertain dv"
    using inv assms(5) by (auto simp: concluded_def split: if_splits)
  then have "\<not> lost (dv, OpDone fin)" "tracked (dv, OpDone fin) = cx_frozen_mounts (dv_ctx dv)"
    using inv by (auto simp: lost_def tracked_def book_inv_def)
  then have "accounted fake_depth {d. 0 < fake_depth (cx_kernel cx) d} (cx_kernel (dv_ctx dv))
      (cx_frozen_mounts (dv_ctx dv))"
    using inv by (simp add: fake.depth_inv_def)
  from accountedD [OF this, of d] show ?thesis by force
qed

section \<open>Witnesses\<close>

lemma example_fixtures:
  "fake_tracking (cx_kernel example_ctx)" "en_kernel example_env = fake_kernel" "posix_dir (en_dir example_env)"
  by (simp_all add: example_ctx_def example_env_def fake_tracking_def track_freeze_depth_def fake_new_def posix_plain_dir)

lemma example_unfrozen: "fake_depth (cx_kernel example_ctx) (8, 1) = 0"
  by code_simp

theorem frozen_implies_marker_witness:
  "fake_depth (cx_kernel (dv_ctx (fst (example_run 6)))) (8, 1) = 1 \<and>
   marker_exists plain_dir (cx_dir (dv_ctx (fst (example_run 6)))) example_marker"
proof -
  have "reachable (op_start example_ctx) (op_step example_env) (fst (example_run 6), snd (example_run 6))"
    using example_run_reachable [of 6] by simp
  note sat = frozen_implies_marker [OF this example_fixtures]
  have "fake_depth (cx_kernel (dv_ctx (fst (example_run 6)))) (8, 1) = 1" by code_simp
  moreover have "en_dir example_env = plain_dir" "en_marker example_env = example_marker"
    by (simp_all add: example_env_def)
  ultimately show ?thesis using sat example_unfrozen by (metis less_numeral_extra(1) less_numeral_extra(3))
qed

lemma example_abort_reachable: "reachable (op_start example_ctx) (op_step example_env) (example_abort 6)"
proof -
  have "op_step example_env (example_run 7) (example_abort 0)"
    using os_request [of example_env "fst (example_run 7)" "snd (example_run 7)"]
    by (simp add: example_abort_def case_prod_beta)
  then have "reachable (op_start example_ctx) (op_step example_env) (example_abort 0)"
    using example_run_reachable [of 7] by (auto intro: reachable.intros)
  with example_abort_run [of 0 6] show ?thesis
    by (metis le0 le_refl reachable_run)
qed

theorem settled_thawed_releases_witness:
  "\<exists>dv. example_abort 6 = (dv, OpDone TerminalThawed) \<and> fake_depth (cx_kernel (dv_ctx dv)) (8, 1) = 0"
proof -
  have s: "snd (example_abort 6) = OpDone TerminalThawed" by code_simp
  then have "reachable (op_start example_ctx) (op_step example_env) (fst (example_abort 6), OpDone TerminalThawed)"
    using example_abort_reachable by (metis prod.collapse)
  from settled_thawed_releases [OF this example_fixtures, of "(8, 1)"]
  have "fake_depth (cx_kernel (dv_ctx (fst (example_abort 6)))) (8, 1) = 0"
    using example_unfrozen by simp
  then show ?thesis using s by (intro exI [of _ "fst (example_abort 6)"]) (auto simp: prod_eq_iff)
qed

theorem tracked_scope_is_complete_witness:
  "(8, 1) \<in> mn_dev ` set (cx_frozen_mounts (dv_ctx (fst (example_run 8))))"
proof -
  have s: "snd (example_run 8) = OpDone TerminalFrozen" "cx_thaw_scope (dv_ctx (fst (example_run 8))) = Tracked"
    "fake_depth (cx_kernel (dv_ctx (fst (example_run 8)))) (8, 1) = 1"
    by code_simp+
  then have "reachable (op_start example_ctx) (op_step example_env) (fst (example_run 8), OpDone TerminalFrozen)"
    using example_run_reachable [of 8] by (metis le_refl prod.collapse)
  from tracked_scope_is_complete [OF this example_fixtures, of "(8, 1)"] s
  show ?thesis using example_unfrozen by simp
qed

end
