(* ===== verification/Watchdog.thy ===== *)
theory Watchdog
  imports Context
begin

text \<open>
  \<^verbatim>\<open>src/watchdog.rs\<close>: the timer task that thaws an abandoned freeze. \<open>watchdog_poll\<close> is one pass of the
  biased select of \<^verbatim>\<open>run\<close>, \<open>watchdog_loop\<close> the loop over the polls of a session (the time of each poll,
  and whether a cancellation or a heartbeat was notified since the one before), \<open>expire\<close> the claim an
  expired watchdog makes on the state machine.

  Shown: the hard cap holds whatever heartbeats arrive, and the watchdog never expires early.
\<close>

section \<open>The timer\<close>

datatype watchdog_event =
    WdPending
  | WdCancelled
  | WdExpired string nat
  | WdRefreshed

definition watchdog_poll :: "watchdog_config \<Rightarrow> nat \<Rightarrow> watchdog_task \<Rightarrow> watchdog_task \<times> watchdog_event" where
  "watchdog_poll cfg now w =
     (if wt_cancel w then (w\<lparr>wt_done := True\<rparr>, WdCancelled)
      else if now \<ge> wt_armed w + wc_max cfg then (w\<lparr>wt_done := True\<rparr>, WdExpired ''hard_cap'' now)
      else if now \<ge> wt_idle_deadline w then (w\<lparr>wt_done := True\<rparr>, WdExpired ''idle_timeout'' now)
      else if wt_refresh w
      then (w\<lparr>wt_refresh := False, wt_idle_deadline := now + wc_idle cfg\<rparr>, WdRefreshed)
      else (w, WdPending))"

text \<open>A poll of a session: its time, a cancellation and a heartbeat notified before it.\<close>

record poll =
  po_now :: nat
  po_cancel :: bool
  po_refresh :: bool

definition notified :: "poll \<Rightarrow> watchdog_task \<Rightarrow> watchdog_task" where
  "notified p w = w\<lparr>wt_cancel := wt_cancel w \<or> po_cancel p, wt_refresh := wt_refresh w \<or> po_refresh p\<rparr>"

fun watchdog_loop :: "watchdog_config \<Rightarrow> poll list \<Rightarrow> watchdog_task \<Rightarrow> watchdog_task \<times> watchdog_event" where
  "watchdog_loop cfg [] w = (w, WdPending)"
| "watchdog_loop cfg (p # ps) w =
     (let (w', e) = watchdog_poll cfg (po_now p) (notified p w) in
      if e = WdPending \<or> e = WdRefreshed then watchdog_loop cfg ps w' else (w', e))"

definition expire :: "freeze_state_machine \<Rightarrow> freeze_state_machine \<times> thaw_token option" where
  "expire m =
     (let (m', r) = claim_thaw_from_frozen m in
      case r of Ok token \<Rightarrow> (m', Some token) | Err e \<Rightarrow> (m', None))"

definition armed_at :: "watchdog_config \<Rightarrow> nat \<Rightarrow> watchdog_task" where
  "armed_at cfg t =
     \<lparr>wt_armed = t, wt_idle_deadline = t + wc_idle cfg, wt_refresh = False, wt_cancel = False, wt_done = False\<rparr>"

section \<open>Lemmas\<close>

lemma armed_arm:
  "cx_watchdogs (fst (watchdog_arm cx)) = cx_watchdogs cx @ [armed_at (cx_watchdog_cfg cx) (cx_now cx)]"
  by (simp add: watchdog_arm_def armed_at_def)

lemma loop_expires:
  assumes "list_all (\<lambda>p. \<not> po_cancel p) ps" "\<not> wt_cancel w"
    "p \<in> set ps" "wt_armed w + wc_max cfg \<le> po_now p" "sorted (map po_now ps)"
  shows "\<exists>cause t. snd (watchdog_loop cfg ps w) = WdExpired cause t \<and> t \<le> po_now p"
  using assms
proof (induction ps arbitrary: w)
  case (Cons q ps)
  have le: "po_now q \<le> po_now p" using Cons.prems(3,5) by auto
  show ?case
  proof (cases "watchdog_poll cfg (po_now q) (notified q w)")
    case (Pair w' e)
    have step: "\<not> wt_cancel w'" "wt_armed w' = wt_armed w"
      "e \<noteq> WdCancelled" "\<forall>c t. e = WdExpired c t \<longrightarrow> t = po_now q"
      "po_now q \<ge> wt_armed w + wc_max cfg \<Longrightarrow> e \<noteq> WdPending \<and> e \<noteq> WdRefreshed"
      using Pair Cons.prems(1,2) by (auto simp: watchdog_poll_def notified_def split: if_splits)
    show ?thesis
    proof (cases "e = WdPending \<or> e = WdRefreshed")
      case True
      then have "p \<in> set ps" using step(5) Cons.prems(3,4) by auto
      then show ?thesis
        using True Pair Cons.IH [of w'] Cons.prems step by auto
    next
      case False
      then obtain c where "e = WdExpired c (po_now q)" using step by (cases e) auto
      then show ?thesis using Pair le by auto
    qed
  qed
qed simp

lemma loop_not_early:
  assumes "snd (watchdog_loop cfg ps w) = WdExpired cause t" "sorted (map po_now ps)" "\<not> wt_refresh w"
    and "\<And>p. p \<in> set ps \<Longrightarrow> wt_idle_deadline w \<le> po_now p + wc_idle cfg"
  shows "\<exists>pre p post. ps = pre @ p # post \<and> po_now p = t \<and>
    (wt_armed w + wc_max cfg \<le> t \<or>
     wt_idle_deadline w \<le> t \<and> (\<forall>q \<in> set pre. po_refresh q \<longrightarrow> po_now q + wc_idle cfg \<le> t))"
  using assms
proof (induction ps arbitrary: w)
  case (Cons q ps)
  obtain w' e where poll: "watchdog_poll cfg (po_now q) (notified q w) = (w', e)" by fastforce
  show ?case
  proof (cases "e = WdPending \<or> e = WdRefreshed")
    case True
    have w': "\<not> wt_refresh w'" "wt_armed w' = wt_armed w" "wt_idle_deadline w \<le> wt_idle_deadline w'"
      "po_refresh q \<Longrightarrow> wt_idle_deadline w' = po_now q + wc_idle cfg"
      "\<not> po_refresh q \<Longrightarrow> wt_idle_deadline w' = wt_idle_deadline w"
      using poll True Cons.prems(3) Cons.prems(4) [of q]
      by (auto simp: watchdog_poll_def notified_def split: if_splits)
    have dl: "wt_idle_deadline w' \<le> po_now p + wc_idle cfg" if "p \<in> set ps" for p
      using w'(4,5) Cons.prems(2) Cons.prems(4) [of p] that by (cases "po_refresh q") auto
    have "snd (watchdog_loop cfg ps w') = WdExpired cause t"
      using Cons.prems(1) poll True by auto
    then obtain pre p post where ih: "ps = pre @ p # post" "po_now p = t"
      "wt_armed w' + wc_max cfg \<le> t \<or> wt_idle_deadline w' \<le> t \<and> (\<forall>r \<in> set pre. po_refresh r \<longrightarrow> po_now r + wc_idle cfg \<le> t)"
      using Cons.IH [OF _ _ w'(1) dl] Cons.prems(2) by auto
    then show ?thesis
      using w' by (intro exI [of _ "q # pre"] exI [of _ p] exI [of _ post]) auto
  next
    case False
    then have "e = WdExpired cause t" using Cons.prems(1) poll by auto
    then have "po_now q = t \<and> (wt_armed w + wc_max cfg \<le> t \<or> wt_idle_deadline w \<le> t)"
      using poll by (auto simp: watchdog_poll_def notified_def split: if_splits)
    then show ?thesis by (intro exI [of _ "[]"] exI [of _ q] exI [of _ ps]) auto
  qed
qed simp

section \<open>Properties\<close>

text \<open>
  C28. The hard cap holds whatever heartbeats arrive: a watchdog armed at \<open>t0\<close> that nobody cancels has
  expired by the first time it is polled at or after \<open>t0\<close> plus the maximum.
\<close>

theorem watchdog_hard_cap:
  assumes "sorted (map po_now ps)" and "list_all (\<lambda>p. \<not> po_cancel p) ps"
    and "p \<in> set ps" and "t0 + wc_max cfg \<le> po_now p"
  shows "\<exists>cause t. snd (watchdog_loop cfg ps (armed_at cfg t0)) = WdExpired cause t \<and> t \<le> po_now p"
  using loop_expires [of ps "armed_at cfg t0" p cfg] assms by (simp add: armed_at_def)

text \<open>
  The watchdog never expires early: it expires at a poll at or past the hard cap, or at one that
  comes a full idle period after the arming and after every heartbeat polled before it.
\<close>

theorem watchdog_not_early:
  assumes "snd (watchdog_loop cfg ps (armed_at cfg t0)) = WdExpired cause t" and "sorted (t0 # map po_now ps)"
  shows "\<exists>pre p post. ps = pre @ p # post \<and> po_now p = t \<and>
    (t0 + wc_max cfg \<le> t \<or>
     t0 + wc_idle cfg \<le> t \<and> list_all (\<lambda>q. po_refresh q \<longrightarrow> po_now q + wc_idle cfg \<le> t) pre)"
  using loop_not_early [OF assms(1)] assms(2) by (simp add: armed_at_def list_all_iff)

section \<open>Witnesses\<close>

definition example_polls :: "poll list" where
  "example_polls =
     [\<lparr>po_now = 50, po_cancel = False, po_refresh = True\<rparr>, \<lparr>po_now = 100, po_cancel = False, po_refresh = True\<rparr>,
      \<lparr>po_now = 120, po_cancel = False, po_refresh = True\<rparr>]"

theorem watchdog_hard_cap_witness:
  "\<exists>cause t. snd (watchdog_loop \<lparr>wc_idle = 60, wc_max = 120\<rparr> example_polls (armed_at \<lparr>wc_idle = 60, wc_max = 120\<rparr> 0)) =
     WdExpired cause t \<and> t \<le> 120"
  using watchdog_hard_cap [of example_polls "example_polls ! 2" 0 "\<lparr>wc_idle = 60, wc_max = 120\<rparr>"]
  by (simp add: example_polls_def numeral_2_eq_2)

theorem watchdog_not_early_witness:
  "\<exists>pre p post. take 1 example_polls @ [\<lparr>po_now = 110, po_cancel = False, po_refresh = True\<rparr>] = pre @ p # post \<and>
     po_now p = 110 \<and> list_all (\<lambda>q. po_refresh q \<longrightarrow> po_now q + 60 \<le> 110) pre"
proof -
  let ?ps = "take 1 example_polls @ [\<lparr>po_now = 110, po_cancel = False, po_refresh = True\<rparr>]"
  let ?cfg = "\<lparr>wc_idle = 60, wc_max = 600\<rparr>"
  have "snd (watchdog_loop ?cfg ?ps (armed_at ?cfg 0)) = WdExpired ''idle_timeout'' 110"
    by code_simp
  moreover have "sorted (0 # map po_now ?ps)" by (simp add: example_polls_def)
  ultimately show ?thesis
    using watchdog_not_early [of ?cfg ?ps 0 "''idle_timeout''" 110] by auto
qed

end
