(* ===== verification/Fsfreeze.thy ===== *)
theory Fsfreeze
  imports FreezeSafety Watchdog
begin

text \<open>
  The request half of \<^verbatim>\<open>src/handlers/fsfreeze.rs\<close>: the four \<^verbatim>\<open>guest-fsfreeze-*\<close> handlers, the recovery-mode
  startup, and the thaw shared by the handler and the watchdog. A handler that awaits is split where it
  awaits: \<open>begin_freeze_request\<close> and \<open>freeze_reply\<close> around the operation, \<open>thaw_begin\<close>, \<open>thaw_work\<close> and
  \<open>thaw_finish\<close> around the blocking drain of \<^verbatim>\<open>run_thaw\<close>.
\<close>

section \<open>Arguments\<close>

text \<open>\<^verbatim>\<open>NoArgs\<close> and \<^verbatim>\<open>FreezeListArgs\<close>, both refusing unknown fields.\<close>

definition no_args :: "json \<Rightarrow> unit option" where
  "no_args v = (case v of JObject [] \<Rightarrow> Some () | _ \<Rightarrow> None)"

fun json_strings :: "json list \<Rightarrow> bytes list option" where
  "json_strings [] = Some []"
| "json_strings (JString s # vs) = map_option ((#) s) (json_strings vs)"
| "json_strings _ = None"

definition freeze_list_args :: "json \<Rightarrow> path list option option" where
  "freeze_list_args v =
     (case v of
        JObject [] \<Rightarrow> Some None
      | JObject [(key, JNull)] \<Rightarrow> if key = ''mountpoints'' then Some None else None
      | JObject [(key, JArray vs)] \<Rightarrow> if key = ''mountpoints'' then map_option Some (json_strings vs) else None
      | _ \<Rightarrow> None)"

section \<open>Status and recovery startup\<close>

definition status :: "request \<Rightarrow> ('k, 'd) ctx \<Rightarrow> ('k, 'd) ctx \<times> (error, json) result" where
  "status rq cx =
     (case arguments no_args rq of
        Err e \<Rightarrow> (cx, Err e)
      | Ok _ \<Rightarrow>
          (let st = current_state (cx_state cx);
               cx = (if st = Frozen then on_heartbeat cx else cx)
           in (cx, Ok (JString (if is_frozen_for_gate st then ''frozen'' else ''thawed'')))))"

definition start_recovery :: "('k, 'd) ctx \<Rightarrow> ('k, 'd) ctx \<times> (error, unit) result" where
  "start_recovery cx =
     (if current_state (cx_state cx) \<noteq> Frozen
      then (cx, Err (Internal (''recovery startup requires the Frozen state, found '' @
              freeze_state_str (current_state (cx_state cx)))))
      else (on_frozen (on_freezing cx), Ok ()))"

section \<open>Freeze\<close>

definition run_freeze :: "nat \<Rightarrow> path list option \<Rightarrow> ('k, 'd) ctx
    \<Rightarrow> ('k, 'd) ctx \<times> (error, ('k, 'd) op_state) result" where
  "run_freeze i restrict cx =
     (let (m, r) = begin_freeze (cx_state cx) in
      case r of
        Err e \<Rightarrow> (cx, Err (Internal (''cannot freeze: '' @ transition_error_text e)))
      | Ok token \<Rightarrow>
          (let cx = on_freezing (cx\<lparr>cx_state := m\<rparr>); s = start_op i cx token restrict
           in (dv_ctx (fst s), Ok s)))"

text \<open>The end of \<^verbatim>\<open>run_freeze\<close>: the operation's reply, or none when its task ended without one.\<close>

definition freeze_reply :: "(errno \<Rightarrow> string) \<Rightarrow> (freeze_failure, nat) result option \<Rightarrow> (error, json) result" where
  "freeze_reply tx r =
     (case r of
        Some (Ok n) \<Rightarrow> Ok (json_nat n)
      | Some (Err f) \<Rightarrow> Err (Internal (freeze_failure_text tx f))
      | None \<Rightarrow> Err (Internal ''freeze operation ended without a result''))"

definition freeze :: "nat \<Rightarrow> request \<Rightarrow> ('k, 'd) ctx \<Rightarrow> ('k, 'd) ctx \<times> (error, ('k, 'd) op_state) result" where
  "freeze i rq cx =
     (case arguments no_args rq of Err e \<Rightarrow> (cx, Err e) | Ok _ \<Rightarrow> run_freeze i None cx)"

definition freeze_list :: "nat \<Rightarrow> request \<Rightarrow> ('k, 'd) ctx \<Rightarrow> ('k, 'd) ctx \<times> (error, ('k, 'd) op_state) result" where
  "freeze_list i rq cx =
     (case arguments freeze_list_args rq of Err e \<Rightarrow> (cx, Err e) | Ok mps \<Rightarrow> run_freeze i mps cx)"

section \<open>Thaw\<close>

text \<open>
  \<^verbatim>\<open>thaw\<close> up to its first await: it claims the thaw, joins the registered operation, or, when the claim
  was refused and no operation is registered any more, claims once more.
\<close>

datatype thaw_admission =
    ThawClaimed thaw_token
  | ThawJoins nat
  | ThawRetry transition_error

definition thaw_claim :: "('k, 'd) ctx \<Rightarrow> ('k, 'd) ctx \<times> thaw_admission" where
  "thaw_claim cx =
     (let (m, r) = claim_thaw (cx_state cx) in
      case r of
        Ok token \<Rightarrow> (cx\<lparr>cx_state := m\<rparr>, ThawClaimed token)
      | Err e \<Rightarrow> (cx, case cx_freeze_op cx of Some i \<Rightarrow> ThawJoins i | None \<Rightarrow> ThawRetry e))"

definition thaw_retry :: "transition_error \<Rightarrow> ('k, 'd) ctx \<Rightarrow> ('k, 'd) ctx \<times> (error, thaw_token) result" where
  "thaw_retry e cx =
     (let (m, r) = claim_thaw (cx_state cx) in
      case r of
        Ok token \<Rightarrow> (cx\<lparr>cx_state := m\<rparr>, Ok token)
      | Err _ \<Rightarrow> (cx, Err (Internal (''cannot thaw: '' @ transition_error_text e))))"

text \<open>
  \<^verbatim>\<open>join_operation\<close>: the abort request, then the answer from the progress it finds. \<open>None\<close> is the
  committed operation, whose settlement is awaited before the claim of \<open>join_settled\<close>.
\<close>

definition join_answer :: "progress \<Rightarrow> (error, json) result" where
  "join_answer p =
     (case pg_settled p of
        Some Thawed \<Rightarrow> Ok (json_nat (pg_recovered p))
      | Some st \<Rightarrow> Err (Internal (''thaw joined the aborted freeze: '' @ show_nat (pg_recovered p) @
          '' target(s) thawed; '' @
          (case pg_unrecoverable p of Some u \<Rightarrow> u | None \<Rightarrow> ''recovery incomplete'') @
          ''; state '' @ freeze_state_str st @ '', marker retained''))
      | None \<Rightarrow> Err (Internal (''thaw requested: freeze operation aborted, recovery pending ('' @
          show_nat (pg_recovered p) @ '' target(s) thawed so far'' @
          (case pg_in_flight p of
             Some t \<Rightarrow> '', FIFREEZE of '' @ t @ '' still in flight''
           | None \<Rightarrow> '''') @
          ''); marker retained until it settles'')))"

definition join_operation :: "freeze_op \<Rightarrow> freeze_op \<times> (error, json) result option" where
  "join_operation op =
     (let (op', r) = request_abort op in
      case r of
        Committed \<Rightarrow> (op', None)
      | Accepted \<Rightarrow> (notify_abort op', Some (join_answer (fo_progress op'))))"

definition join_settled :: "('k, 'd) ctx \<Rightarrow> ('k, 'd) ctx \<times> (error, thaw_token) result" where
  "join_settled cx =
     (let (m, r) = claim_thaw (cx_state cx) in
      case r of
        Ok token \<Rightarrow> (cx\<lparr>cx_state := m\<rparr>, Ok token)
      | Err e \<Rightarrow> (cx, Err (Internal (''cannot thaw: '' @ transition_error_text e))))"

section \<open>The thaw\<close>

text \<open>\<^verbatim>\<open>run_thaw\<close> up to the spawned drain, with the handles it takes and whether it discovers.\<close>

definition thaw_begin :: "thaw_token \<Rightarrow> ('k, 'd) ctx \<Rightarrow> ('k, 'd) ctx \<times> mount list \<times> bool" where
  "thaw_begin token cx =
     (let (cx, held) = take_frozen_mounts (on_thaw_claimed cx)
      in (cx, held, is_recovery_drain token \<or> cx_thaw_scope cx = Discovery))"

text \<open>The blocking task, on what the mount table holds when it reads it.\<close>

definition thaw_work :: "('k, 'd) freeze_env \<Rightarrow> (error, mount_entry list) result \<Rightarrow> bool \<Rightarrow> mount list
    \<Rightarrow> ('k, 'd) ctx \<Rightarrow> ('k, 'd) ctx \<times> (thaw_failure, nat) result \<times> mount list" where
  "thaw_work E entries discover held cx =
     (let plan = (if discover then Some (build_plan TfPlan entries None) else None);
          (k, d, held, r) = thaw_blocking (en_tx E) (en_kernel E) (en_dir E) (en_marker E) plan
             (cx_kernel cx) (cx_dir cx) held
      in (cx\<lparr>cx_kernel := k, cx_dir := d\<rparr>, r, held))"

text \<open>
  The end of \<^verbatim>\<open>run_thaw\<close>; \<open>Err\<close> is the lost task. A thaw that failed publishes \<^verbatim>\<open>Frozen\<close> and then calls
  \<^verbatim>\<open>on_frozen\<close>, which is a step of its own.
\<close>

definition thaw_finish :: "(errno \<Rightarrow> string) \<Rightarrow> thaw_token \<Rightarrow> (string, (thaw_failure, nat) result \<times> mount list) result
    \<Rightarrow> ('k, 'd) ctx \<Rightarrow> ('k, 'd) ctx \<times> (error, nat) result" where
  "thaw_finish tx token res cx =
     (let (cx, outcome, held) = (case res of
            Ok (outcome, held) \<Rightarrow> (cx, outcome, held)
          | Err err \<Rightarrow> (set_thaw_scope Discovery cx, Err (TfTask err), []));
          cx = hold_frozen_mounts held cx
      in case outcome of
        Ok n \<Rightarrow>
          (let cx = set_thaw_scope Discovery (on_thawed cx)
           in (cx\<lparr>cx_state := thaw_succeeded (cx_state cx) token\<rparr>, Ok n))
      | Err f \<Rightarrow>
          if is_recovery_drain token then
            (let cx = set_thaw_scope Discovery (on_thawed cx)
             in (cx\<lparr>cx_state := thaw_succeeded (cx_state cx) token\<rparr>, Err (Internal (thaw_failure_text tx f))))
          else (calls_on_frozen (cx\<lparr>cx_state := thaw_failed (cx_state cx) token\<rparr>),
                Err (Internal (thaw_failure_text tx f))))"

end
