(* ===== verification/Lifecycle.thy ===== *)
theory Lifecycle
  imports Fsfreeze
begin

text \<open>
  The freeze life cycle of the daemon as one transition system: a freeze request starts an operation
  (\<open>FreezeOp\<close>), a thaw request or an expired watchdog starts a thaw (\<open>Fsfreeze\<close>), both run their blocking
  tasks concurrently with time, heartbeats and the watchdog tasks (\<open>Watchdog\<close>), and a new request is only
  admitted by the state machine.

  The runtime is multi-threaded, so a step is shorter than what a task does between two awaits where
  another task could see the middle of it. The claim of a thaw is a step, and \<^verbatim>\<open>on_thaw_claimed\<close>, with which
  \<^verbatim>\<open>run_thaw\<close> begins, the next (\<open>ThawEntered\<close> is the point between). The publication of \<^verbatim>\<open>Frozen\<close> by
  \<^verbatim>\<open>conclude\<close> or \<^verbatim>\<open>run_thaw\<close> is a step, and the call of \<^verbatim>\<open>on_frozen\<close> after it another, which may come at any
  time later (\<open>cx_arming\<close>). A watchdog passing its deadline is a step, and its claim another
  (\<open>cx_expired\<close>). \<^verbatim>\<open>on_frozen\<close> itself, the spawn of the timer and the exchange of the slot, is one step: only
  the new timer could run in between, and its first deadline is an idle period away.
\<close>

section \<open>The system\<close>

datatype thaw_task =
    ThawEntered
  | ThawRunning "mount list" bool
  | ThawDone "(string, (thaw_failure, nat) result \<times> mount list) result"

datatype ('k, 'd) sys =
    SysIdle "('k, 'd) ctx"
  | SysOp "('k, 'd) driver" pc
  | SysThaw "('k, 'd) ctx" thaw_token thaw_task

fun sys_ctx :: "('k, 'd) sys \<Rightarrow> ('k, 'd) ctx" where
  "sys_ctx (SysIdle cx) = cx"
| "sys_ctx (SysOp dv q) = dv_ctx dv"
| "sys_ctx (SysThaw cx token t) = cx"

fun put_ctx :: "('k, 'd) ctx \<Rightarrow> ('k, 'd) sys \<Rightarrow> ('k, 'd) sys" where
  "put_ctx cx (SysIdle _) = SysIdle cx"
| "put_ctx cx (SysOp dv q) = SysOp (dv\<lparr>dv_ctx := cx\<rparr>) q"
| "put_ctx cx (SysThaw _ token t) = SysThaw cx token t"

definition set_watchdog :: "nat \<Rightarrow> watchdog_task \<Rightarrow> ('k, 'd) ctx \<Rightarrow> ('k, 'd) ctx" where
  "set_watchdog h w cx = cx\<lparr>cx_watchdogs := (cx_watchdogs cx)[h := w]\<rparr>"

text \<open>What a poll of a watchdog does: the task moves on, and one past a deadline is about to claim.\<close>

definition polled :: "nat \<Rightarrow> watchdog_task \<Rightarrow> watchdog_event \<Rightarrow> ('k, 'd) ctx \<Rightarrow> ('k, 'd) ctx" where
  "polled h w ev cx =
     (set_watchdog h w cx)\<lparr>cx_expired := cx_expired cx + (case ev of WdExpired _ _ \<Rightarrow> 1 | _ \<Rightarrow> 0)\<rparr>"

text \<open>
  The daemon's start: \<^verbatim>\<open>Thawed\<close>, or, when the recovery marker was found, \<^verbatim>\<open>Frozen\<close> through
  \<^verbatim>\<open>start_recovery\<close>.
\<close>

definition boot :: "freeze_state \<Rightarrow> ('k, 'd) ctx \<Rightarrow> bool" where
  "boot st cx \<longleftrightarrow> fsm_state (cx_state cx) = st \<and> cx_frozen_mounts cx = [] \<and> cx_thaw_scope cx = Discovery \<and>
     cx_freeze_op cx = None \<and> cx_watchdogs cx = [] \<and> cx_watchdog cx = None \<and> \<not> cx_audit_ring cx \<and>
     cx_arming cx = 0 \<and> cx_expired cx = 0"

definition sys_start :: "('k, 'd) freeze_env \<Rightarrow> ('k, 'd) ctx \<Rightarrow> ('k, 'd) sys \<Rightarrow> bool" where
  "sys_start E cx s \<longleftrightarrow>
     (if marker_exists (en_dir E) (cx_dir cx) (en_marker E)
      then boot Frozen cx \<and> s = SysIdle (fst (start_recovery cx))
      else boot Thawed cx \<and> s = SysIdle cx)"

text \<open>The steps of the watchdog tasks: a poll, and the claim of one that expired, lost or won.\<close>

inductive watchdog_step :: "('k, 'd) sys \<Rightarrow> ('k, 'd) sys \<Rightarrow> bool" where
  wd_poll: "h < length (cx_watchdogs (sys_ctx s)) \<Longrightarrow> \<not> wt_done (cx_watchdogs (sys_ctx s) ! h) \<Longrightarrow>
    watchdog_poll (cx_watchdog_cfg (sys_ctx s)) (cx_now (sys_ctx s)) (cx_watchdogs (sys_ctx s) ! h) = (w, ev) \<Longrightarrow>
    watchdog_step s (put_ctx (polled h w ev (sys_ctx s)) s)"
| wd_lost: "0 < cx_expired (sys_ctx s) \<Longrightarrow> expire (cx_state (sys_ctx s)) = (m, None) \<Longrightarrow>
    watchdog_step s (put_ctx ((sys_ctx s)\<lparr>cx_expired := cx_expired (sys_ctx s) - 1\<rparr>) s)"
| wd_claim: "0 < cx_expired cx \<Longrightarrow> expire (cx_state cx) = (m, Some token) \<Longrightarrow>
    watchdog_step (SysIdle cx) (SysThaw (cx\<lparr>cx_state := m, cx_expired := cx_expired cx - 1\<rparr>) token ThawEntered)"

text \<open>The steps of a running daemon.\<close>

inductive serve_step :: "('k, 'd) freeze_env \<Rightarrow> ('k, 'd) sys \<Rightarrow> ('k, 'd) sys \<Rightarrow> bool"
  for E :: "('k, 'd) freeze_env" where
  sy_time: "serve_step E s (put_ctx ((sys_ctx s)\<lparr>cx_now := cx_now (sys_ctx s) + n\<rparr>) s)"
| sy_status: "serve_step E s (put_ctx (fst (status rq (sys_ctx s))) s)"
| sy_freeze: "run_freeze i restrict cx = (cx', Inr (dv, q)) \<Longrightarrow> serve_step E (SysIdle cx) (SysOp dv q)"
| sy_op: "op_step E (dv, q) (dv', q') \<Longrightarrow> serve_step E (SysOp dv q) (SysOp dv' q')"
| sy_settled: "serve_step E (SysOp dv (OpDone fin)) (SysIdle (dv_ctx dv))"
| sy_thaw: "thaw_claim cx = (cx', ThawClaimed token) \<Longrightarrow> serve_step E (SysIdle cx) (SysThaw cx' token ThawEntered)"
| sy_begin: "thaw_begin token cx = (cx', held, discover) \<Longrightarrow>
    serve_step E (SysThaw cx token ThawEntered) (SysThaw cx' token (ThawRunning held discover))"
| sy_work: "en_mounts E entries \<Longrightarrow> thaw_work E entries discover held cx = (cx', r, held') \<Longrightarrow>
    serve_step E (SysThaw cx token (ThawRunning held discover)) (SysThaw cx' token (ThawDone (Inr (r, held'))))"
| sy_work_lost: "serve_step E (SysThaw cx token (ThawRunning held discover)) (SysThaw cx token (ThawDone (Inl err)))"
| sy_work_lost_late: "en_mounts E entries \<Longrightarrow> thaw_work E entries discover held cx = (cx', r, held') \<Longrightarrow>
    serve_step E (SysThaw cx token (ThawRunning held discover)) (SysThaw cx' token (ThawDone (Inl err)))"
| sy_finish: "thaw_finish (en_tx E) token res cx = (cx', r) \<Longrightarrow>
    serve_step E (SysThaw cx token (ThawDone res)) (SysIdle cx')"
| sy_arm: "0 < cx_arming (sys_ctx s) \<Longrightarrow> serve_step E s (put_ctx (run_on_frozen (sys_ctx s)) s)"
| sy_watchdog: "watchdog_step s s' \<Longrightarrow> serve_step E s s'"

text \<open>
  Besides them, the daemon may be killed at any point and started again: what it held in memory is lost, the
  kernel's and the marker directory's state stays.
\<close>

inductive sys_step :: "('k, 'd) freeze_env \<Rightarrow> ('k, 'd) sys \<Rightarrow> ('k, 'd) sys \<Rightarrow> bool"
  for E :: "('k, 'd) freeze_env" where
  sy_serve: "serve_step E s s' \<Longrightarrow> sys_step E s s'"
| sy_restart: "sys_start E cx s' \<Longrightarrow> cx_kernel cx = cx_kernel (sys_ctx s) \<Longrightarrow> cx_dir cx = cx_dir (sys_ctx s) \<Longrightarrow>
    sys_step E s s'"

section \<open>The watchdog of a frozen state\<close>

text \<open>
  The only live watchdog is the one in the slot, and in \<^verbatim>\<open>Frozen\<close> it is live, or a task is about to arm one,
  or one has expired and is about to claim.
\<close>

definition guarded :: "('k, 'd) ctx \<Rightarrow> bool" where
  "guarded cx \<longleftrightarrow> 0 < cx_arming cx \<or> 0 < cx_expired cx \<or>
     (\<exists>h. cx_watchdog cx = Some h \<and> alive (cx_watchdogs cx ! h))"

definition watched :: "('k, 'd) ctx \<Rightarrow> bool" where
  "watched cx \<longleftrightarrow> one_watchdog cx \<and> (fsm_state (cx_state cx) = Frozen \<longrightarrow> guarded cx)"

definition same_watch :: "('k, 'd) ctx \<Rightarrow> ('k, 'd) ctx \<Rightarrow> bool" where
  "same_watch cx cx' \<longleftrightarrow> cx_watchdogs cx' = cx_watchdogs cx \<and> cx_watchdog cx' = cx_watchdog cx \<and>
     cx_state cx' = cx_state cx \<and> cx_arming cx' = cx_arming cx \<and> cx_expired cx' = cx_expired cx"

lemma watched_same: "same_watch cx cx' \<Longrightarrow> watched cx' = watched cx"
  by (simp add: same_watch_def watched_def guarded_def one_watchdog_def live_def)

text \<open>What the hooks look at: the watchdogs, the state and the audit mode.\<close>

definition same_hooks :: "('k, 'd) ctx \<Rightarrow> ('k, 'd) ctx \<Rightarrow> bool" where
  "same_hooks cx cx' \<longleftrightarrow> same_watch cx cx' \<and> cx_audit_ring cx' = cx_audit_ring cx"

lemma same_hook_ops:
  "same_hooks (dv_ctx dv) (dv_ctx (publish f dv))" "same_hooks (dv_ctx dv) (dv_ctx (refresh_pass_done dv))"
  "same_hooks (dv_ctx dv) (dv_ctx (start_recovery_if_needed dv))"
  "same_hooks (dv_ctx dv) (dv_ctx (record_recovery res dv))" "same_hooks (dv_ctx dv) (dv_ctx (send_reply r dv))"
  "same_hooks cx (hold_frozen_mounts ms cx)" "same_hooks cx (fst (take_frozen_mounts cx))"
  "same_hooks (dv_ctx dv) (dv_ctx (set_kernel k dv))" "same_hooks (dv_ctx dv) (dv_ctx (set_dir d dv))"
  by (auto simp: same_hooks_def same_watch_def driver_defs Let_def slot_defs split: option.splits sum.splits)

lemma same_hooks_refl: "same_hooks cx cx"
  by (simp add: same_hooks_def same_watch_def)

lemma same_hooks_trans: "same_hooks a b \<Longrightarrow> same_hooks b c \<Longrightarrow> same_hooks a c"
  by (simp add: same_hooks_def same_watch_def)

text \<open>
  A property of the context that the hooks keep at the points where a freeze operation calls them holds
  throughout the operation.
\<close>

locale hook_property =
  fixes W :: "('k, 'd) ctx \<Rightarrow> bool"
  assumes same: "same_hooks cx cx' \<Longrightarrow> W cx' = W cx"
    and aborted: "W cx \<Longrightarrow> fsm_state (cx_state cx) = Freezing \<Longrightarrow>
      W (on_thaw_claimed (cx\<lparr>cx_state := \<lparr>fsm_state = Thawing\<rparr>\<rparr>))"
    and thawed: "W cx \<Longrightarrow> fsm_state (cx_state cx) \<in> {Freezing, Thawing} \<Longrightarrow>
      W ((on_thawed cx)\<lparr>cx_state := \<lparr>fsm_state = Thawed\<rparr>\<rparr>)"
    and frozen: "W cx \<Longrightarrow> fsm_state (cx_state cx) \<in> {Freezing, Thawing} \<Longrightarrow>
      same_hooks (cx\<lparr>cx_state := \<lparr>fsm_state = Frozen\<rparr>\<rparr>) cx' \<Longrightarrow> W (calls_on_frozen cx')"
begin

lemma unseen:
  "W (cx\<lparr>cx_now := n\<rparr>) = W cx" "W (cx\<lparr>cx_kernel := k\<rparr>) = W cx" "W (cx\<lparr>cx_dir := d\<rparr>) = W cx"
  "W (cx\<lparr>cx_kernel := k, cx_dir := d\<rparr>) = W cx"
  by (auto intro!: same simp: same_hooks_def same_watch_def)

lemma commit_abort_keeps:
  assumes "W (dv_ctx dv)" "dv_abort dv \<noteq> None \<or> dv_token dv \<noteq> None \<and> fsm_state (cx_state (dv_ctx dv)) = Freezing"
  shows "W (dv_ctx (commit_abort cause dv))"
proof (cases "dv_abort dv")
  case None
  then obtain t where t: "dv_token dv = Some t" using assms(2) by auto
  define d1 where "d1 = dv\<lparr>dv_abort := Some cause, dv_op := (mark_aborting (dv_op dv))\<lparr>fo_aborted := True\<rparr>\<rparr>"
  define d2 where "d2 = (case dv_token d1 of None \<Rightarrow> d1
      | Some t \<Rightarrow> (let (m, tt) = abort_freeze (cx_state (dv_ctx d1)) t in
          d1\<lparr>dv_token := None, dv_thaw_token := Some tt, dv_ctx := (dv_ctx d1)\<lparr>cx_state := m\<rparr>\<rparr>))"
  define d3 where "d3 = d2\<lparr>dv_ctx := on_thaw_claimed (dv_ctx d2)\<rparr>"
  define d4 where "d4 = send_reply (Err (FfAborted cause (dv_timeout d3) (dv_frozen d3)
        (pg_in_flight (fo_progress (dv_op d3))))) d3"
  have "dv_ctx d2 = (dv_ctx dv)\<lparr>cx_state := fst (abort_freeze (cx_state (dv_ctx dv)) t)\<rparr>"
    using t by (simp add: d2_def d1_def split_beta)
  moreover have "fst (abort_freeze (cx_state (dv_ctx dv)) t) = \<lparr>fsm_state = Thawing\<rparr>"
    by (cases "cx_state (dv_ctx dv)") (simp add: abort_freeze_def)
  ultimately have d3: "W (dv_ctx d3)" using aborted [OF assms(1)] assms(2) None by (simp add: d3_def)
  have "same_hooks (dv_ctx d3) (dv_ctx (refresh_pass_done (publish (\<lambda>p. p\<lparr>pg_phase := PhaseRecovering\<rparr>)
      (start_recovery_if_needed d4))))"
    unfolding d4_def
    by (rule same_hooks_trans [OF same_hook_ops(5) same_hooks_trans [OF same_hook_ops(3)
          same_hooks_trans [OF same_hook_ops(1) same_hook_ops(2)]]])
  moreover have "commit_abort cause dv = refresh_pass_done (publish (\<lambda>p. p\<lparr>pg_phase := PhaseRecovering\<rparr>)
      (start_recovery_if_needed d4))"
    unfolding commit_abort_def d1_def d2_def d3_def d4_def Let_def using None by simp
  ultimately show ?thesis using d3 same by metis
qed (simp add: commit_abort_def assms(1))

lemma decide_keeps: "in_walk dv \<Longrightarrow> W (dv_ctx dv) \<Longrightarrow> W (dv_ctx (decide dv))"
  using commit_abort_keeps [of dv]
  by (auto simp: decide_def in_walk_def uncommitted_def walking_def recovering_def split: option.splits)

lemma conclude_keeps:
  assumes "W (dv_ctx dv)" "fsm_state (cx_state (dv_ctx dv)) \<in> {Freezing, Thawing}"
    "dv_token dv \<noteq> None \<or> dv_thaw_token dv \<noteq> None"
  shows "W (dv_ctx (conclude fin r dv))"
proof -
  define d where "d = publish_state fin (record_scope fin (retire_op (finalise fin (commit_outcome dv))))"
  let ?m = "\<lparr>fsm_state = (if fin = TerminalThawed then Thawed else Frozen)\<rparr>"
  have ctx: "dv_ctx (conclude fin r dv) = (if fin = TerminalFrozen then calls_on_frozen (dv_ctx d) else dv_ctx d)"
    by (simp add: conclude_def Let_def d_def frame_simps)
  have "fsm_state (cx_state (dv_ctx d)) = fsm_state ?m" using assms(3) by (auto simp: d_def frame_simps)
  then have st: "cx_state (dv_ctx d) = ?m" by simp
  have w: "cx_watchdogs (dv_ctx d) = cx_watchdogs (dv_ctx dv)" "cx_watchdog (dv_ctx d) = cx_watchdog (dv_ctx dv)"
    "cx_audit_ring (dv_ctx d) = (fin = TerminalFrozen \<and> cx_audit_ring (dv_ctx dv))"
    "cx_arming (dv_ctx d) = cx_arming (dv_ctx dv)" "cx_expired (dv_ctx d) = cx_expired (dv_ctx dv)"
    by (cases fin; auto simp: d_def publish_state_def record_scope_def retire_op_def finalise_def commit_outcome_def Let_def
        set_thaw_scope_def on_thawed_def frame_simps split: option.splits)+
  show ?thesis
  proof (cases fin)
    case TerminalThawed
    have "same_hooks ((on_thawed (dv_ctx dv))\<lparr>cx_state := \<lparr>fsm_state = Thawed\<rparr>\<rparr>) (dv_ctx d)"
      using w st TerminalThawed by (simp add: same_hooks_def same_watch_def on_thawed_def)
    from same [OF this] thawed [OF assms(1,2)] show ?thesis using ctx TerminalThawed by simp
  next
    case TerminalFrozen
    have "same_hooks ((dv_ctx dv)\<lparr>cx_state := \<lparr>fsm_state = Frozen\<rparr>\<rparr>) (dv_ctx d)"
      using w st TerminalFrozen by (simp add: same_hooks_def same_watch_def)
    from frozen [OF assms(1,2) this] show ?thesis using ctx TerminalFrozen by simp
  qed
qed

lemma walking_state:
  "walking dv \<Longrightarrow> fsm_state (cx_state (dv_ctx dv)) \<in> {Freezing, Thawing} \<and> (dv_token dv \<noteq> None \<or> dv_thaw_token dv \<noteq> None)"
  "recovering dv \<Longrightarrow> fsm_state (cx_state (dv_ctx dv)) \<in> {Freezing, Thawing} \<and> (dv_token dv \<noteq> None \<or> dv_thaw_token dv \<noteq> None)"
  by (simp_all add: walking_def recovering_def)

lemma after_walk_keeps:
  assumes "in_walk dv" "W (dv_ctx dv)"
  shows "W (dv_ctx (fst (after_walk dv)))"
proof -
  define dd where "dd = decide dv"
  have d: "W (dv_ctx dd)" "in_walk dd"
    using assms decide_keeps in_walk_decide by (auto simp: dd_def)
  have ca: "W (dv_ctx (commit_abort ThawRequested dd))"
    using commit_abort_keeps [OF d(1)] d(2)
    by (auto simp: in_walk_def uncommitted_def walking_def recovering_def)
  have cc: "W (dv_ctx (conclude fin r (dd\<lparr>dv_op := op\<rparr>)))" for fin r op
    using conclude_keeps [of "dd\<lparr>dv_op := op\<rparr>"] d walking_state [of dd]
    by (auto simp: in_walk_def uncommitted_def)
  show ?thesis
    using d(1) ca cc unfolding after_walk_def dd_def [symmetric] Let_def
    by (auto split: prod.splits)
qed

lemma after_worker_keeps:
  assumes "in_walk dv" "W (dv_ctx dv)"
  shows "W (dv_ctx (fst (after_worker t rest res dv)))"
proof -
  define pv where "pv = publish (\<lambda>p. p\<lparr>pg_in_flight := None\<rparr>) dv"
  have pv: "in_walk pv" "W (dv_ctx pv)"
    using assms same_hook_ops(1) same by (auto simp: pv_def frame_simps)
  show ?thesis
  proof (cases res)
    case (Inl err)
    define u where "u = pv\<lparr>dv_uncertain := True, dv_unrecoverable := get_or_insert (dv_unrecoverable pv)
      (from_utf8_lossy (tg_mountpoint t), ''freeze worker lost ('' @ err @ ''); FIFREEZE outcome unknown'')\<rparr>"
    have "in_walk (commit_abort WorkerLost u)"
      unfolding u_def in_walk_def using worker_lost_recovering [OF pv(1)] by blast
    moreover have "W (dv_ctx (commit_abort WorkerLost u))"
      using commit_abort_keeps [of u] pv
      by (auto simp: u_def in_walk_def uncommitted_def walking_def recovering_def)
    moreover have "after_worker t rest res dv = after_walk (commit_abort WorkerLost u)"
      unfolding after_worker_def Let_def u_def pv_def Inl by simp
    ultimately show ?thesis using after_walk_keeps by metis
  next
    case (Inr oc)
    have h: "W (dv_ctx (refresh_pass_done (publish f (pv\<lparr>dv_frozen := n, dv_ctx := hold_frozen_mounts ms (dv_ctx pv)\<rparr>))))"
      "W (dv_ctx (refresh_pass_done (pv\<lparr>dv_ctx := hold_frozen_mounts ms (dv_ctx pv)\<rparr>)))"
      "W (fst (take_frozen_mounts (dv_ctx pv)))" for f n ms
      using pv(2) same_hook_ops(1,2,6,7) same
      by (metis driver.select_convs(1) driver.surjective driver.update_convs(1,6))+
    show ?thesis
      using Inr pv h decide_keeps [OF pv]
      by (cases oc) (auto simp: after_worker_def pv_def [symmetric] Let_def split: prod.splits)
  qed
qed

lemma conclude_in_walk: "in_walk dv \<Longrightarrow> W (dv_ctx dv) \<Longrightarrow> W (dv_ctx (conclude fin r dv))"
  using conclude_keeps [of dv] walking_state [of dv] by (auto simp: in_walk_def uncommitted_def)

lemma after_rollback_keeps:
  assumes "uncommitted dv" "W (dv_ctx dv)"
  shows "W (dv_ctx (fst (after_rollback res dv)))"
proof -
  have "W (hold_frozen_mounts keep (dv_ctx dv))" for keep
    using assms(2) same_hook_ops(6) same by blast
  then have "W (dv_ctx (conclude fin r (dv\<lparr>dv_ctx := hold_frozen_mounts keep (dv_ctx dv)\<rparr>)))"
    "W (dv_ctx (conclude fin r (dv\<lparr>dv_uncertain := True\<rparr>)))" for keep fin r
    using assms conclude_keeps [of "dv\<lparr>dv_ctx := hold_frozen_mounts keep (dv_ctx dv)\<rparr>"]
      conclude_keeps [of "dv\<lparr>dv_uncertain := True\<rparr>"]
    by (auto simp: uncommitted_def walking_def hold_frozen_mounts_def)
  then show ?thesis
    by (cases res) (auto simp: after_rollback_def split: prod.splits)
qed

lemma complete_keeps:
  assumes "control_inv (dv, q)" "complete tx q dv = Some s" "W (dv_ctx dv)"
  shows "W (dv_ctx (fst s))"
proof -
  have pw: "W (dv_ctx (publish f dv))" for f
    using assms(3) same_hook_ops(1) same by blast
  have w: "walking dv \<Longrightarrow> W (dv_ctx (conclude fin r dv))" for fin r
    using conclude_keeps assms(3) walking_state by blast
  show ?thesis
    using assms after_worker_keeps [of dv] after_rollback_keeps [of dv] conclude_in_walk [of dv] pw w
    by (cases "(tx, q, dv)" rule: complete.cases)
       (auto simp: in_walk_def after_prep_def settle_before_ioctl_def after_nothing_frozen_def uncommitted_def
         after_prep_removal_def after_aborted_removal_def split: sum.splits freeze_failure.splits)
qed

lemma walk_round_keeps:
  assumes "in_walk dv" "W (dv_ctx dv)"
  shows "W (dv_ctx (fst (walk_round ts dv)))"
proof -
  have "W (dv_ctx (publish f (decide dv)))" for f
    using decide_keeps [OF assms] same_hook_ops(1) same by blast
  then show ?thesis
    using after_walk_keeps [OF assms] after_walk_keeps [OF in_walk_decide [OF assms(1)] decide_keeps [OF assms]]
    by (auto simp: walk_round_def Let_def split: list.splits)
qed

lemma settle_keeps:
  assumes "recovering dv" "W (dv_ctx dv)"
  shows "W (dv_ctx (fst (settle_aborted_round dv)))"
proof -
  define d1 where "d1 = (case dv_recovery dv of
      Some (DrainDone res) \<Rightarrow> record_recovery res (dv\<lparr>dv_recovery := None\<rparr>) | _ \<Rightarrow> dv)"
  define d2 where "d2 = refresh_pass_done (start_recovery_if_needed d1)"
  have "same_hooks (dv_ctx dv) (dv_ctx d1)"
    using same_hook_ops(4) [of "dv\<lparr>dv_recovery := None\<rparr>"]
    by (auto simp: d1_def same_hooks_refl split: option.splits drain_task.splits)
  then have sw: "same_hooks (dv_ctx dv) (dv_ctx d2)"
    unfolding d2_def using same_hook_ops(2,3) same_hooks_trans by blast
  have "recovering d1" using assms(1) by (auto simp: d1_def frame_simps split: option.splits drain_task.splits)
  then have r2: "recovering d2" by (simp add: d2_def frame_simps)
  have w2: "W (dv_ctx d2)" using sw assms(2) same by blast
  then have "W (hold_frozen_mounts ms (dv_ctx d2))" for ms
    using same_hook_ops(6) same by blast
  then have "W (dv_ctx (conclude fin r (d2\<lparr>dv_unrecoverable := None, dv_kept := [],
      dv_ctx := hold_frozen_mounts ms (dv_ctx d2)\<rparr>)))" for fin r ms
    using conclude_keeps [of "d2\<lparr>dv_unrecoverable := None, dv_kept := [], dv_ctx := hold_frozen_mounts ms (dv_ctx d2)\<rparr>"] r2
    by (auto simp: recovering_def hold_frozen_mounts_def)
  then show ?thesis
    using w2 unfolding settle_aborted_round_def d1_def [symmetric] d2_def [symmetric] Let_def
    by (auto split: option.splits)
qed

lemma take_abort_keeps:
  assumes "control_inv (dv, q)" "armed_signal dv q" "W (dv_ctx dv)"
  shows "W (dv_ctx (take_abort dv))"
proof -
  have "dv_token dv \<noteq> None \<and> fsm_state (cx_state (dv_ctx dv)) = Freezing"
    using assms(1,2) by (cases q) (auto simp: armed_signal_def uncommitted_def walking_def recovering_def)
  then show ?thesis
    using assms(3) commit_abort_keeps [of dv] commit_abort_keeps [of "dv\<lparr>dv_op := (dv_op dv)\<lparr>fo_notified := False\<rparr>\<rparr>"]
    by (simp add: take_abort_def)
qed

lemma op_step_keeps:
  assumes "op_step E (dv, q) (dv', q')" "control_inv (dv, q)" "W (dv_ctx dv)"
  shows "W (dv_ctx dv')"
  using assms(1)
proof cases
  case (os_prep entries restrict r)
  obtain d where "dv' = set_dir d dv" using run_prep_frame [OF os_prep(4)] by blast
  then show ?thesis using assms(3) by (simp add: same [OF same_hook_ops(9)])
next
  case (os_prep_lost_late entries restrict r err)
  obtain d where "dv' = set_dir d dv" using run_prep_frame [OF os_prep_lost_late(4)] by blast
  then show ?thesis using assms(3) by (simp add: same [OF same_hook_ops(9)])
next
  case os_abort
  then show ?thesis using take_abort_keeps assms by simp
next
  case (os_recovered res)
  have "same_hooks (dv_ctx dv) (dv_ctx dv')"
    unfolding os_recovered(1)
    using same_hooks_trans [OF same_hook_ops(4) [of "dv\<lparr>dv_recovery := None\<rparr>" res]
        same_hooks_trans [OF same_hook_ops(3) same_hook_ops(2)]] by simp
  from same [OF this] assms(3) show ?thesis by simp
next
  case os_complete
  from complete_keeps [OF assms(2) this(1) assms(3)] show ?thesis by simp
next
  case (os_walk ts)
  then have "in_walk dv" using assms(2) by (simp add: in_walk_def)
  from walk_round_keeps [OF this assms(3), of ts] os_walk show ?thesis by (cases "walk_round ts dv") simp
next
  case os_settle
  then have "recovering dv" using assms(2) by simp
  from settle_keeps [OF this assms(3)] os_settle show ?thesis by (cases "settle_aborted_round dv") simp
qed (use assms(3) in \<open>simp_all add: unseen set_kernel_def set_dir_def\<close>)

end

lemma watched_state:
  assumes "watched cx" "fsm_state m = Frozen \<longrightarrow> guarded cx"
  shows "watched (cx\<lparr>cx_state := m\<rparr>)"
  using assms by (simp add: watched_def guarded_def one_watchdog_def live_def)

lemma watched_claimed: "watched cx \<Longrightarrow> fsm_state (cx_state cx) \<noteq> Frozen \<Longrightarrow> watched (on_thaw_claimed cx)"
  by (simp add: watched_def one_watchdog_claimed frame_simps)

lemma watched_calls:
  assumes "watched cx"
  shows "watched (calls_on_frozen (cx\<lparr>cx_state := m\<rparr>))"
  using assms by (simp add: watched_def guarded_def one_watchdog_def live_def frame_simps)

interpretation hw: hook_property watched
proof
  fix cx cx' :: "('a, 'b) ctx"
  show sw: "same_hooks cx cx' \<Longrightarrow> watched cx' = watched cx" for cx cx' :: "('a, 'b) ctx"
    by (simp add: same_hooks_def watched_same)
  assume w: "watched cx"
  show "watched (on_thaw_claimed (cx\<lparr>cx_state := \<lparr>fsm_state = Thawing\<rparr>\<rparr>))"
    by (rule watched_claimed) (simp_all add: watched_state w)
  show "watched ((on_thawed cx)\<lparr>cx_state := \<lparr>fsm_state = Thawed\<rparr>\<rparr>)"
    using w by (simp add: watched_def one_watchdog_def live_def on_thawed_def)
  assume "same_hooks (cx\<lparr>cx_state := \<lparr>fsm_state = Frozen\<rparr>\<rparr>) cx'"
  then have "same_hooks (calls_on_frozen (cx\<lparr>cx_state := \<lparr>fsm_state = Frozen\<rparr>\<rparr>)) (calls_on_frozen cx')"
    by (simp add: same_hooks_def same_watch_def calls_on_frozen_def)
  from sw [OF this] show "watched (calls_on_frozen cx')" using watched_calls [OF w] by simp
qed

section \<open>Control\<close>

fun sys_control :: "('k, 'd) sys \<Rightarrow> bool" where
  "sys_control (SysIdle cx) \<longleftrightarrow> fsm_state (cx_state cx) \<in> {Thawed, Frozen}"
| "sys_control (SysOp dv q) \<longleftrightarrow> control_inv (dv, q)"
| "sys_control (SysThaw cx token t) \<longleftrightarrow> fsm_state (cx_state cx) = Thawing \<and> tt_origin token \<in> {Thawed, Frozen}"

text \<open>Steps on the clock and the watchdogs alone.\<close>

definition ticks :: "('k, 'd) ctx \<Rightarrow> ('k, 'd) ctx \<Rightarrow> bool" where
  "ticks cx cx' \<longleftrightarrow> (\<exists>ws h n a e. cx' = cx\<lparr>cx_watchdogs := ws, cx_watchdog := h, cx_now := n, cx_arming := a, cx_expired := e\<rparr>)"

lemma ticksI:
  "cx' = cx\<lparr>cx_watchdogs := cx_watchdogs cx', cx_watchdog := cx_watchdog cx', cx_now := cx_now cx',
     cx_arming := cx_arming cx', cx_expired := cx_expired cx'\<rparr> \<Longrightarrow> ticks cx cx'"
  unfolding ticks_def by blast

lemma ticks_now: "ticks cx (cx\<lparr>cx_now := n\<rparr>)"
  by (rule ticksI) simp

lemma ticks_refl: "ticks cx cx"
  by (rule ticksI) simp

lemma ticks_heartbeat: "ticks cx (on_heartbeat cx)"
  by (rule ticksI) (simp add: on_heartbeat_def watchdog_refresh_def split: option.split)

lemma ticks_status: "ticks cx (fst (status rq cx))"
  by (auto simp: status_def Let_def ticks_refl ticks_heartbeat split: sum.splits)

lemma ticks_polled: "ticks cx (polled h w ev cx)"
  by (rule ticksI) (simp add: polled_def set_watchdog_def)

lemma ticks_expired: "ticks cx (cx\<lparr>cx_expired := n\<rparr>)"
  by (rule ticksI) simp

lemma ticks_armed: "ticks cx (run_on_frozen cx)"
  by (rule ticksI) (simp add: run_on_frozen_def on_frozen_def watchdog_arm_def watchdog_cancel_def Let_def split: option.split)

lemma control_ticks:
  "control_inv (dv\<lparr>dv_ctx := (dv_ctx dv)\<lparr>cx_watchdogs := ws, cx_watchdog := h, cx_now := n, cx_arming := a, cx_expired := e\<rparr>\<rparr>, q) =
   control_inv (dv, q)"
  by (cases q) (simp_all add: uncommitted_def walking_def recovering_def concluded_def)

lemma sys_control_ticks: "ticks (sys_ctx s) cx \<Longrightarrow> sys_control (put_ctx cx s) = sys_control s"
  by (cases s) (auto simp: ticks_def control_ticks)

lemma sys_ctx_put [simp]: "sys_ctx (put_ctx cx s) = cx"
  by (cases s) simp_all

lemma begin_ctx:
  "thaw_begin token cx = ((on_thaw_claimed cx)\<lparr>cx_frozen_mounts := []\<rparr>, cx_frozen_mounts cx,
     is_recovery_drain token \<or> cx_thaw_scope cx = Discovery)"
  by (simp add: thaw_begin_def take_frozen_mounts_def frame_simps)

lemma claims:
  "thaw_claim cx = (cx', ThawClaimed token) \<Longrightarrow> fsm_state (cx_state cx) \<in> {Thawed, Frozen} \<and>
     tt_origin token = fsm_state (cx_state cx) \<and> cx' = cx\<lparr>cx_state := \<lparr>fsm_state = Thawing\<rparr>\<rparr>"
  by (cases "fsm_state (cx_state cx)")
     (auto simp: thaw_claim_def claim_thaw_def split: option.splits)

lemma expires:
  "expire m = (m', Some token) \<longleftrightarrow> fsm_state m = Frozen \<and> tt_origin token = Frozen \<and> m' = \<lparr>fsm_state = Thawing\<rparr>"
  by (cases "fsm_state m"; cases m; cases token) (auto simp: expire_def claim_thaw_from_frozen_def)

lemma expires_not: "expire m = (m', None) \<Longrightarrow> fsm_state m \<noteq> Frozen"
  by (cases "fsm_state m"; cases m) (auto simp: expire_def claim_thaw_from_frozen_def)

lemma begins:
  "run_freeze i restrict cx = (cx', Inr s) \<Longrightarrow> fsm_state (cx_state cx) = Thawed \<and>
     s = start_op i (on_freezing (cx\<lparr>cx_state := \<lparr>fsm_state = Freezing\<rparr>\<rparr>)) FreezeToken restrict"
  by (cases "fsm_state (cx_state cx)"; cases "cx_state cx")
     (auto simp: run_freeze_def begin_freeze_def Let_def)

section \<open>The watchdog tasks\<close>

lemma poll_alive:
  assumes "watchdog_poll cfg now w = (w', ev)" "\<not> wt_done w"
  shows "alive w' \<Longrightarrow> alive w" "alive w \<Longrightarrow> alive w' \<or> (\<exists>c t. ev = WdExpired c t)"
  using assms by (auto simp: watchdog_poll_def alive_def split: if_splits)

lemma one_watchdog_set:
  assumes "one_watchdog cx" "alive w \<Longrightarrow> alive (cx_watchdogs cx ! h)"
  shows "one_watchdog (set_watchdog h w cx)"
proof -
  have was: "alive (cx_watchdogs cx ! i)" if "i < length (cx_watchdogs cx)" "alive ((cx_watchdogs cx)[h := w] ! i)" for i
    using that assms(2) by (cases "i = h") simp_all
  have ctx: "cx_watchdogs (set_watchdog h w cx) = (cx_watchdogs cx)[h := w]" "cx_watchdog (set_watchdog h w cx) = cx_watchdog cx"
    by (simp_all add: set_watchdog_def)
  show ?thesis using assms(1) was unfolding one_watchdog_iff ctx length_list_update by blast
qed

lemma watched_set:
  assumes "watched cx" "h < length (cx_watchdogs cx)" "alive w = alive (cx_watchdogs cx ! h)"
  shows "watched (set_watchdog h w cx)"
proof -
  have "one_watchdog (set_watchdog h w cx)" using assms one_watchdog_set [of cx w h] by (simp add: watched_def)
  moreover have "alive ((cx_watchdogs cx)[h := w] ! i) = alive (cx_watchdogs cx ! i)" for i
    using assms(2,3) by (cases "i = h") simp_all
  ultimately show ?thesis using assms(1) by (simp add: watched_def guarded_def set_watchdog_def)
qed

lemma watched_polled:
  assumes "watched cx" "h < length (cx_watchdogs cx)" "\<not> wt_done (cx_watchdogs cx ! h)"
    and "watchdog_poll cfg now (cx_watchdogs cx ! h) = (w, ev)"
  shows "watched (polled h w ev cx)"
proof (cases "\<exists>c t. ev = WdExpired c t")
  case True
  have "one_watchdog (set_watchdog h w cx)"
    using assms(1) poll_alive(1) [OF assms(4,3)] by (intro one_watchdog_set) (simp_all add: watched_def)
  then show ?thesis
    using True by (auto simp: watched_def guarded_def polled_def one_watchdog_def live_def set_watchdog_def)
next
  case False
  then have "alive w = alive (cx_watchdogs cx ! h)" using poll_alive [OF assms(4,3)] by blast
  moreover have "polled h w ev cx = (set_watchdog h w cx)\<lparr>cx_expired := cx_expired (set_watchdog h w cx)\<rparr>"
    using False by (cases ev) (simp_all add: polled_def set_watchdog_def)
  ultimately show ?thesis using watched_set [OF assms(1,2)] by simp
qed

lemma watched_armed:
  assumes "watched cx"
  shows "watched (run_on_frozen cx)"
proof -
  have "one_watchdog (cx\<lparr>cx_arming := cx_arming cx - 1\<rparr>)" using assms by (simp add: watched_def one_watchdog_def live_def)
  from one_watchdog_frozen [OF this] show ?thesis
    by (auto simp: watched_def guarded_def run_on_frozen_def frame_simps)
qed

lemma watched_heartbeat:
  assumes "watched cx"
  shows "watched (on_heartbeat cx)"
proof (cases "cx_watchdog cx")
  case (Some h)
  then have "h < length (cx_watchdogs cx)" using assms by (simp add: watched_def one_watchdog_iff)
  moreover have "on_heartbeat cx = set_watchdog h ((cx_watchdogs cx ! h)\<lparr>wt_refresh := True\<rparr>) cx"
    using Some by (simp add: on_heartbeat_def watchdog_refresh_def set_watchdog_def)
  ultimately show ?thesis using watched_set [OF assms] by (simp add: alive_def)
qed (use assms in \<open>simp add: on_heartbeat_def\<close>)

lemma same_watch_slots:
  "same_watch cx (cx\<lparr>cx_frozen_mounts := ms\<rparr>)" "same_watch cx (set_thaw_scope sc cx)" "same_watch cx (on_thawed cx)"
  "same_watch cx (on_freezing cx)" "same_watch cx (set_freeze_op i cx)" "same_watch cx (hold_frozen_mounts ms cx)"
  "same_watch cx (cx\<lparr>cx_kernel := k, cx_dir := d\<rparr>)" "same_watch cx (cx\<lparr>cx_now := n\<rparr>)"
  by (simp_all add: same_watch_def slot_defs on_thawed_def on_freezing_def)

lemma slot_state [frame_simps]:
  "cx_state (hold_frozen_mounts ms cx) = cx_state cx" "cx_state (set_thaw_scope sc cx) = cx_state cx"
  by (simp_all add: slot_defs)

lemmas watched_slots = same_watch_slots [THEN watched_same]

lemma finish_watched:
  assumes "watched cx"
  shows "watched (fst (thaw_finish tx token res cx))"
proof -
  have th: "watched ((set_thaw_scope sc (on_thawed (hold_frozen_mounts ms cx2)))\<lparr>cx_state := thaw_succeeded m token\<rparr>)"
    "watched (calls_on_frozen ((hold_frozen_mounts ms cx2)\<lparr>cx_state := thaw_failed m token\<rparr>))"
    if "cx2 = cx \<or> cx2 = set_thaw_scope Discovery cx" for sc ms cx2 m
    using that assms
    by (auto intro!: watched_state watched_calls simp: watched_slots settle_ops)
  show ?thesis
    using th by (cases res) (auto simp: thaw_finish_def Let_def frame_simps split: sum.splits)
qed

definition sys_watch :: "('k, 'd) sys \<Rightarrow> bool" where
  "sys_watch s \<longleftrightarrow> sys_control s \<and> watched (sys_ctx s)"

lemma watch_start:
  assumes "sys_start E cx s"
  shows "sys_watch s"
proof (cases "marker_exists (en_dir E) (cx_dir cx) (en_marker E)")
  case True
  then have b: "boot Frozen cx" "s = SysIdle (on_frozen (on_freezing cx))"
    using assms by (auto simp: sys_start_def boot_def start_recovery_def current_state_def)
  then have "one_watchdog (on_freezing cx)" "fsm_state (cx_state (on_freezing cx)) = Frozen"
    by (simp_all add: boot_def one_watchdog_def live_def on_freezing_def)
  then show ?thesis using one_watchdog_frozen [of "on_freezing cx"] b(2)
    by (auto simp: sys_watch_def watched_def guarded_def frame_simps)
next
  case False
  then have "boot Thawed cx" "s = SysIdle cx" using assms by (auto simp: sys_start_def)
  then show ?thesis by (simp add: sys_watch_def watched_def one_watchdog_def live_def boot_def)
qed

lemma watchdog_watch:
  assumes "watchdog_step s s'" "sys_watch s"
  shows "sys_watch s'"
  using assms(1)
proof cases
  case (wd_poll h w ev)
  then show ?thesis
    using assms(2) watched_polled [of "sys_ctx s" h]
    by (simp add: sys_watch_def sys_control_ticks [OF ticks_polled])
next
  case (wd_lost m)
  from expires_not [OF wd_lost(3)] show ?thesis
    using assms(2) wd_lost(1)
    by (simp add: sys_watch_def sys_control_ticks [OF ticks_expired] watched_def one_watchdog_def live_def)
next
  case (wd_claim cx m token)
  then show ?thesis
    using assms(2) by (auto simp: sys_watch_def expires watched_def one_watchdog_def live_def)
qed

lemma serve_watch_step:
  assumes "serve_step E s s'" "sys_watch s"
  shows "sys_watch s'"
  using assms(1)
proof cases
  case (sy_time n)
  then show ?thesis
    using assms(2) by (simp add: sys_watch_def watched_slots sys_control_ticks [OF ticks_now])
next
  case (sy_status rq)
  have "watched (fst (status rq cx))" if "watched cx" for cx :: "('a, 'b) ctx"
    using that watched_heartbeat [OF that] by (auto simp: status_def Let_def split: sum.splits)
  then show ?thesis
    using assms(2) sy_status by (simp add: sys_watch_def sys_control_ticks [OF ticks_status])
next
  case (sy_freeze i restrict cx cx' dv q)
  note b = begins [OF sy_freeze(3)]
  then have "op_start (on_freezing (cx\<lparr>cx_state := \<lparr>fsm_state = Freezing\<rparr>\<rparr>)) (dv, q)"
    by (auto simp: op_start_def on_freezing_def)
  then have "control_inv (dv, q)" by (rule op.inv_start)
  moreover have "dv_ctx dv = set_freeze_op (Some i) (on_freezing (cx\<lparr>cx_state := \<lparr>fsm_state = Freezing\<rparr>\<rparr>))"
    using b by (simp add: start_op_def)
  moreover have "watched (cx\<lparr>cx_state := \<lparr>fsm_state = Freezing\<rparr>\<rparr>)"
    using assms(2) sy_freeze(1) by (intro watched_state) (simp_all add: sys_watch_def)
  ultimately show ?thesis using sy_freeze(2) by (simp add: sys_watch_def watched_slots)
next
  case (sy_op dv q dv' q')
  then show ?thesis
    using assms(2) control_step [of "(dv, q)"] hw.op_step_keeps by (auto simp: sys_watch_def)
next
  case (sy_settled dv fin)
  then show ?thesis using assms(2) by (cases fin) (auto simp: sys_watch_def concluded_def)
next
  case (sy_thaw cx cx' token)
  then show ?thesis
    using assms(2) claims [OF sy_thaw(3)] watched_state [of cx "\<lparr>fsm_state = Thawing\<rparr>"] by (simp add: sys_watch_def)
next
  case (sy_begin token cx cx' held discover)
  then show ?thesis
    using assms(2) watched_claimed [of cx] by (auto simp: sys_watch_def begin_ctx watched_slots frame_simps)
next
  case (sy_work entries discover held cx cx' r held' token)
  then have "same_watch cx cx'"
    by (auto simp: thaw_work_def Let_def same_watch_def split: prod.splits if_splits)
  then show ?thesis
    using sy_work(1,2) assms(2) watched_same [of cx cx'] by (auto simp: sys_watch_def same_watch_def)
next
  case (sy_work_lost_late entries discover held cx cx' r held' token err)
  then have "same_watch cx cx'"
    by (auto simp: thaw_work_def Let_def same_watch_def split: prod.splits if_splits)
  then show ?thesis
    using sy_work_lost_late(1,2) assms(2) watched_same [of cx cx'] by (auto simp: sys_watch_def same_watch_def)
next
  case (sy_finish token res cx cx' r)
  have "fsm_state (cx_state (fst (thaw_finish tx token res cx))) \<in> {Thawed, Frozen}" for tx
    by (cases res; cases "is_recovery_drain token")
       (auto simp: thaw_finish_def Let_def settle_ops frame_simps split: sum.splits)
  then show ?thesis
    using assms(2) sy_finish finish_watched [of cx "en_tx E" token res] by (simp add: sys_watch_def) (metis fst_conv)
next
  case sy_arm
  then show ?thesis
    using assms(2) watched_armed [of "sys_ctx s"] by (simp add: sys_watch_def sys_control_ticks [OF ticks_armed])
next
  case sy_watchdog
  then show ?thesis using watchdog_watch assms(2) by blast
qed (use assms(2) in \<open>simp add: sys_watch_def\<close>)

lemma sys_watch_step: "sys_step E s s' \<Longrightarrow> sys_watch s \<Longrightarrow> sys_watch s'"
  by (erule sys_step.cases) (auto intro: serve_watch_step watch_start)

interpretation sysw: inductive_invariant "\<lambda>s. \<exists>cx. sys_start E cx s" "sys_step E" sys_watch
  by unfold_locales (auto intro: watch_start sys_watch_step)

end
