(* ===== verification/LifecycleSafety.thy ===== *)
theory LifecycleSafety
  imports Lifecycle
begin

text \<open>
  What is frozen along the life cycle of the daemon: the accounting of \<open>FreezeSafety\<close> carried over
  requests, thaws, watchdog expiries, lost tasks and restarts of the daemon.
\<close>

section \<open>What is frozen\<close>

text \<open>The devices a worker of the operation may freeze are those of the plan.\<close>

fun pc_devs :: "pc \<Rightarrow> dev set" where
  "pc_devs (AwaitPrep r (PrepDone (Inr (Inr plan)))) = tg_dev ` set (fp_targets plan)"
| "pc_devs (Walk ts) = tg_dev ` set ts"
| "pc_devs (AwaitWorker t ts (WorkerOpened m)) = insert (mn_dev m) (tg_dev ` set (t # ts))"
| "pc_devs (AwaitWorker t ts (WorkerAuthorised m)) = insert (mn_dev m) (tg_dev ` set (t # ts))"
| "pc_devs (AwaitWorker t ts w) = tg_dev ` set (t # ts)"
| "pc_devs _ = {}"

text \<open>Every reading of the mount table lists the same eligible superblocks.\<close>

definition stable_mounts :: "('k, 'd) freeze_env \<Rightarrow> dev set \<Rightarrow> bool" where
  "stable_mounts E D \<longleftrightarrow> (\<forall>es. en_mounts E (Inr es) \<longrightarrow> set (eligible_devs es) = D)"

lemma build_devs: "tg_dev ` set (fp_targets (build es)) = set (eligible_devs es)"
  by (simp add: build_targets superblock_target_def image_image Let_def)

lemma restrict_devs: "tg_dev ` set (fp_targets (restrict_to p names)) \<subseteq> tg_dev ` set (fp_targets p)"
  by (auto simp: restrict_to_def Let_def List.map_filter_def image_image)

lemma plan_devs:
  assumes "stable_mounts E D" "en_mounts E entries" "build_plan mk entries restrict = Ok plan"
  shows "tg_dev ` set (fp_targets plan) \<subseteq> D" "restrict = None \<Longrightarrow> tg_dev ` set (fp_targets plan) = D"
  using assms build_devs restrict_devs
  by (auto simp: build_plan_def stable_mounts_def split: sum.splits option.splits) blast+

lemma after_walk_devs: "pc_devs (snd (after_walk dv)) = {}"
  by (simp add: after_walk_def Let_def split: prod.splits)

lemma complete_devs: "complete tx q dv = Some s \<Longrightarrow> pc_devs (snd s) \<subseteq> pc_devs q"
  by (cases "(tx, q, dv)" rule: complete.cases)
     (auto simp: after_prep_def settle_before_ioctl_def after_nothing_frozen_def after_prep_removal_def
       after_rollback_def after_aborted_removal_def after_worker_def Let_def after_walk_devs freeze_order_def
       split: sum.splits if_splits prod.splits freeze_failure.splits target_outcome.splits)

lemma walk_round_devs: "pc_devs (snd (walk_round ts dv)) \<subseteq> tg_dev ` set ts"
  by (auto simp: walk_round_def Let_def after_walk_devs split: list.splits)

lemma settle_devs: "pc_devs (snd (settle_aborted_round dv)) = {}"
  by (simp add: settle_aborted_round_def Let_def split: option.splits)

lemma run_prep_devs:
  assumes "stable_mounts E D" "en_mounts E entries" "run_prep E entries restrict dv = (dv', r)"
  shows "pc_devs (AwaitPrep restrict (PrepDone (Ok r))) \<subseteq> D"
  using plan_devs(1) [OF assms(1,2), of FfPlan restrict] assms(3)
  by (cases r) (auto simp: run_prep_def Let_def split: sum.splits prod.splits)

lemma accounted_upd:
  "accounted depth F k ms \<Longrightarrow> depth k' = (depth k)(d := n) \<Longrightarrow> d \<in> F \<Longrightarrow> accounted depth F k' ms"
  unfolding accounted_def by (metis fun_upd_apply)

text \<open>A start that finds no marker.\<close>

definition first_start :: "('k, 'd) freeze_env \<Rightarrow> ('k, 'd) ctx \<Rightarrow> ('k, 'd) sys \<Rightarrow> bool" where
  "first_start E cx s \<longleftrightarrow> sys_start E cx s \<and> \<not> marker_exists (en_dir E) (cx_dir cx) (en_marker E)"

context freeze_depth
begin

lemma op_devs_step:
  assumes "op_step E (dv, q) (dv', q')" "en_kernel E = K" "stable_mounts E D" "pc_devs q \<subseteq> D"
    "ok (cx_kernel (dv_ctx dv))"
  shows "pc_devs q' \<subseteq> D"
  using assms(1)
proof cases
  case (os_prep entries restrict r)
  then show ?thesis using run_prep_devs assms(3) by metis
next
  case (os_open t k r ts)
  note d = open_target_depth [OF assms(5) os_open(4) [unfolded assms(2)]]
  then show ?thesis using os_open(1,3) assms(4) by (cases r) (auto simp: opened_worker_def)
next
  case (os_check t ts m)
  then show ?thesis using assms(4) by auto
next
  case (os_remove mk d r)
  then show ?thesis using assms(4) by (cases q rule: removal_task.cases) auto
next
  case (os_remove_lost mk err)
  then show ?thesis using assms(4) by (cases q rule: removal_task.cases) auto
next
  case (os_remove_lost_late mk d r err)
  then show ?thesis using assms(4) by (cases q rule: removal_task.cases) auto
next
  case os_complete
  then show ?thesis using complete_devs assms(4) by fastforce
next
  case (os_walk ts)
  then show ?thesis using walk_round_devs [of ts dv] assms(4) by (metis order_trans pc_devs.simps(2) snd_conv)
next
  case os_settle
  then show ?thesis using settle_devs [of dv] by (metis empty_subsetI snd_conv)
next
  case (os_worker_lost w t ts err)
  then show ?thesis using assms(4) by (cases w) auto
qed (use assms(4) in auto)

lemma op_covered_step:
  assumes "op_step E (dv, q) (dv', q')" "en_kernel E = K" "pc_devs q \<subseteq> D"
    "ok (cx_kernel (dv_ctx dv))" "accounted depth (F0 \<union> D) (cx_kernel (dv_ctx dv)) []"
  shows "accounted depth (F0 \<union> D) (cx_kernel (dv_ctx dv')) []"
proof -
  have less: "depth k \<le> depth (cx_kernel (dv_ctx dv)) \<Longrightarrow> accounted depth (F0 \<union> D) k []" for k
    using accounted_settled [OF assms(5)] by simp
  have same: "cx_kernel (dv_ctx dv') = cx_kernel (dv_ctx dv) \<Longrightarrow> ?thesis" using assms(5) by simp
  show ?thesis
    using assms(1)
  proof cases
    case (os_prep entries restrict r)
    then show ?thesis using run_prep_frame [OF os_prep(4)] same by (auto simp: frame_simps)
  next
    case (os_prep_lost_late entries restrict r err)
    then show ?thesis using run_prep_frame [OF os_prep_lost_late(4)] same by (auto simp: frame_simps)
  next
    case (os_open t k r ts)
    then show ?thesis
      using open_target_depth [OF assms(4) os_open(4) [unfolded assms(2)]] less by (simp add: frame_simps)
  next
    case (os_ioctl m k r t ts)
    have "mn_dev m \<in> D" using assms(3) os_ioctl(1) by simp
    moreover have "depth k = depth (cx_kernel (dv_ctx dv)) \<or>
        depth k = (depth (cx_kernel (dv_ctx dv)))(mn_dev m := depth (cx_kernel (dv_ctx dv)) (mn_dev m) + 1)"
      using depth_freeze [OF assms(4), of m] os_ioctl(4) assms(2) by (simp split: if_splits)
    ultimately have "accounted depth (F0 \<union> D) k []"
      using less [of k] accounted_upd [OF assms(5), of k "mn_dev m"] by auto
    then show ?thesis using os_ioctl(2) by (simp add: frame_simps)
  next
    case (os_ioctl_lost m k r t ts err)
    have "mn_dev m \<in> D" using assms(3) os_ioctl_lost(1) by simp
    moreover have "depth k = depth (cx_kernel (dv_ctx dv)) \<or>
        depth k = (depth (cx_kernel (dv_ctx dv)))(mn_dev m := depth (cx_kernel (dv_ctx dv)) (mn_dev m) + 1)"
      using depth_freeze [OF assms(4), of m] os_ioctl_lost(4) assms(2) by (simp split: if_splits)
    ultimately have "accounted depth (F0 \<union> D) k []"
      using less [of k] accounted_upd [OF assms(5), of k "mn_dev m"] by auto
    then show ?thesis using os_ioctl_lost(2) by (simp add: frame_simps)
  next
    case (os_drain m ms rc keep inc k rc' keep' inc')
    then show ?thesis
      using drain_step_depth [OF assms(4) os_drain(4) [unfolded assms(2)]] less by (simp add: frame_simps)
  next
    case (os_rollback held failed stop k d keep f)
    then show ?thesis
      using rollback_depth [OF assms(4) os_rollback(4) [unfolded assms(2)]] less by (simp add: frame_simps)
  next
    case (os_rollback_lost_late held failed stop k d keep f err)
    then show ?thesis
      using rollback_depth [OF assms(4) os_rollback_lost_late(4) [unfolded assms(2)]] less by (simp add: frame_simps)
  next
    case os_abort
    then show ?thesis using same_hold_take_abort [of dv] same by (simp add: same_hold_def)
  next
    case (os_recovered res)
    have "same_hold dv dv'"
      unfolding os_recovered(1)
      by (rule same_hold_trans [OF same_hold_record [OF os_recovered(5)] same_hold_trans [OF same_hold_ops(6) same_hold_ops(2)]])
    then show ?thesis using same by (simp add: same_hold_def)
  next
    case os_complete
    then show ?thesis using complete_carries [OF os_complete(1)] same by (simp add: carries_def)
  next
    case (os_walk ts)
    then show ?thesis
      using walk_round_carries [of dv ts] same by (cases "walk_round ts dv") (simp add: carries_def)
  next
    case os_settle
    then show ?thesis
      using settle_carries [of dv] same by (cases "settle_aborted_round dv") (simp add: carries_def)
  qed (use same in \<open>simp_all add: frame_simps\<close>)
qed

text \<open>What each phase knows of what is frozen, besides the marker.\<close>

definition marked where
  "marked E F0 cx \<longleftrightarrow> marker_exists (en_dir E) (cx_dir cx) (en_marker E) \<or> accounted depth F0 (cx_kernel cx) []"

fun task_safe where
  "task_safe F0 cx token ThawEntered \<longleftrightarrow>
     (\<not> is_recovery_drain token \<and> cx_thaw_scope cx = Tracked \<longrightarrow> accounted depth F0 (cx_kernel cx) (cx_frozen_mounts cx))"
| "task_safe F0 cx token (ThawRunning held discover) \<longleftrightarrow>
     (discover \<longleftrightarrow> is_recovery_drain token \<or> cx_thaw_scope cx = Discovery) \<and>
     (\<not> discover \<longrightarrow> accounted depth F0 (cx_kernel cx) held)"
| "task_safe F0 cx token (ThawDone (Inr (Inr n, held))) \<longleftrightarrow> accounted depth F0 (cx_kernel cx) []"
| "task_safe F0 cx token (ThawDone (Inr (Inl f, held))) \<longleftrightarrow>
     (\<not> is_recovery_drain token \<and> cx_thaw_scope cx = Tracked \<longrightarrow> accounted depth F0 (cx_kernel cx) held)"
| "task_safe F0 cx token (ThawDone (Inl err)) \<longleftrightarrow> True"

fun phase_safe where
  "phase_safe E F0 D (SysIdle cx) \<longleftrightarrow>
     (fsm_state (cx_state cx) = Thawed \<longrightarrow> accounted depth F0 (cx_kernel cx) []) \<and>
     (fsm_state (cx_state cx) = Frozen \<and> cx_thaw_scope cx = Tracked \<longrightarrow>
        accounted depth F0 (cx_kernel cx) (cx_frozen_mounts cx))"
| "phase_safe E F0 D (SysOp dv q) \<longleftrightarrow> safe_inv E F0 (dv, q) \<and> pc_devs q \<subseteq> D"
| "phase_safe E F0 D (SysThaw cx token t) \<longleftrightarrow> (t \<noteq> ThawEntered \<longrightarrow> cx_frozen_mounts cx = []) \<and>
     (is_recovery_drain token \<longrightarrow> accounted depth F0 (cx_kernel cx) []) \<and> task_safe F0 cx token t"

definition sys_safe where
  "sys_safe E F0 D s \<longleftrightarrow> sys_control s \<and> ok (cx_kernel (sys_ctx s)) \<and>
     accounted depth (F0 \<union> D) (cx_kernel (sys_ctx s)) [] \<and> marked E F0 (sys_ctx s) \<and> phase_safe E F0 D s"

lemma safe_inv_ticks:
  "safe_inv E F0 (dv\<lparr>dv_ctx := (dv_ctx dv)\<lparr>cx_watchdogs := ws, cx_watchdog := h, cx_now := n, cx_arming := a, cx_expired := e\<rparr>\<rparr>, q) =
   safe_inv E F0 (dv, q)"
proof -
  have "quiet (dv\<lparr>dv_ctx := (dv_ctx dv)\<lparr>cx_watchdogs := ws, cx_watchdog := h, cx_now := n, cx_arming := a, cx_expired := e\<rparr>\<rparr>, q) =
      quiet (dv, q)"
    by (cases q) simp_all
  then show ?thesis
    by (simp add: safe_inv_def control_ticks book_inv_def depth_inv_def marker_inv_def lost_def tracked_def)
qed

lemma sys_safe_ticks:
  assumes "ticks (sys_ctx s) cx" "sys_safe E F0 D s"
  shows "sys_safe E F0 D (put_ctx cx s)"
proof (cases s)
  case (SysThaw cx0 token t)
  then show ?thesis
    using assms by (cases "(F0, cx0, token, t)" rule: task_safe.cases) (auto simp: ticks_def sys_safe_def marked_def)
qed (use assms in \<open>auto simp: ticks_def sys_safe_def marked_def control_ticks safe_inv_ticks\<close>)

lemma settled_safe:
  assumes "sys_safe E F0 D (SysOp dv (OpDone fin))"
  shows "sys_safe E F0 D (SysIdle (dv_ctx dv))"
proof -
  have c: "concluded fin dv" "book_inv (dv, OpDone fin)" "depth_inv F0 (dv, OpDone fin)"
    using assms by (simp_all add: sys_safe_def safe_inv_def)
  have "accounted depth F0 (cx_kernel (dv_ctx dv)) (cx_frozen_mounts (dv_ctx dv))"
    if "cx_thaw_scope (dv_ctx dv) = Tracked"
  proof -
    have "\<not> dv_uncertain dv" using c(1) that by (auto simp: concluded_def split: if_splits)
    then have "\<not> lost (dv, OpDone fin)" "tracked (dv, OpDone fin) = cx_frozen_mounts (dv_ctx dv)"
      using c(2) by (auto simp: lost_def tracked_def book_inv_def)
    then show ?thesis using c(3) by (simp add: depth_inv_def)
  qed
  then show ?thesis
    using assms c by (cases fin) (auto simp: sys_safe_def concluded_def depth_inv_def)
qed

lemma work_safe:
  assumes "thaw_work E entries discover held cx = (cx', r, held')" "en_kernel E = K" "posix_dir (en_dir E)"
    "stable_mounts E D" "en_mounts E entries" "sys_safe E F0 D (SysThaw cx token (ThawRunning held discover))"
  shows "sys_safe E F0 D (SysThaw cx' token (ThawDone (Inr (r, held'))))"
    and "sys_safe E F0 D (SysThaw cx' token (ThawDone (Inl err)))"
proof -
  define plan where "plan = (if discover then Some (build_plan TfPlan entries None) else None)"
  obtain k d where tb: "thaw_blocking (en_tx E) K (en_dir E) (en_marker E) plan (cx_kernel cx) (cx_dir cx) held =
      (k, d, held', r)" and cx': "cx' = cx\<lparr>cx_kernel := k, cx_dir := d\<rparr>"
    using assms(1,2) by (auto simp: thaw_work_def plan_def Let_def split: prod.splits)
  have okk: "ok (cx_kernel cx)" using assms(6) by (simp add: sys_safe_def)
  note tc = thaw_blocking_cases [OF okk tb]
  have mono: "accounted depth F (cx_kernel cx) ms \<Longrightarrow> accounted depth F k ms" for F ms
    using tc by (elim accounted_settled) auto
  have keep: "accounted depth F0 (cx_kernel cx) held \<Longrightarrow> accounted depth F0 k held'"
    using tc by (elim accounted_settled) (auto simp: list_all_iff settled_def)
  have removal: "accounted depth F0 k []" if he: "held' = []" and np: "\<forall>f. plan \<noteq> Some (Err f)"
    and ze: "\<forall>p. plan = Some (Ok p) \<longrightarrow> list_all (\<lambda>t. depth k (tg_dev t) = 0) (fp_targets p)"
  proof (cases discover)
    case True
    then obtain p where p: "build_plan TfPlan entries None = Ok p" "plan = Some (Ok p)"
      using np by (cases "build_plan TfPlan entries None") (auto simp: plan_def)
    then have zero: "d \<in> D \<Longrightarrow> depth k d = 0" for d
      using plan_devs(2) [OF assms(4,5) p(1)] ze by (auto simp: list_all_iff)
    have "accounted depth (F0 \<union> D) k []" using mono assms(6) by (simp add: sys_safe_def)
    then show ?thesis using zero unfolding accounted_def by (metis Un_iff less_irrefl)
  next
    case False
    then show ?thesis using keep assms(6) he by (simp add: sys_safe_def)
  qed
  have mk: "marked E F0 cx'"
    using tc mono [of F0 "[]"] removal assms(6) by (auto simp: marked_def sys_safe_def cx')
  have base: "sys_control (SysThaw cx' token t)" "ok (cx_kernel cx')" "accounted depth (F0 \<union> D) (cx_kernel cx') []"
    "cx_frozen_mounts cx' = []" "is_recovery_drain token \<longrightarrow> accounted depth F0 (cx_kernel cx') []" for t
    using tc mono assms(6) by (simp_all add: sys_safe_def cx')
  then show "sys_safe E F0 D (SysThaw cx' token (ThawDone (Inl err)))"
    using mk by (simp add: sys_safe_def)
  have "task_safe F0 cx' token (ThawDone (Inr (r, held')))"
    using tc removal keep assms(6) by (cases r) (auto simp: sys_safe_def cx')
  then show "sys_safe E F0 D (SysThaw cx' token (ThawDone (Inr (r, held'))))"
    using mk base by (simp add: sys_safe_def)
qed

lemma claimed_safe:
  assumes "sys_safe E F0 D (SysIdle cx)" "fsm_state (cx_state cx) = tt_origin token" "tt_origin token \<in> {Thawed, Frozen}"
    "ticks (cx\<lparr>cx_state := \<lparr>fsm_state = Thawing\<rparr>\<rparr>) cx'"
  shows "sys_safe E F0 D (SysThaw cx' token ThawEntered)"
proof -
  have "is_recovery_drain token \<longleftrightarrow> tt_origin token = Thawed" by (simp add: is_recovery_drain_def)
  then show ?thesis using assms by (auto simp: ticks_def sys_safe_def marked_def)
qed

lemma begin_safe:
  assumes "sys_safe E F0 D (SysThaw cx token ThawEntered)"
  shows "sys_safe E F0 D (SysThaw ((on_thaw_claimed cx)\<lparr>cx_frozen_mounts := []\<rparr>) token
    (ThawRunning (cx_frozen_mounts cx) (is_recovery_drain token \<or> cx_thaw_scope cx = Discovery)))"
proof -
  have "cx_thaw_scope cx = Discovery \<or> cx_thaw_scope cx = Tracked" by (cases "cx_thaw_scope cx") auto
  then show ?thesis using assms by (auto simp: sys_safe_def marked_def frame_simps)
qed

lemma finish_safe:
  assumes "thaw_finish tx token res cx = (cx', r)" "sys_safe E F0 D (SysThaw cx token (ThawDone res))"
  shows "sys_safe E F0 D (SysIdle cx')"
proof -
  have f: "cx_kernel cx' = cx_kernel cx" "cx_dir cx' = cx_dir cx" "fsm_state (cx_state cx') \<in> {Thawed, Frozen}"
    using assms(1) by (auto simp: thaw_finish_def Let_def settle_ops frame_simps slot_defs on_thawed_def calls_on_frozen_def
        split: sum.splits if_splits option.splits)
  have th: "accounted depth F0 (cx_kernel cx) []" if "fsm_state (cx_state cx') = Thawed"
    using assms that by (cases "(F0, cx, token, ThawDone res)" rule: task_safe.cases)
      (auto simp: thaw_finish_def sys_safe_def Let_def settle_ops frame_simps split: if_splits)
  have fr: "accounted depth F0 (cx_kernel cx) (cx_frozen_mounts cx')"
    if "fsm_state (cx_state cx') = Frozen" "cx_thaw_scope cx' = Tracked"
    using assms that by (cases "(F0, cx, token, ThawDone res)" rule: task_safe.cases)
      (auto simp: thaw_finish_def sys_safe_def Let_def settle_ops frame_simps slot_defs on_thawed_def calls_on_frozen_def
        split: if_splits option.splits)
  show ?thesis using assms(2) f th fr by (simp add: sys_safe_def marked_def)
qed

lemma freeze_safe:
  assumes "run_freeze i restrict cx = (cx', Inr (dv, q))" "sys_safe E F0 D (SysIdle cx)"
  shows "sys_safe E F0 D (SysOp dv q)"
proof -
  note b = begins [OF assms(1)]
  define fx where "fx = on_freezing (cx\<lparr>cx_state := \<lparr>fsm_state = Freezing\<rparr>\<rparr>)"
  have f: "cx_kernel fx = cx_kernel cx" "cx_dir fx = cx_dir cx" by (simp_all add: fx_def on_freezing_def)
  have "op_start fx (dv, q)" using b by (auto simp: op_start_def fx_def on_freezing_def)
  then have "safe_inv E F0 (dv, q)"
    by (rule safe_start) (use assms(2) b f in \<open>simp_all add: sys_safe_def\<close>)
  moreover have "dv_ctx dv = set_freeze_op (Some i) fx" "pc_devs q = {}"
    using b by (simp_all add: start_op_def fx_def)
  ultimately show ?thesis
    using assms(2) f by (simp add: sys_safe_def marked_def safe_inv_def set_freeze_op_def)
qed

lemma op_safe:
  assumes "op_step E (dv, q) (dv', q')" "en_kernel E = K" "posix_dir (en_dir E)" "stable_mounts E D"
    "sys_safe E F0 D (SysOp dv q)"
  shows "sys_safe E F0 D (SysOp dv' q')"
proof -
  have old: "safe_inv E F0 (dv, q)" "pc_devs q \<subseteq> D" "ok (cx_kernel (dv_ctx dv))"
    "accounted depth (F0 \<union> D) (cx_kernel (dv_ctx dv)) []"
    using assms(5) by (simp_all add: sys_safe_def)
  have "safe_inv E F0 (dv', q')" by (rule safe_step [OF assms(1-3) old(1)])
  moreover from this have "ok (cx_kernel (dv_ctx dv'))" "marked E F0 (dv_ctx dv')" "control_inv (dv', q')"
    by (auto simp: safe_inv_def depth_inv_def marker_inv_def marked_def)
  ultimately show ?thesis
    using op_devs_step [OF assms(1,2,4) old(2,3)] op_covered_step [OF assms(1,2) old(2,3,4)] by (simp add: sys_safe_def)
qed

lemma restart_safe:
  assumes "sys_start E cx s'" "cx_kernel cx = cx_kernel (sys_ctx s)" "cx_dir cx = cx_dir (sys_ctx s)" "sys_safe E F0 D s"
  shows "sys_safe E F0 D s'"
proof (cases "marker_exists (en_dir E) (cx_dir cx) (en_marker E)")
  case True
  then have b: "boot Frozen cx" "s' = SysIdle (on_frozen (on_freezing cx))"
    using assms(1) by (auto simp: sys_start_def boot_def start_recovery_def current_state_def)
  have "cx_kernel (on_frozen (on_freezing cx)) = cx_kernel cx" "cx_dir (on_frozen (on_freezing cx)) = cx_dir cx"
    "cx_thaw_scope (on_frozen (on_freezing cx)) = Discovery" "fsm_state (cx_state (on_frozen (on_freezing cx))) = Frozen"
    using b(1) by (auto simp: boot_def hook_defs Let_def split: option.splits)
  then show ?thesis using True assms(2-4) b(2) by (simp add: sys_safe_def marked_def)
next
  case False
  then have b: "boot Thawed cx" "s' = SysIdle cx" using assms(1) by (auto simp: sys_start_def)
  then show ?thesis using False assms(2-4) by (simp add: sys_safe_def marked_def boot_def)
qed

lemma watchdog_safe:
  assumes "watchdog_step s s'" "sys_safe E F0 D s"
  shows "sys_safe E F0 D s'"
  using assms(1)
proof cases
  case (wd_poll h w ev)
  then show ?thesis using sys_safe_ticks [OF ticks_polled assms(2)] by simp
next
  case (wd_lost m)
  then show ?thesis using sys_safe_ticks [OF ticks_expired assms(2)] by simp
next
  case (wd_claim cx m token)
  then have e: "fsm_state (cx_state cx) = Frozen" "tt_origin token = Frozen" "m = \<lparr>fsm_state = Thawing\<rparr>"
    by (auto simp: expires)
  have "ticks (cx\<lparr>cx_state := m\<rparr>) (cx\<lparr>cx_state := m, cx_expired := cx_expired cx - 1\<rparr>)"
    using ticks_expired [of "cx\<lparr>cx_state := m\<rparr>"] by simp
  then show ?thesis
    using claimed_safe [of E F0 D cx token] assms(2) wd_claim(1,2) e by auto
qed

lemma serve_safe_step:
  assumes "serve_step E s s'" "en_kernel E = K" "posix_dir (en_dir E)" "stable_mounts E D" "sys_safe E F0 D s"
  shows "sys_safe E F0 D s'"
  using assms(1)
proof cases
  case (sy_time n)
  then show ?thesis using sys_safe_ticks [OF ticks_now assms(5)] by simp
next
  case (sy_status rq)
  then show ?thesis using sys_safe_ticks [OF ticks_status assms(5)] by simp
next
  case (sy_freeze i restrict cx cx' dv q)
  then show ?thesis using freeze_safe assms(5) by blast
next
  case (sy_op dv q dv' q')
  then show ?thesis using op_safe assms by blast
next
  case (sy_settled dv fin)
  then show ?thesis using settled_safe assms(5) by blast
next
  case (sy_thaw cx cx' token)
  note c = claims [OF sy_thaw(3)]
  then have "ticks (cx\<lparr>cx_state := \<lparr>fsm_state = Thawing\<rparr>\<rparr>) cx'" by (simp add: ticks_refl)
  then show ?thesis using claimed_safe [of E F0 D cx token cx'] assms(5) sy_thaw(1,2) c by auto
next
  case (sy_begin token cx cx' held discover)
  then show ?thesis using begin_safe [of E F0 D cx token] assms(5) by (auto simp: begin_ctx)
next
  case (sy_work entries discover held cx cx' r held' token)
  then show ?thesis using work_safe(1) assms by blast
next
  case (sy_work_lost cx token held discover err)
  then show ?thesis using assms(5) by (simp add: sys_safe_def)
next
  case (sy_work_lost_late entries discover held cx cx' r held' token err)
  then show ?thesis using work_safe(2) assms by blast
next
  case (sy_finish token res cx cx' r)
  then show ?thesis using finish_safe assms(5) by blast
next
  case sy_arm
  then show ?thesis using sys_safe_ticks [OF ticks_armed assms(5)] by simp
next
  case sy_watchdog
  then show ?thesis using watchdog_safe assms(5) by blast
qed

lemma sys_safe_step:
  assumes "sys_step E s s'" "en_kernel E = K" "posix_dir (en_dir E)" "stable_mounts E D" "sys_safe E F0 D s"
  shows "sys_safe E F0 D s'"
  using assms(1)
proof cases
  case sy_serve
  then show ?thesis using serve_safe_step assms by blast
next
  case (sy_restart cx)
  then show ?thesis using restart_safe assms(5) by blast
qed

lemma sys_safe_reachable:
  assumes "reachable (\<lambda>s. first_start E cx s) (sys_step E) s" "ok (cx_kernel cx)" "en_kernel E = K"
    "posix_dir (en_dir E)" "stable_mounts E D"
  shows "sys_safe E {d. 0 < depth (cx_kernel cx) d} D s"
  using assms(1)
proof (induction rule: reachable.induct)
  case (reach_start s)
  then show ?case using assms(2) by (auto simp: first_start_def sys_start_def sys_safe_def boot_def marked_def accounted_def)
next
  case (reach_step s t)
  then show ?case using sys_safe_step assms(3-5) by blast
qed

end

text \<open>In \<^verbatim>\<open>Thawed\<close>, and in the drain a thaw request starts from there, the agent has nothing frozen.\<close>

lemma released:
  assumes "reachable (\<lambda>s. first_start E cx s) (sys_step E) s" "fake_tracking (cx_kernel cx)"
    "en_kernel E = fake_kernel" "posix_dir (en_dir E)" "stable_mounts E D"
    "fsm_state (cx_state (sys_ctx s)) = Thawed \<or> (\<exists>cx token t. s = SysThaw cx token t \<and> is_recovery_drain token)"
  shows "fake_depth (cx_kernel (sys_ctx s)) d = 0 \<or> 0 < fake_depth (cx_kernel cx) d"
proof -
  note safe = fake.sys_safe_reachable [OF assms(1-5)]
  have "accounted fake_depth {d. 0 < fake_depth (cx_kernel cx) d} (cx_kernel (sys_ctx s)) []"
  proof (cases s)
    case (SysOp dv q)
    with safe assms(6) have inv: "fake.safe_inv E {d. 0 < fake_depth (cx_kernel cx) d} (dv, q)"
      "fsm_state (cx_state (dv_ctx dv)) = Thawed" by (simp_all add: fake.sys_safe_def)
    then have "quiet (dv, q)"
      by (cases q) (auto simp: fake.safe_inv_def uncommitted_def walking_def recovering_def concluded_def split: if_splits)
    then show ?thesis using inv(1) SysOp by (simp add: fake.safe_inv_def fake.depth_inv_def)
  qed (use safe assms(6) in \<open>auto simp: fake.sys_safe_def\<close>)
  from accountedD [OF this, of d] show ?thesis by force
qed

section \<open>Properties\<close>

text \<open>
  C6. A frozen daemon is watched. In every reachable state of the daemon, the ones after a crash
  included, no watchdog but the one in the slot can still expire; and while the state is \<^verbatim>\<open>Frozen\<close> the
  watchdog in the slot can, or a task that published \<^verbatim>\<open>Frozen\<close> has its \<^verbatim>\<open>on_frozen\<close> call, which arms one, still
  to make, or a watchdog has passed its deadline and is about to claim the thaw.
\<close>

theorem frozen_is_watched:
  assumes "reachable (\<lambda>s. \<exists>cx. sys_start E cx s) (sys_step E) s"
  shows "set (live (sys_ctx s)) \<subseteq> set_option (cx_watchdog (sys_ctx s)) \<and>
    (fsm_state (cx_state (sys_ctx s)) = Frozen \<and> cx_arming (sys_ctx s) = 0 \<and> cx_expired (sys_ctx s) = 0 \<longrightarrow>
      (\<exists>h. cx_watchdog (sys_ctx s) = Some h \<and> live (sys_ctx s) = [h]))"
proof -
  let ?cx = "sys_ctx s"
  have w: "one_watchdog ?cx" "fsm_state (cx_state ?cx) = Frozen \<longrightarrow> guarded ?cx"
    using sysw.inv_reachable [OF assms] by (simp_all add: sys_watch_def watched_def)
  have "live ?cx = [h]" if "cx_watchdog ?cx = Some h" "alive (cx_watchdogs ?cx ! h)" for h
  proof -
    have "set (live ?cx) = {h}" using w(1) that by (auto simp: one_watchdog_def live_def)
    moreover have "distinct (live ?cx)" by (simp add: live_def)
    ultimately show ?thesis by (cases "live ?cx"; cases "tl (live ?cx)") auto
  qed
  then show ?thesis using w by (auto simp: guarded_def one_watchdog_def)
qed

text \<open>
  C7. An abandoned freeze is thawed. When no request is being served, the state is \<^verbatim>\<open>Frozen\<close>, no call of
  \<^verbatim>\<open>on_frozen\<close> is outstanding and the clock is past the hard cap of the watchdog in the slot, the watchdog
  tasks alone, with no request and no passing of time, take the daemon over to thawing: the poll expires
  and the claim on the state machine succeeds. The thaw that begins takes the handles the daemon holds and
  cancels the watchdog.
\<close>

theorem abandoned_freeze_is_thawed:
  assumes "reachable (\<lambda>s. \<exists>cx. sys_start E cx s) (sys_step E) (SysIdle cx)"
    and "fsm_state (cx_state cx) = Frozen" and "cx_watchdog cx = Some h" and "cx_arming cx = 0"
    and "wt_armed (cx_watchdogs cx ! h) + wc_max (cx_watchdog_cfg cx) \<le> cx_now cx"
  shows "\<exists>cx1 cx2 token discover. watchdog_step\<^sup>*\<^sup>* (SysIdle cx) (SysThaw cx1 token ThawEntered) \<and>
    serve_step E (SysThaw cx1 token ThawEntered) (SysThaw cx2 token (ThawRunning (cx_frozen_mounts cx) discover)) \<and>
    tt_origin token = Frozen \<and> fsm_state (cx_state cx2) = Thawing \<and> cx_watchdog cx2 = None"
proof -
  have claim: "watchdog_step (SysIdle c) (SysThaw (c\<lparr>cx_state := \<lparr>fsm_state = Thawing\<rparr>, cx_expired := cx_expired c - 1\<rparr>)
      \<lparr>tt_origin = Frozen\<rparr> ThawEntered)" if "0 < cx_expired c" "cx_state c = cx_state cx" for c :: "('a, 'b) ctx"
    using that assms(2) by (intro wd_claim) (simp_all add: expires)
  have "\<exists>c. watchdog_step\<^sup>*\<^sup>* (SysIdle cx) (SysIdle c) \<and> 0 < cx_expired c \<and> ticks cx c"
  proof (cases "0 < cx_expired cx")
    case False
    then have g: "alive (cx_watchdogs cx ! h)" "h < length (cx_watchdogs cx)"
      using sysw.inv_reachable [OF assms(1)] assms(2-4) by (auto simp: sys_watch_def watched_def guarded_def one_watchdog_iff)
    then have "watchdog_poll (cx_watchdog_cfg cx) (cx_now cx) (cx_watchdogs cx ! h) =
        ((cx_watchdogs cx ! h)\<lparr>wt_done := True\<rparr>, WdExpired ''hard_cap'' (cx_now cx))"
      using assms(5) by (simp add: watchdog_poll_def alive_def)
    then have "watchdog_step (SysIdle cx)
        (SysIdle (polled h ((cx_watchdogs cx ! h)\<lparr>wt_done := True\<rparr>) (WdExpired ''hard_cap'' (cx_now cx)) cx))"
      using wd_poll [of h "SysIdle cx"] g by (simp add: alive_def)
    moreover have "0 < cx_expired (polled h w (WdExpired cause t) cx)" for w cause t by (simp add: polled_def)
    ultimately show ?thesis using ticks_polled r_into_rtranclp by blast
  qed (use ticks_refl in blast)
  then obtain c where c: "watchdog_step\<^sup>*\<^sup>* (SysIdle cx) (SysIdle c)" "0 < cx_expired c" "ticks cx c" by blast
  define c1 where "c1 = c\<lparr>cx_state := \<lparr>fsm_state = Thawing\<rparr>, cx_expired := cx_expired c - 1\<rparr>"
  have f: "cx_state c = cx_state cx" "cx_frozen_mounts c1 = cx_frozen_mounts cx" using c(3) by (auto simp: ticks_def c1_def)
  have "watchdog_step\<^sup>*\<^sup>* (SysIdle cx) (SysThaw c1 \<lparr>tt_origin = Frozen\<rparr> ThawEntered)"
    using c(1) claim [OF c(2) f(1)] by (simp add: c1_def)
  moreover have "serve_step E (SysThaw c1 \<lparr>tt_origin = Frozen\<rparr> ThawEntered)
      (SysThaw ((on_thaw_claimed c1)\<lparr>cx_frozen_mounts := []\<rparr>) \<lparr>tt_origin = Frozen\<rparr>
        (ThawRunning (cx_frozen_mounts cx) (cx_thaw_scope c1 = Discovery)))"
    by (rule sy_begin) (simp add: begin_ctx f(2) is_recovery_drain_def)
  moreover have "cx_watchdog (on_thaw_claimed c1) = None"
    by (simp add: on_thaw_claimed_def watchdog_cancel_def split: option.split)
  moreover have "fsm_state (cx_state (on_thaw_claimed c1)) = Thawing" by (simp add: frame_simps c1_def)
  ultimately show ?thesis by (intro exI conjI) (assumption, assumption, simp_all)
qed

text \<open>
  C1. Crash safety of the daemon. In every reachable state of the daemon that once started clean, the
  recovery marker is on disk or every filesystem that is frozen was so before that start. The daemon may
  have served any number of freezes and thaws, lost blocking tasks, been thawed by its watchdog, been
  killed and restarted; killed here, it comes back \<^verbatim>\<open>Frozen\<close> whenever it left something frozen. Proved for the
  repository's kernel double, a POSIX directory and a mount table that lists the same eligible superblocks whenever
  it is read.
\<close>

theorem daemon_crash_safe:
  assumes "reachable (\<lambda>s. first_start E cx s) (sys_step E) s" and "fake_tracking (cx_kernel cx)"
    and "en_kernel E = fake_kernel" and "posix_dir (en_dir E)" and "stable_mounts E D"
  shows "marker_exists (en_dir E) (cx_dir (sys_ctx s)) (en_marker E) \<or>
    (\<forall>d. 0 < fake_depth (cx_kernel (sys_ctx s)) d \<longrightarrow> 0 < fake_depth (cx_kernel cx) d)"
  using fake.sys_safe_reachable [OF assms]
  by (auto simp: fake.sys_safe_def fake.marked_def accounted_def)

text \<open>
  C2. The status tells the truth. Whenever \<^verbatim>\<open>guest-fsfreeze-status\<close> answers \<^verbatim>\<open>thawed\<close>, no filesystem is
  frozen that was not frozen before the daemon first started. Proved for the repository's kernel double, a POSIX
  directory and a mount table that lists the same eligible superblocks whenever it is read.
\<close>

theorem status_truthful:
  assumes "reachable (\<lambda>s. first_start E cx s) (sys_step E) s" and "fake_tracking (cx_kernel cx)"
    and "en_kernel E = fake_kernel" and "posix_dir (en_dir E)" and "stable_mounts E D"
    and "snd (status rq (sys_ctx s)) = Ok (JString ''thawed'')"
  shows "fake_depth (cx_kernel (sys_ctx s)) d = 0 \<or> 0 < fake_depth (cx_kernel cx) d"
proof (rule released [OF assms(1-5)])
  show "fsm_state (cx_state (sys_ctx s)) = Thawed \<or> (\<exists>cx token t. s = SysThaw cx token t \<and> is_recovery_drain token)"
    using assms(6) by (cases "fsm_state (cx_state (sys_ctx s))")
      (auto simp: status_def Let_def current_state_def is_frozen_for_gate_def split: sum.splits if_splits)
qed

section \<open>Witnesses\<close>

text \<open>
  A clean start, a freeze of \<^verbatim>\<open>/srv\<close>, a crash, the restart in recovery, and a thaw an hour later.
\<close>

definition clean_ctx :: "(fake_inner, (fd \<times> path) set) ctx" where
  "clean_ctx = example_ctx\<lparr>cx_state := \<lparr>fsm_state = Thawed\<rparr>, cx_audit_ring := False\<rparr>"

definition crashed_ctx :: "(fake_inner, (fd \<times> path) set) ctx" where
  "crashed_ctx = clean_ctx\<lparr>cx_state := \<lparr>fsm_state = Frozen\<rparr>, cx_kernel := cx_kernel (dv_ctx (fst (example_run 8))),
     cx_dir := cx_dir (dv_ctx (fst (example_run 8)))\<rparr>"

definition recovery_ctx :: "(fake_inner, (fd \<times> path) set) ctx" where
  "recovery_ctx = (fst (start_recovery crashed_ctx))\<lparr>cx_now := 3600\<rparr>"

definition example_thaw :: "(fake_inner, (fd \<times> path) set) ctx \<Rightarrow> (fake_inner, (fd \<times> path) set) ctx" where
  "example_thaw cx =
     (let (cx, held, discover) = thaw_begin \<lparr>tt_origin = Frozen\<rparr> (cx\<lparr>cx_state := \<lparr>fsm_state = Thawing\<rparr>\<rparr>);
          (cx, r, held) = thaw_work example_env (Ok [example_row]) discover held cx
      in fst (thaw_finish (\<lambda>_. []) \<lparr>tt_origin = Frozen\<rparr> (Ok (r, held)) cx))"

definition thawed_ctx :: "(fake_inner, (fd \<times> path) set) ctx" where
  "thawed_ctx = example_thaw recovery_ctx"

lemma clean_start: "first_start example_env clean_ctx (SysIdle clean_ctx)"
  by (simp add: first_start_def sys_start_def boot_def clean_ctx_def example_ctx_def example_env_def plain_dir_def
      marker_exists_def)

lemma clean_freeze: "sys_step example_env (SysIdle clean_ctx) (SysOp (fst (example_run 0)) (snd (example_run 0)))"
proof -
  have "run_freeze 1 None clean_ctx = (dv_ctx (fst (example_run 0)), Inr (example_run 0))"
    by (simp add: run_freeze_def clean_ctx_def example_ctx_def begin_freeze_def Let_def on_freezing_def example_run_def)
  then show ?thesis by (intro sy_serve sy_freeze [of 1 None clean_ctx]) simp
qed

lemma sys_op_run:
  "(op_step E)\<^sup>*\<^sup>* a b \<Longrightarrow> (sys_step E)\<^sup>*\<^sup>* (SysOp (fst a) (snd a)) (SysOp (fst b) (snd b))"
proof (induction rule: rtranclp_induct)
  case (step b c)
  then have "sys_step E (SysOp (fst b) (snd b)) (SysOp (fst c) (snd c))"
    using sy_op [of E "fst b" "snd b" "fst c" "snd c"] by (simp add: sy_serve)
  then show ?case using step by simp
qed simp

lemma example_op_run: "(op_step example_env)\<^sup>*\<^sup>* (example_run 0) (example_run 8)"
proof -
  have "\<not> is_done (snd (example_run i))" if "i < 8" for i
  proof -
    have "i \<in> set [0, 1, 2, 3, 4, 5, 6, 7]" using that by auto
    then show ?thesis using example_run_pending unfolding list_all_iff by blast
  qed
  then show ?thesis
    using advance_run [of example_env "Ok [example_row]" 8 "example_run 0"] by (simp add: example_run_def example_mounts)
qed

lemma frozen_reachable:
  "reachable (\<lambda>s. first_start example_env clean_ctx s) (sys_step example_env) (SysOp (fst (example_run 8)) (snd (example_run 8)))"
proof -
  let ?r = "reachable (\<lambda>s. first_start example_env clean_ctx s) (sys_step example_env)"
  have "?r (SysIdle clean_ctx)" by (rule reach_start) (rule clean_start)
  then have "?r (SysOp (fst (example_run 0)) (snd (example_run 0)))" by (rule reach_step) (rule clean_freeze)
  with sys_op_run [OF example_op_run] show ?thesis by (rule reachable_run)
qed

lemma recovery_reachable: "reachable (\<lambda>s. first_start example_env clean_ctx s) (sys_step example_env) (SysIdle recovery_ctx)"
proof -
  let ?r = "reachable (\<lambda>s. first_start example_env clean_ctx s) (sys_step example_env)"
  have "marker_exists plain_dir (cx_dir crashed_ctx) example_marker" by code_simp
  then have "sys_start example_env crashed_ctx (SysIdle (fst (start_recovery crashed_ctx)))"
    by (simp add: sys_start_def example_env_def boot_def crashed_ctx_def clean_ctx_def example_ctx_def)
  then have "sys_step example_env (SysOp (fst (example_run 8)) (snd (example_run 8))) (SysIdle (fst (start_recovery crashed_ctx)))"
    by (rule sy_restart) (simp_all add: crashed_ctx_def)
  with frozen_reachable have "?r (SysIdle (fst (start_recovery crashed_ctx)))" by (rule reach_step)
  moreover have "cx_now (fst (start_recovery crashed_ctx)) = 0" by code_simp
  ultimately show ?thesis
    using sy_serve [OF sy_time [of example_env "SysIdle (fst (start_recovery crashed_ctx))" 3600]]
    by (auto simp: recovery_ctx_def intro: reach_step)
qed

lemma recovery_watched:
  "fsm_state (cx_state recovery_ctx) = Frozen" "cx_watchdog recovery_ctx = Some 0"
  "wt_armed (cx_watchdogs recovery_ctx ! 0) + wc_max (cx_watchdog_cfg recovery_ctx) \<le> cx_now recovery_ctx"
  "thaw_claim recovery_ctx = (recovery_ctx\<lparr>cx_state := \<lparr>fsm_state = Thawing\<rparr>\<rparr>, ThawClaimed \<lparr>tt_origin = Frozen\<rparr>)"
  "cx_arming recovery_ctx = 0" "cx_expired recovery_ctx = 0"
  by (simp_all add: recovery_ctx_def crashed_ctx_def clean_ctx_def example_ctx_def start_recovery_def current_state_def
      hook_defs Let_def thaw_claim_def claim_thaw_def)

lemma any_start:
  "reachable (\<lambda>s. first_start E cx s) (sys_step E) s \<Longrightarrow> reachable (\<lambda>s. \<exists>cx. sys_start E cx s) (sys_step E) s"
  by (induction rule: reachable.induct) (auto simp: first_start_def intro: reachable.intros)

theorem frozen_is_watched_witness: "live recovery_ctx = [0]"
  using frozen_is_watched [OF any_start [OF recovery_reachable]] recovery_watched by simp

theorem abandoned_freeze_is_thawed_witness:
  "\<exists>cx1. watchdog_step\<^sup>*\<^sup>* (SysIdle recovery_ctx) (SysThaw cx1 \<lparr>tt_origin = Frozen\<rparr> ThawEntered)"
proof -
  obtain cx1 token where "watchdog_step\<^sup>*\<^sup>* (SysIdle recovery_ctx) (SysThaw cx1 token ThawEntered)" "tt_origin token = Frozen"
    using abandoned_freeze_is_thawed [OF any_start [OF recovery_reachable] recovery_watched(1,2,5,3)] by blast
  then show ?thesis by (cases token) auto
qed

lemma example_stable: "stable_mounts example_env {(8, 1)}"
proof -
  have "eligible_devs [example_row] = [(8, 1)]" by code_simp
  then show ?thesis by (simp add: stable_mounts_def example_env_def)
qed

lemma clean_fixtures:
  "fake_tracking (cx_kernel clean_ctx)" "en_kernel example_env = fake_kernel" "posix_dir (en_dir example_env)"
  "stable_mounts example_env {(8, 1)}" "fake_depth (cx_kernel clean_ctx) (8, 1) = 0"
  using example_fixtures example_stable example_unfrozen by (simp_all add: clean_ctx_def)

theorem daemon_crash_safe_witness:
  "fake_depth (cx_kernel recovery_ctx) (8, 1) = 1 \<and> marker_exists plain_dir (cx_dir recovery_ctx) example_marker"
proof -
  have "fake_depth (cx_kernel recovery_ctx) (8, 1) = 1" by code_simp
  moreover have "en_dir example_env = plain_dir" "en_marker example_env = example_marker"
    by (simp_all add: example_env_def)
  ultimately show ?thesis
    using daemon_crash_safe [OF recovery_reachable clean_fixtures(1-4)] clean_fixtures(5)
    by (metis less_numeral_extra(1) less_numeral_extra(3) sys_ctx.simps(1))
qed

lemma thaw_reachable:
  assumes "reachable (\<lambda>s. first_start example_env clean_ctx s) (sys_step example_env) (SysIdle cx0)"
    and "thaw_claim cx0 = (cx0\<lparr>cx_state := \<lparr>fsm_state = Thawing\<rparr>\<rparr>, ThawClaimed \<lparr>tt_origin = Frozen\<rparr>)"
  shows "reachable (\<lambda>s. first_start example_env clean_ctx s) (sys_step example_env) (SysIdle (example_thaw cx0))"
proof -
  let ?r = "reachable (\<lambda>s. first_start example_env clean_ctx s) (sys_step example_env)"
  let ?token = "\<lparr>tt_origin = Frozen\<rparr>"
  obtain cx held discover where b: "thaw_begin ?token (cx0\<lparr>cx_state := \<lparr>fsm_state = Thawing\<rparr>\<rparr>) = (cx, held, discover)"
    by (metis surj_pair)
  obtain cx' r held' where w: "thaw_work example_env (Ok [example_row]) discover held cx = (cx', r, held')"
    by (metis surj_pair)
  have "?r (SysThaw cx ?token (ThawRunning held discover))"
    by (rule reach_step [OF reach_step [OF assms(1) sy_serve [OF sy_thaw [OF assms(2)]]] sy_serve [OF sy_begin [OF b]]])
  then have "?r (SysThaw cx' ?token (ThawDone (Inr (r, held'))))" by (rule reach_step) (rule sy_serve [OF sy_work [OF example_mounts w]])
  then have "?r (SysIdle (fst (thaw_finish (en_tx example_env) ?token (Inr (r, held')) cx')))"
    by (rule reach_step) (rule sy_serve, rule sy_finish, rule prod.collapse [symmetric])
  then show ?thesis using b w by (simp add: example_thaw_def example_env_def)
qed

lemma thawed_reachable: "reachable (\<lambda>s. first_start example_env clean_ctx s) (sys_step example_env) (SysIdle thawed_ctx)"
  unfolding thawed_ctx_def by (rule thaw_reachable [OF recovery_reachable recovery_watched(4)])

text \<open>
  The call of \<^verbatim>\<open>on_frozen\<close> may come late: a thaw that claims the published state before it finds no watchdog
  to cancel, and the watchdog armed afterwards is alive while the daemon is \<^verbatim>\<open>Thawed\<close>. It loses its claim
  there, and the next entry into \<^verbatim>\<open>Frozen\<close> replaces it.
\<close>

definition raced_ctx :: "(fake_inner, (fd \<times> path) set) ctx" where
  "raced_ctx = run_on_frozen (example_thaw (dv_ctx (fst (example_run 8))))"

theorem late_watchdog:
  "\<exists>cx. reachable (\<lambda>s. first_start example_env clean_ctx s) (sys_step example_env) (SysIdle cx) \<and>
     fsm_state (cx_state cx) = Thawed \<and> live cx = [0]"
proof -
  let ?r = "reachable (\<lambda>s. first_start example_env clean_ctx s) (sys_step example_env)"
  have d: "snd (example_run 8) = OpDone TerminalFrozen" "fsm_state (cx_state (dv_ctx (fst (example_run 8)))) = Frozen"
    by code_simp+
  then have "?r (SysIdle (dv_ctx (fst (example_run 8))))"
    using reach_step [OF frozen_reachable [unfolded d(1)] sy_serve [OF sy_settled]] by simp
  moreover have "thaw_claim cx = (cx\<lparr>cx_state := \<lparr>fsm_state = Thawing\<rparr>\<rparr>, ThawClaimed \<lparr>tt_origin = Frozen\<rparr>)"
    if "fsm_state (cx_state cx) = Frozen" for cx :: "(fake_inner, (fd \<times> path) set) ctx"
    using that by (simp add: thaw_claim_def claim_thaw_def)
  ultimately have "?r (SysIdle (example_thaw (dv_ctx (fst (example_run 8)))))" using thaw_reachable d(2) by blast
  moreover have "0 < cx_arming (example_thaw (dv_ctx (fst (example_run 8))))" by code_simp
  ultimately have "?r (SysIdle raced_ctx)"
    using reach_step sy_serve [OF sy_arm [of "SysIdle (example_thaw (dv_ctx (fst (example_run 8))))" example_env]]
    by (fastforce simp: raced_ctx_def)
  moreover have "fsm_state (cx_state raced_ctx) = Thawed" "live raced_ctx = [0]" by code_simp+
  ultimately show ?thesis by blast
qed

theorem status_truthful_witness: "fake_depth (cx_kernel thawed_ctx) (8, 1) = 0"
proof -
  have "fsm_state (cx_state thawed_ctx) = Thawed" by code_simp
  then have "snd (status \<lparr>rq_method = ''guest-fsfreeze-status'', rq_arguments = None, rq_id = None\<rparr> thawed_ctx) =
      Ok (JString ''thawed'')"
    by (simp add: status_def Let_def current_state_def is_frozen_for_gate_def arguments_def no_args_def)
  then show ?thesis
    using status_truthful [OF thawed_reachable clean_fixtures(1-4), of _ "(8, 1)"] clean_fixtures(5) by simp
qed

end
