(* ===== verification/Config.thy ===== *)
theory Config
  imports Proto Mountinfo Context
begin

text \<open>
  \<^verbatim>\<open>src/config.rs\<close>: the configuration, its validation and the authority it grants. The TOML parser and
  the file read are parameters; the two Cargo features that switch code are the record \<open>build\<close>.

  Shown: exactly which configurations are accepted, and the deadlines an accepted one gives.
\<close>

section \<open>The schema\<close>

definition CONFIG_VERSION :: nat where
  "CONFIG_VERSION = 1"

definition DEFAULT_CONFIG_PATH :: path where
  "DEFAULT_CONFIG_PATH = ''/etc/qeminga/config.toml''"

definition MAX_FSFREEZE_TIMEOUT_SECS :: nat where
  "MAX_FSFREEZE_TIMEOUT_SECS = 86400"

definition DEFAULT_FSFREEZE_OPERATION_TIMEOUT_SECS :: nat where
  "DEFAULT_FSFREEZE_OPERATION_TIMEOUT_SECS = 60"

datatype hardening = Enforced | Development

definition hardening_str :: "hardening \<Rightarrow> string" where
  "hardening_str h = (case h of Enforced \<Rightarrow> ''enforced'' | Development \<Rightarrow> ''unenforced-development-only'')"

definition is_enforced :: "hardening \<Rightarrow> bool" where
  "is_enforced h = (h = Enforced)"

datatype log_level = LlTrace | LlDebug | LlInfo | LlWarn | LlError

definition log_level_str :: "log_level \<Rightarrow> string" where
  "log_level_str l =
     (case l of LlTrace \<Rightarrow> ''trace'' | LlDebug \<Rightarrow> ''debug'' | LlInfo \<Rightarrow> ''info'' | LlWarn \<Rightarrow> ''warn'' | LlError \<Rightarrow> ''error'')"

record agent_config =
  ac_config_version :: nat
  ac_channel_path :: path
  ac_log_level :: log_level
  ac_state_path :: path
  ac_idle_timeout_secs :: nat
  ac_max_timeout_secs :: nat
  ac_hardening :: hardening
  ac_operation_timeout_secs :: "nat option"

definition default_agent :: agent_config where
  "default_agent =
     \<lparr>ac_config_version = CONFIG_VERSION, ac_channel_path = ''/dev/virtio-ports/org.qemu.guest_agent.0'',
      ac_log_level = LlInfo, ac_state_path = ''/run/qeminga/frozen'', ac_idle_timeout_secs = 30,
      ac_max_timeout_secs = 300, ac_hardening = Enforced, ac_operation_timeout_secs = None\<rparr>"

definition operation_timeout_secs :: "agent_config \<Rightarrow> nat" where
  "operation_timeout_secs a =
     (case ac_operation_timeout_secs a of
        Some n \<Rightarrow> n
      | None \<Rightarrow> min DEFAULT_FSFREEZE_OPERATION_TIMEOUT_SECS (ac_max_timeout_secs a))"

record rate_limits =
  rl_ping_sync :: nat
  rl_get_commands :: nat
  rl_fsfreeze_freeze :: nat
  rl_fstrim :: nat
  rl_shutdown :: nat

definition default_limits :: rate_limits where
  "default_limits =
     \<lparr>rl_ping_sync = 120, rl_get_commands = 30, rl_fsfreeze_freeze = 10, rl_fstrim = 5, rl_shutdown = 2\<rparr>"

record features =
  ft_suspend_ram :: bool
  ft_fstrim :: bool
  ft_seccomp :: bool
  ft_shutdown :: bool
  ft_information :: bool

definition default_features :: features where
  "default_features =
     \<lparr>ft_suspend_ram = False, ft_fstrim = True, ft_seccomp = True, ft_shutdown = True, ft_information = True\<rparr>"

record config =
  cf_agent :: agent_config
  cf_rate_limits :: rate_limits
  cf_features :: features

definition default_config :: config where
  "default_config =
     \<lparr>cf_agent = default_agent, cf_rate_limits = default_limits, cf_features = default_features\<rparr>"

text \<open>The Cargo features of the build.\<close>

record build =
  bd_seccomp :: bool
  bd_suspend_ram :: bool

section \<open>Errors\<close>

datatype config_error =
    CfIo path string
  | CfParse "path option" string
  | CfInvalid "path option" string string

definition path_suffix :: "path option \<Rightarrow> string" where
  "path_suffix p = (case p of Some p \<Rightarrow> '' in '' @ from_utf8_lossy p | None \<Rightarrow> '''')"

definition config_error_text :: "config_error \<Rightarrow> string" where
  "config_error_text e =
     (case e of
        CfIo p s \<Rightarrow> ''cannot read configuration file '' @ from_utf8_lossy p @ '': '' @ s
      | CfParse p m \<Rightarrow> ''invalid configuration'' @ path_suffix p @ '': '' @ m
      | CfInvalid p k r \<Rightarrow> ''invalid configuration'' @ path_suffix p @ '': '' @ k @ '': '' @ r)"

definition with_path :: "path \<Rightarrow> config_error \<Rightarrow> config_error" where
  "with_path p e =
     (case e of
        CfParse _ m \<Rightarrow> CfParse (Some p) m
      | CfInvalid _ k r \<Rightarrow> CfInvalid (Some p) k r
      | CfIo _ _ \<Rightarrow> e)"

section \<open>Validation\<close>

definition is_absolute :: "path \<Rightarrow> bool" where
  "is_absolute p = (case p of c # _ \<Rightarrow> c = CHR ''/'' | [] \<Rightarrow> False)"

definition invalid :: "string \<Rightarrow> string \<Rightarrow> (config_error, unit) result" where
  "invalid key reason = Err (CfInvalid None key reason)"

definition timeout_keys :: "agent_config \<Rightarrow> (string \<times> nat) list" where
  "timeout_keys a =
     [(''agent.fsfreeze_idle_timeout_secs'', ac_idle_timeout_secs a),
      (''agent.fsfreeze_max_timeout_secs'', ac_max_timeout_secs a),
      (''agent.fsfreeze_operation_timeout_secs'', case ac_operation_timeout_secs a of Some n \<Rightarrow> n | None \<Rightarrow> 0)]"

definition quota_keys :: "rate_limits \<Rightarrow> (string \<times> nat) list" where
  "quota_keys r =
     [(''rate_limits.ping_sync_per_min'', rl_ping_sync r),
      (''rate_limits.get_commands_per_min'', rl_get_commands r),
      (''rate_limits.fsfreeze_freeze_per_min'', rl_fsfreeze_freeze r),
      (''rate_limits.fstrim_per_min'', rl_fstrim r),
      (''rate_limits.shutdown_per_min'', rl_shutdown r)]"

definition validate_quotas :: "rate_limits \<Rightarrow> (config_error, unit) result" where
  "validate_quotas r =
     (case find (\<lambda>(key, quota). quota = 0) (quota_keys r) of
        Some (key, _) \<Rightarrow> invalid key ''must be greater than zero''
      | None \<Rightarrow> Ok ())"

definition validate_caps :: "agent_config \<Rightarrow> rate_limits \<Rightarrow> (config_error, unit) result" where
  "validate_caps a r =
     (case find (\<lambda>(key, v). v > MAX_FSFREEZE_TIMEOUT_SECS) (timeout_keys a) of
        Some (key, _) \<Rightarrow> invalid key (''must be at most '' @ show_nat MAX_FSFREEZE_TIMEOUT_SECS @ '' (one day)'')
      | None \<Rightarrow>
          if ac_max_timeout_secs a < ac_idle_timeout_secs a then
            invalid ''agent.fsfreeze_max_timeout_secs''
              (''must be at least fsfreeze_idle_timeout_secs ('' @ show_nat (ac_idle_timeout_secs a) @ '')'')
          else if (case ac_operation_timeout_secs a of Some n \<Rightarrow> n | None \<Rightarrow> 0) > ac_max_timeout_secs a then
            invalid ''agent.fsfreeze_operation_timeout_secs''
              (''must be at most fsfreeze_max_timeout_secs ('' @ show_nat (ac_max_timeout_secs a) @ '')'')
          else validate_quotas r)"

definition validate :: "config \<Rightarrow> (config_error, unit) result" where
  "validate c =
     (let a = cf_agent c in
      if ac_config_version a \<noteq> CONFIG_VERSION then
        invalid ''agent.config_version''
          (''unsupported version '' @ show_nat (ac_config_version a) @ ''; this build supports '' @ show_nat CONFIG_VERSION)
      else if ac_channel_path a = [] then invalid ''agent.channel_path'' ''must not be empty''
      else if \<not> is_absolute (ac_state_path a) then
        invalid ''agent.state_path'' (''must be an absolute path, got '' @ from_utf8_lossy (ac_state_path a))
      else if is_enforced (ac_hardening a) \<and> \<not> ft_seccomp (cf_features c) then
        invalid ''features.seccomp''
          ''false is refused under agent.hardening = \"enforced\"; a development host must say hardening = \"unenforced-development-only\"''
      else if ac_idle_timeout_secs a = 0 then
        invalid ''agent.fsfreeze_idle_timeout_secs'' ''must be greater than zero''
      else if ac_operation_timeout_secs a = Some 0 then
        invalid ''agent.fsfreeze_operation_timeout_secs'' ''must be greater than zero''
      else validate_caps a (cf_rate_limits c))"

definition parse_config :: "(string \<Rightarrow> (string, config) result) \<Rightarrow> string \<Rightarrow> (config_error, config) result" where
  "parse_config from_toml txt =
     (case from_toml txt of
        Err m \<Rightarrow> Err (CfParse None m)
      | Ok c \<Rightarrow> (case validate c of Err e \<Rightarrow> Err e | Ok _ \<Rightarrow> Ok c))"

definition load_config :: "(path \<Rightarrow> (string, string) result) \<Rightarrow> (string \<Rightarrow> (string, config) result) \<Rightarrow> path
    \<Rightarrow> (config_error, config) result" where
  "load_config read_file from_toml p =
     (case read_file p of
        Err e \<Rightarrow> Err (CfIo p e)
      | Ok txt \<Rightarrow> (case parse_config from_toml txt of Err e \<Rightarrow> Err (with_path p e) | Ok c \<Rightarrow> Ok c))"

definition warnings :: "build \<Rightarrow> config \<Rightarrow> string list" where
  "warnings b c =
     (if \<not> is_enforced (ac_hardening (cf_agent c))
      then [''agent.hardening = \"unenforced-development-only\": the sandbox is not required; never for a production host'']
      else []) @
     (if ft_seccomp (cf_features c) \<and> \<not> bd_seccomp b
      then [''features.seccomp = true has no effect: this binary was built without the `seccomp` Cargo feature'']
      else []) @
     (if ft_suspend_ram (cf_features c) \<and> \<not> bd_suspend_ram b
      then [''features.suspend_ram = true has no effect: this binary was built without the `suspend_ram` Cargo feature'']
      else [])"

section \<open>Switches and authority\<close>

definition fstrim_enabled :: "config \<Rightarrow> bool" where
  "fstrim_enabled c = ft_fstrim (cf_features c)"

definition suspend_ram_enabled :: "build \<Rightarrow> config \<Rightarrow> bool" where
  "suspend_ram_enabled b c = (bd_suspend_ram b \<and> ft_suspend_ram (cf_features c))"

definition seccomp_enabled :: "build \<Rightarrow> config \<Rightarrow> bool" where
  "seccomp_enabled b c = (bd_seccomp b \<and> ft_seccomp (cf_features c))"

definition shutdown_enabled :: "config \<Rightarrow> bool" where
  "shutdown_enabled c = ft_shutdown (cf_features c)"

definition information_enabled :: "config \<Rightarrow> bool" where
  "information_enabled c = ft_information (cf_features c)"

record authority =
  au_reboot :: bool
  au_information :: bool
  au_trim :: bool
  au_suspend :: bool

definition authority_full :: authority where
  "authority_full = \<lparr>au_reboot = True, au_information = True, au_trim = True, au_suspend = True\<rparr>"

definition authority_data_protection :: authority where
  "authority_data_protection = \<lparr>au_reboot = False, au_information = False, au_trim = False, au_suspend = False\<rparr>"

definition authority_of :: "build \<Rightarrow> config \<Rightarrow> authority" where
  "authority_of b c =
     \<lparr>au_reboot = shutdown_enabled c, au_information = information_enabled c, au_trim = fstrim_enabled c,
      au_suspend = suspend_ram_enabled b c\<rparr>"

definition watchdog_config_of :: "agent_config \<Rightarrow> watchdog_config" where
  "watchdog_config_of a = \<lparr>wc_idle = ac_idle_timeout_secs a, wc_max = ac_max_timeout_secs a\<rparr>"

section \<open>Lemmas\<close>

lemma invalid_not_ok [simp]: "\<not> is_ok (invalid key reason)"
  by (simp add: invalid_def)

lemma validate_quotas_ok: "is_ok (validate_quotas r) \<longleftrightarrow> (\<forall>(key, quota) \<in> set (quota_keys r). 0 < quota)"
proof (cases "find (\<lambda>(key, quota). quota = 0) (quota_keys r)")
  case None
  then have "\<forall>(key, quota) \<in> set (quota_keys r). 0 < quota" by (auto simp: find_None_iff intro: gr0I)
  then show ?thesis using None by (simp add: validate_quotas_def)
next
  case (Some kq)
  have "kq \<in> set (quota_keys r)" "snd kq = 0" using find_member [OF Some] by auto
  then show ?thesis using Some by (fastforce simp: validate_quotas_def split: prod.splits)
qed

lemma validate_caps_ok:
  "is_ok (validate_caps a r) \<longleftrightarrow>
     (\<forall>(key, v) \<in> set (timeout_keys a). v \<le> MAX_FSFREEZE_TIMEOUT_SECS) \<and> ac_idle_timeout_secs a \<le> ac_max_timeout_secs a \<and>
     (\<forall>n. ac_operation_timeout_secs a = Some n \<longrightarrow> n \<le> ac_max_timeout_secs a) \<and> is_ok (validate_quotas r)"
proof (cases "find (\<lambda>(key, v). v > MAX_FSFREEZE_TIMEOUT_SECS) (timeout_keys a)")
  case None
  then have "\<forall>(key, v) \<in> set (timeout_keys a). v \<le> MAX_FSFREEZE_TIMEOUT_SECS" by (auto simp: find_None_iff not_less)
  then show ?thesis using None by (auto simp: validate_caps_def split: option.splits)
next
  case (Some kv)
  have "kv \<in> set (timeout_keys a)" "snd kv > MAX_FSFREEZE_TIMEOUT_SECS" using find_member [OF Some] by auto
  then show ?thesis using Some by (fastforce simp: validate_caps_def split: prod.splits)
qed

lemmas validate_oks = validate_caps_ok validate_quotas_ok timeout_keys_def quota_keys_def

section \<open>Properties\<close>

text \<open>
  A configuration is accepted exactly when its version is the supported one, its paths are usable,
  an enforced profile keeps the seccomp filter, both freeze timeouts are ordered, positive and at most a
  day, an explicit operation deadline is positive and within the hard cap, and no quota is zero.
\<close>

theorem validate_accepts:
  "is_ok (validate c) \<longleftrightarrow>
     ac_config_version (cf_agent c) = 1 \<and> ac_channel_path (cf_agent c) \<noteq> [] \<and> is_absolute (ac_state_path (cf_agent c)) \<and>
     (ac_hardening (cf_agent c) = Development \<or> ft_seccomp (cf_features c)) \<and>
     1 \<le> ac_idle_timeout_secs (cf_agent c) \<and> ac_idle_timeout_secs (cf_agent c) \<le> ac_max_timeout_secs (cf_agent c) \<and>
     ac_max_timeout_secs (cf_agent c) \<le> 86400 \<and>
     (case ac_operation_timeout_secs (cf_agent c) of None \<Rightarrow> True
        | Some n \<Rightarrow> 1 \<le> n \<and> n \<le> ac_max_timeout_secs (cf_agent c)) \<and>
     list_all (\<lambda>(key, quota). 1 \<le> quota) (quota_keys (cf_rate_limits c))"
proof (cases "ac_hardening (cf_agent c)"; cases "ac_operation_timeout_secs (cf_agent c)")
qed (auto simp: validate_def Let_def is_enforced_def CONFIG_VERSION_def MAX_FSFREEZE_TIMEOUT_SECS_def validate_oks
    split: if_splits)

text \<open>
  C40. In an accepted configuration, a default deadline included, the operation deadline and the idle
  timeout are positive and within the hard cap, and the hard cap is at most a day: no freeze outlives a
  day, and the deadline of an operation falls before the watchdog would have to end it.
\<close>

theorem accepted_deadlines:
  assumes "load_config read_file from_toml p = Ok c"
  shows "0 < operation_timeout_secs (cf_agent c) \<and>
    operation_timeout_secs (cf_agent c) \<le> wc_max (watchdog_config_of (cf_agent c)) \<and>
    0 < wc_idle (watchdog_config_of (cf_agent c)) \<and>
    wc_idle (watchdog_config_of (cf_agent c)) \<le> wc_max (watchdog_config_of (cf_agent c)) \<and>
    wc_max (watchdog_config_of (cf_agent c)) \<le> 86400"
proof -
  have "is_ok (validate c)"
    using assms by (auto simp: load_config_def parse_config_def split: sum.splits)
  then show ?thesis
    by (cases "ac_operation_timeout_secs (cf_agent c)")
       (auto simp: validate_def Let_def MAX_FSFREEZE_TIMEOUT_SECS_def validate_oks operation_timeout_secs_def
         watchdog_config_of_def DEFAULT_FSFREEZE_OPERATION_TIMEOUT_SECS_def split: if_splits)
qed

section \<open>Witnesses\<close>

lemma validate_default: "validate default_config = Ok ()"
  by (simp add: validate_def default_config_def default_agent_def default_limits_def default_features_def
      CONFIG_VERSION_def is_absolute_def validate_caps_def timeout_keys_def MAX_FSFREEZE_TIMEOUT_SECS_def
      validate_quotas_def quota_keys_def)

theorem accepted_deadlines_witness:
  "load_config (\<lambda>_. Ok '''') (\<lambda>_. Ok default_config) DEFAULT_CONFIG_PATH = Ok default_config \<and>
   operation_timeout_secs (cf_agent default_config) = 60 \<and>
   60 \<le> wc_max (watchdog_config_of (cf_agent default_config))"
proof -
  have l: "load_config (\<lambda>_. Ok '''') (\<lambda>_. Ok default_config) DEFAULT_CONFIG_PATH = Ok default_config"
    using validate_default by (simp add: load_config_def parse_config_def)
  have "operation_timeout_secs (cf_agent default_config) = 60"
    by (simp add: operation_timeout_secs_def default_config_def default_agent_def
        DEFAULT_FSFREEZE_OPERATION_TIMEOUT_SECS_def)
  with l show ?thesis using accepted_deadlines [OF l] by simp
qed

end
