(* ===== verification/Handlers.thy ===== *)
theory Handlers
  imports Framing Fsfreeze Config
begin

text \<open>
  \<^verbatim>\<open>src/handlers/mod.rs\<close>, \<^verbatim>\<open>ping.rs\<close>, \<^verbatim>\<open>sync.rs\<close>, \<^verbatim>\<open>info.rs\<close>, \<^verbatim>\<open>fstrim.rs\<close>, \<^verbatim>\<open>shutdown.rs\<close> and
  \<^verbatim>\<open>suspend.rs\<close>: the capability table, the bound on a reply and the command handlers with no state of
  their own. \<^verbatim>\<open>json!\<close> of a struct is the object with its keys in byte order, as \<^verbatim>\<open>serde_json\<close>'s map keeps
  them. A blocking task is run to its end, or lost before or after its work (\<open>fate\<close>).

  Shown: a bounded reply fits its bound with its envelope, whatever its id.
\<close>

section \<open>The capability table\<close>

record command_spec =
  cs_name :: string
  cs_success_response :: bool

definition answered :: "string \<Rightarrow> command_spec" where
  "answered n = \<lparr>cs_name = n, cs_success_response = True\<rparr>"

definition silent :: "string \<Rightarrow> command_spec" where
  "silent n = \<lparr>cs_name = n, cs_success_response = False\<rparr>"

definition SUPPORTED_COMMANDS :: "command_spec list" where
  "SUPPORTED_COMMANDS =
     [answered ''guest-ping'', answered ''guest-info'', answered ''guest-sync'', answered ''guest-sync-delimited'',
      answered ''guest-get-osinfo'', answered ''guest-network-get-interfaces'', answered ''guest-get-fsinfo'',
      answered ''guest-fsfreeze-status'', answered ''guest-fsfreeze-freeze'', answered ''guest-fsfreeze-freeze-list'',
      answered ''guest-fsfreeze-thaw'', answered ''guest-fstrim'', silent ''guest-shutdown'', silent ''guest-suspend-ram'']"

definition spec :: "bytes \<Rightarrow> command_spec option" where
  "spec name = find (\<lambda>s. cs_name s = name) SUPPORTED_COMMANDS"

section \<open>Bounded replies\<close>

text \<open>
  \<open>ser\<close> prints a value. The bytes counted are those of the struct printed in declaration order: as many
  as those of its value, which has the same fields in another order.
\<close>

definition bounded_reply :: "(json \<Rightarrow> bytes) \<Rightarrow> string \<Rightarrow> json \<Rightarrow> nat \<Rightarrow> (error, json) result" where
  "bounded_reply ser what v bound =
     (let counted = length (ser v); line = counted + MAX_RESPONSE_ENVELOPE_BYTES in
      if line > bound then
        Err (Internal (what @ '': the reply would be '' @ show_nat line @ '' bytes on the wire ('' @ show_nat counted @
          '' of value), over the '' @ show_nat bound @ '' byte bound; not truncated''))
      else Ok v)"

section \<open>Ping, sync, info\<close>

definition ping :: "request \<Rightarrow> (error, json) result" where
  "ping rq = (case arguments no_args rq of Err e \<Rightarrow> Err e | Ok _ \<Rightarrow> Ok (JObject []))"

definition sync_args :: "json \<Rightarrow> int option" where
  "sync_args v = (case v of JObject [(key, w)] \<Rightarrow> if key = ''id'' then as_i64 w else None | _ \<Rightarrow> None)"

definition sync :: "request \<Rightarrow> (error, json) result" where
  "sync rq = (case arguments sync_args rq of Err e \<Rightarrow> Err e | Ok i \<Rightarrow> Ok (json_int i))"

definition sync_delimited :: "request \<Rightarrow> (error, json) result" where
  "sync_delimited rq = sync rq"

record command_info =
  ci_name :: string
  ci_enabled :: bool
  ci_success_response :: bool

record agent_info =
  ai_version :: string
  ai_supported_commands :: "command_info list"

definition is_enabled :: "build \<Rightarrow> config \<Rightarrow> bytes \<Rightarrow> bool" where
  "is_enabled b c name =
     (if name = ''guest-fstrim'' then fstrim_enabled c
      else if name = ''guest-suspend-ram'' then suspend_ram_enabled b c
      else if name = ''guest-shutdown'' then shutdown_enabled c
      else if name \<in> {''guest-get-osinfo'', ''guest-network-get-interfaces'', ''guest-get-fsinfo''}
      then information_enabled c
      else True)"

definition agent_info_of :: "string \<Rightarrow> build \<Rightarrow> config \<Rightarrow> agent_info" where
  "agent_info_of version b c =
     \<lparr>ai_version = version,
      ai_supported_commands = map (\<lambda>s. \<lparr>ci_name = cs_name s, ci_enabled = is_enabled b c (cs_name s),
        ci_success_response = cs_success_response s\<rparr>) SUPPORTED_COMMANDS\<rparr>"

definition json_command :: "command_info \<Rightarrow> json" where
  "json_command i =
     JObject [(''enabled'', JBool (ci_enabled i)), (''name'', JString (ci_name i)),
              (''success-response'', JBool (ci_success_response i))]"

definition info :: "string \<Rightarrow> build \<Rightarrow> config \<Rightarrow> request \<Rightarrow> (error, json) result" where
  "info version b c rq =
     (case arguments no_args rq of
        Err e \<Rightarrow> Err e
      | Ok _ \<Rightarrow>
          (let a = agent_info_of version b c
           in Ok (JObject [(''supported_commands'', JArray (map json_command (ai_supported_commands a))),
                           (''version'', JString (ai_version a))])))"

section \<open>Trim\<close>

text \<open>What became of a blocking task.\<close>

datatype fate = Ran | LostBefore string | LostAfter string

definition as_u64 :: "json \<Rightarrow> nat option" where
  "as_u64 v = (case v of JNumber (PosInt n) \<Rightarrow> Some n | _ \<Rightarrow> None)"

definition fstrim_args :: "json \<Rightarrow> nat option option" where
  "fstrim_args v =
     (case v of
        JObject [] \<Rightarrow> Some None
      | JObject [(key, w)] \<Rightarrow>
          if key = ''minimum'' then if w = JNull then Some None else map_option Some (as_u64 w) else None
      | _ \<Rightarrow> None)"

record trim_result =
  tq_path :: bytes
  tq_trimmed :: "nat option"
  tq_minimum :: "nat option"
  tq_error :: "string option"

definition trim_outcome :: "(errno \<Rightarrow> string) \<Rightarrow> target \<Rightarrow> (string, trimmed) result \<Rightarrow> trim_result" where
  "trim_outcome tx t r =
     (case r of
        Ok d \<Rightarrow> \<lparr>tq_path = from_utf8_lossy (tg_mountpoint t), tq_trimmed = Some (tr_bytes d),
                 tq_minimum = Some (tr_minimum d), tq_error = None\<rparr>
      | Err e \<Rightarrow> \<lparr>tq_path = from_utf8_lossy (tg_mountpoint t), tq_trimmed = None, tq_minimum = None, tq_error = Some e\<rparr>)"

definition trim_target :: "(errno \<Rightarrow> string) \<Rightarrow> 'k kernel_ops \<Rightarrow> nat \<Rightarrow> target \<Rightarrow> 'k \<Rightarrow> 'k \<times> trim_result" where
  "trim_target tx K minimum t k =
     (case open_target tx K k t of
        (k, Ok m) \<Rightarrow> (let (k, r) = k_fitrim K k m minimum in (k, trim_outcome tx t (map_err (kernel_error_text tx) r)))
      | (k, Err attempts) \<Rightarrow> (k, trim_outcome tx t (Err (''no mount point leads to it ('' @ attempts @ '')''))))"

fun trim_targets :: "(errno \<Rightarrow> string) \<Rightarrow> 'k kernel_ops \<Rightarrow> nat \<Rightarrow> target list \<Rightarrow> 'k \<Rightarrow> 'k \<times> trim_result list" where
  "trim_targets tx K minimum [] k = (k, [])"
| "trim_targets tx K minimum (t # ts) k =
     (let (k, r) = trim_target tx K minimum t k; (k, rs) = trim_targets tx K minimum ts k in (k, r # rs))"

definition trim_plan :: "(errno \<Rightarrow> string) \<Rightarrow> 'k kernel_ops \<Rightarrow> freeze_plan \<Rightarrow> nat \<Rightarrow> 'k \<Rightarrow> 'k \<times> trim_result list" where
  "trim_plan tx K plan minimum k = trim_targets tx K minimum (thaw_order plan) k"

definition optional :: "string \<Rightarrow> ('a \<Rightarrow> json) \<Rightarrow> 'a option \<Rightarrow> (bytes \<times> json) list" where
  "optional key f x = (case x of None \<Rightarrow> [] | Some y \<Rightarrow> [(key, f y)])"

definition json_trim :: "trim_result \<Rightarrow> json" where
  "json_trim r =
     JObject (optional ''error'' JString (tq_error r) @ optional ''minimum'' json_nat (tq_minimum r) @
       [(''path'', JString (tq_path r))] @ optional ''trimmed'' json_nat (tq_trimmed r))"

definition fstrim :: "('k, 'd) freeze_env \<Rightarrow> (error, mount_entry list) result \<Rightarrow> fate \<Rightarrow> request \<Rightarrow> 'k
    \<Rightarrow> 'k \<times> (error, json) result" where
  "fstrim E entries ft rq k =
     (case arguments fstrim_args rq of
        Err e \<Rightarrow> (k, Err e)
      | Ok m \<Rightarrow>
          (let (k', r) = (case entries of
                 Err e \<Rightarrow> (k, Err e)
               | Ok es \<Rightarrow>
                   (let (k', rs) = trim_plan (en_tx E) (en_kernel E) (build es) (case m of Some n \<Rightarrow> n | None \<Rightarrow> 0) k
                    in (k', Ok (JObject [(''paths'', JArray (map json_trim rs))]))))
           in case ft of
                Ran \<Rightarrow> (k', r)
              | LostBefore s \<Rightarrow> (k, Err (Internal (''fstrim task failed: '' @ s)))
              | LostAfter s \<Rightarrow> (k', Err (Internal (''fstrim task failed: '' @ s)))))"

section \<open>Shutdown\<close>

datatype shutdown_mode = ModeHalt | ModePowerdown | ModeReboot

definition mode_name :: "bytes \<Rightarrow> shutdown_mode option" where
  "mode_name s =
     (if s = ''halt'' then Some ModeHalt else if s = ''powerdown'' then Some ModePowerdown
      else if s = ''reboot'' then Some ModeReboot else None)"

text \<open>A unit variant: its name, or the object with its name and \<^verbatim>\<open>null\<close>.\<close>

definition mode_of :: "json \<Rightarrow> shutdown_mode option" where
  "mode_of v =
     (case v of
        JString s \<Rightarrow> mode_name s
      | JObject [(s, JNull)] \<Rightarrow> mode_name s
      | _ \<Rightarrow> None)"

definition shutdown_args :: "json \<Rightarrow> shutdown_mode option option" where
  "shutdown_args v =
     (case v of
        JObject [] \<Rightarrow> Some None
      | JObject [(key, w)] \<Rightarrow> if key = ''mode'' then if w = JNull then Some None else map_option Some (mode_of w) else None
      | _ \<Rightarrow> None)"

definition reboot_command_of :: "shutdown_mode \<Rightarrow> reboot_command" where
  "reboot_command_of m = (case m of ModeHalt \<Rightarrow> Halt | ModePowerdown \<Rightarrow> PowerOff | ModeReboot \<Rightarrow> Restart)"

definition shutdown :: "('k, 'd) freeze_env \<Rightarrow> fate \<Rightarrow> request \<Rightarrow> 'k \<Rightarrow> 'k \<times> (error, json) result" where
  "shutdown E ft rq k =
     (case arguments shutdown_args rq of
        Err e \<Rightarrow> (k, Err e)
      | Ok m \<Rightarrow>
          (let cmd = reboot_command_of (case m of Some m \<Rightarrow> m | None \<Rightarrow> ModePowerdown);
               (k', r) = k_reboot (en_kernel E) (k_sync (en_kernel E) k) cmd
           in case ft of
                Ran \<Rightarrow> (k', case r of
                    Ok _ \<Rightarrow> Ok (JObject [])
                  | Err e \<Rightarrow> Err (Internal (''shutdown failed: '' @ kernel_error_text (en_tx E) e)))
              | LostBefore s \<Rightarrow> (k, Err (Internal (''shutdown task failed: '' @ s)))
              | LostAfter s \<Rightarrow> (k', Err (Internal (''shutdown task failed: '' @ s)))))"

section \<open>Suspend\<close>

record 's suspend_ops =
  so_supported_states :: "'s \<Rightarrow> (error, string) result"
  so_enter :: "'s \<Rightarrow> string \<Rightarrow> 's \<times> (error, unit) result"

definition POWER_STATE_PATH :: path where
  "POWER_STATE_PATH = ''/sys/power/state''"

definition MEM :: string where
  "MEM = ''mem''"

text \<open>The production implementation over the file calls; their errors are texts.\<close>

definition sys_power :: "('s \<Rightarrow> path \<Rightarrow> (string, string) result) \<Rightarrow> ('s \<Rightarrow> path \<Rightarrow> string \<Rightarrow> 's \<times> (string, unit) result)
    \<Rightarrow> 's suspend_ops" where
  "sys_power read_file write_file =
     \<lparr>so_supported_states = (\<lambda>s. map_err (\<lambda>e. Internal (''cannot read '' @ POWER_STATE_PATH @ '': '' @ e))
        (read_file s POWER_STATE_PATH)),
      so_enter = (\<lambda>s st. let (s, r) = write_file s POWER_STATE_PATH st
        in (s, map_err (\<lambda>e. Internal (''cannot write '' @ POWER_STATE_PATH @ '': '' @ e)) r))\<rparr>"

text \<open>\<^verbatim>\<open>split_ascii_whitespace\<close>: the maximal stretches without whitespace.\<close>

fun ascii_words :: "bytes \<Rightarrow> bytes \<Rightarrow> bytes list" where
  "ascii_words acc [] = (if acc = [] then [] else [rev acc])"
| "ascii_words acc (b # bs) =
     (if is_ascii_whitespace b then (if acc = [] then [] else [rev acc]) @ ascii_words [] bs
      else ascii_words (b # acc) bs)"

definition supports_mem :: "string \<Rightarrow> bool" where
  "supports_mem states = (MEM \<in> set (ascii_words [] states))"

definition suspend :: "'s suspend_ops \<Rightarrow> fate \<Rightarrow> request \<Rightarrow> 's \<Rightarrow> 's \<times> (error, json) result" where
  "suspend S ft rq s =
     (case arguments no_args rq of
        Err e \<Rightarrow> (s, Err e)
      | Ok _ \<Rightarrow>
          (let (s', r) = (case so_supported_states S s of
                 Err e \<Rightarrow> (s, Err e)
               | Ok states \<Rightarrow>
                   if \<not> supports_mem states then (s, Err (Internal ''suspend to RAM is not supported by this kernel''))
                   else so_enter S s MEM)
           in case ft of
                Ran \<Rightarrow> (s', case r of Err e \<Rightarrow> Err e | Ok _ \<Rightarrow> Ok (JObject []))
              | LostBefore e \<Rightarrow> (s, Err (Internal (''suspend task failed: '' @ e)))
              | LostAfter e \<Rightarrow> (s', Err (Internal (''suspend task failed: '' @ e)))))"

section \<open>Properties\<close>

text \<open>
  A reply within a bound fits it on the wire: the encoded line of an accepted value, with whatever
  64-bit id the request carried and the newline, is at most the bound. A value over it is refused whole,
  never cut.
\<close>

theorem bounded_reply_fits:
  assumes "bounded_reply ser what v bound = Ok w" and "case i of None \<Rightarrow> True | Some n \<Rightarrow> is_i64 n"
  shows "w = v \<and> length (encode (to_json ser (response_from_result i (Ok w))) False) \<le> bound"
proof -
  have "length (to_json ser (Success w i) @ [NEWLINE]) \<le> length (ser w) + MAX_RESPONSE_ENVELOPE_BYTES"
    by (rule envelope_bound) (use assms(2) in auto)
  then show ?thesis
    using assms(1) by (auto simp: bounded_reply_def Let_def response_from_result_def encode_def split: if_splits)
qed

section \<open>Witnesses\<close>

theorem bounded_reply_fits_witness:
  "length (encode (to_json (\<lambda>_. ''[1,2,3]'') (response_from_result (Some 7) (Ok (JArray [])))) False) \<le> 64"
  using bounded_reply_fits [of "\<lambda>_. ''[1,2,3]''" "''interfaces''" "JArray []" 64 "JArray []" "Some 7"]
  by (simp add: bounded_reply_def MAX_RESPONSE_ENVELOPE_BYTES_def is_i64_def I64_MAX_def)

end
