(* ===== verification/OsInfo.thy ===== *)
theory OsInfo
  imports Handlers
begin

text \<open>
  \<^verbatim>\<open>src/handlers/osinfo.rs\<close>: the bounded read of \<^verbatim>\<open>os-release\<close>, its parser and the reply of
  \<^verbatim>\<open>guest-get-osinfo\<close>. The \<^verbatim>\<open>uname\<close> call and the file read are parameters. Text is UTF-8; the
  characters the parser looks at are ASCII, so it works on the bytes, except that \<^verbatim>\<open>trim\<close> removes every
  character of the Unicode \<^verbatim>\<open>White_Space\<close> property.

  Shown: a file written with the documented quoting parses back to its assignments.
\<close>

section \<open>Text\<close>

definition WHITE_SPACE :: "bytes list" where
  "WHITE_SPACE =
     [[CHR 0x09], [CHR 0x0A], [CHR 0x0B], [CHR 0x0C], [CHR 0x0D], [CHR 0x20],
      [CHR 0xC2, CHR 0x85], [CHR 0xC2, CHR 0xA0], [CHR 0xE1, CHR 0x9A, CHR 0x80]] @
     map (\<lambda>b. [CHR 0xE2, CHR 0x80, b])
       [CHR 0x80, CHR 0x81, CHR 0x82, CHR 0x83, CHR 0x84, CHR 0x85, CHR 0x86, CHR 0x87, CHR 0x88, CHR 0x89,
        CHR 0x8A, CHR 0xA8, CHR 0xA9, CHR 0xAF] @
     [[CHR 0xE2, CHR 0x81, CHR 0x9F], [CHR 0xE3, CHR 0x80, CHR 0x80]]"

definition leading :: "bytes list \<Rightarrow> bytes \<Rightarrow> nat" where
  "leading ws s = (case find (\<lambda>w. take (length w) s = w) ws of Some w \<Rightarrow> length w | None \<Rightarrow> 0)"

lemma leading_le: "leading ws s \<le> length s"
proof (cases "find (\<lambda>w. take (length w) s = w) ws")
  case (Some w)
  then have "take (length w) s = w" using find_member by fastforce
  then have "length w \<le> length s" by (metis length_take min.cobounded1 min_def)
  then show ?thesis using Some by (simp add: leading_def)
qed (simp add: leading_def)

function trim_by :: "bytes list \<Rightarrow> bytes \<Rightarrow> bytes" where
  "trim_by ws s = (if leading ws s = 0 then s else trim_by ws (drop (leading ws s) s))"
  by pat_completeness auto

termination
proof (relation "measure (\<lambda>(ws, s). length s)")
  fix ws s
  assume "leading ws s \<noteq> 0"
  then show "((ws, drop (leading ws s) s), (ws, s)) \<in> measure (\<lambda>(ws, s). length s)"
    using leading_le [of ws s] by auto
qed simp

declare trim_by.simps [simp del]

definition trim :: "bytes \<Rightarrow> bytes" where
  "trim s = rev (trim_by (map rev WHITE_SPACE) (rev (trim_by WHITE_SPACE s)))"

text \<open>\<^verbatim>\<open>str::lines\<close>.\<close>

definition strip_cr :: "bytes \<Rightarrow> bytes" where
  "strip_cr s = (if s \<noteq> [] \<and> last s = CHR 0x0D then butlast s else s)"

definition lines :: "bytes \<Rightarrow> bytes list" where
  "lines s =
     (let ps = split_on NEWLINE s; body = map strip_cr (butlast ps)
      in if last ps = [] then body else body @ [last ps])"

definition is_alphanumeric :: "byte \<Rightarrow> bool" where
  "is_alphanumeric b \<longleftrightarrow>
     (let n = of_char b :: nat in 48 \<le> n \<and> n \<le> 57 \<or> 65 \<le> n \<and> n \<le> 90 \<or> 97 \<le> n \<and> n \<le> 122)"

section \<open>The parser\<close>

abbreviation SQUOTE :: byte where
  "SQUOTE \<equiv> CHR 0x27"

definition escapable :: "byte list" where
  "escapable = [CHR ''$'', CHR 0x60, QUOTE, BACKSLASH]"

fun double_quoted :: "bool \<Rightarrow> bytes \<Rightarrow> bytes" where
  "double_quoted escaped [] = (if escaped then [BACKSLASH] else [])"
| "double_quoted escaped (c # cs) =
     (if escaped then (if c \<in> set escapable then [] else [BACKSLASH]) @ c # double_quoted False cs
      else if c = BACKSLASH then double_quoted True cs
      else if c = QUOTE then []
      else c # double_quoted False cs)"

fun unquoted :: "bool \<Rightarrow> bytes \<Rightarrow> bytes" where
  "unquoted escaped [] = []"
| "unquoted escaped (c # cs) =
     (if escaped then c # unquoted False cs
      else if c = BACKSLASH then unquoted True cs
      else c # unquoted False cs)"

definition unquote :: "bytes \<Rightarrow> bytes" where
  "unquote raw =
     (case raw of
        c # cs \<Rightarrow>
          if c = SQUOTE then takeWhile (\<lambda>b. b \<noteq> SQUOTE) cs
          else if c = QUOTE then double_quoted False cs
          else unquoted False raw
      | [] \<Rightarrow> unquoted False raw)"

definition valid_key :: "bytes \<Rightarrow> bool" where
  "valid_key k \<longleftrightarrow> k \<noteq> [] \<and> list_all (\<lambda>b. is_alphanumeric b \<or> b = CHR ''_'') k"

definition parse_assignment :: "bytes \<Rightarrow> (bytes \<rightharpoonup> bytes) \<Rightarrow> (bytes \<rightharpoonup> bytes)" where
  "parse_assignment l m =
     (let l = trim l in
      if l = [] \<or> hd l = CHR ''#'' then m
      else case split_once (CHR ''='') l of
        None \<Rightarrow> m
      | Some (key, raw) \<Rightarrow>
          (let key = trim key in
           if \<not> valid_key key then m else m(key \<mapsto> unquote (trim raw))))"

definition parse_os_release :: "bytes \<Rightarrow> (bytes \<rightharpoonup> bytes)" where
  "parse_os_release txt = fold parse_assignment (lines txt) Map.empty"

section \<open>The reply\<close>

record uname =
  un_release :: bytes
  un_version :: bytes
  un_machine :: bytes

datatype io_kind = NotFound | OtherKind

definition OS_RELEASE_PATHS :: "path list" where
  "OS_RELEASE_PATHS = [''/etc/os-release'', ''/usr/lib/os-release'']"

definition OS_RELEASE_MAX_BYTES :: nat where
  "OS_RELEASE_MAX_BYTES = 64 * 1024"

text \<open>\<open>read_file n p\<close> is what reading at most \<open>n\<close> bytes of the file gives.\<close>

definition read_os_release :: "(nat \<Rightarrow> path \<Rightarrow> (io_kind, bytes) result) \<Rightarrow> path \<Rightarrow> (io_kind, bytes) result" where
  "read_os_release read_file p =
     (case read_file (OS_RELEASE_MAX_BYTES + 1) p of
        Err e \<Rightarrow> Err e
      | Ok bs \<Rightarrow> if length bs > OS_RELEASE_MAX_BYTES then Err OtherKind
                  else if utf8_valid bs then Ok bs else Err OtherKind)"

fun os_release_from :: "(nat \<Rightarrow> path \<Rightarrow> (io_kind, bytes) result) \<Rightarrow> path list \<Rightarrow> bytes option" where
  "os_release_from read_file [] = None"
| "os_release_from read_file (p # ps) =
     (case read_os_release read_file p of
        Ok txt \<Rightarrow> Some txt
      | Err k \<Rightarrow> if k = NotFound then os_release_from read_file ps else None)"

record os_info_source =
  os_uname :: "(error, uname) result"
  os_os_release :: "bytes option"

definition system_os_info :: "(errno \<Rightarrow> string) \<Rightarrow> (errno, uname) result
    \<Rightarrow> (nat \<Rightarrow> path \<Rightarrow> (io_kind, bytes) result) \<Rightarrow> os_info_source" where
  "system_os_info tx uts read_file =
     \<lparr>os_uname = (case uts of
        Err e \<Rightarrow> Err (Internal (''uname failed: '' @ tx e))
      | Ok u \<Rightarrow> Ok \<lparr>un_release = from_utf8_lossy (un_release u), un_version = from_utf8_lossy (un_version u),
                    un_machine = from_utf8_lossy (un_machine u)\<rparr>),
      os_os_release = os_release_from read_file OS_RELEASE_PATHS\<rparr>"

record os_info =
  oi_kernel_release :: "bytes option"
  oi_kernel_version :: "bytes option"
  oi_machine :: "bytes option"
  oi_id :: "bytes option"
  oi_name :: "bytes option"
  oi_pretty_name :: "bytes option"
  oi_version :: "bytes option"
  oi_version_id :: "bytes option"
  oi_variant :: "bytes option"
  oi_variant_id :: "bytes option"

definition os_info_of :: "os_info_source \<Rightarrow> (error, os_info) result" where
  "os_info_of src =
     (case os_uname src of
        Err e \<Rightarrow> Err e
      | Ok u \<Rightarrow>
          (let fields = (case os_os_release src of Some txt \<Rightarrow> parse_os_release txt | None \<Rightarrow> Map.empty)
           in Ok \<lparr>oi_kernel_release = Some (un_release u), oi_kernel_version = Some (un_version u),
              oi_machine = Some (un_machine u), oi_id = fields ''ID'', oi_name = fields ''NAME'',
              oi_pretty_name = fields ''PRETTY_NAME'', oi_version = fields ''VERSION'',
              oi_version_id = fields ''VERSION_ID'', oi_variant = fields ''VARIANT'',
              oi_variant_id = fields ''VARIANT_ID''\<rparr>))"

definition json_os_info :: "os_info \<Rightarrow> json" where
  "json_os_info i =
     JObject (optional ''id'' JString (oi_id i) @ optional ''kernel-release'' JString (oi_kernel_release i) @
       optional ''kernel-version'' JString (oi_kernel_version i) @ optional ''machine'' JString (oi_machine i) @
       optional ''name'' JString (oi_name i) @ optional ''pretty-name'' JString (oi_pretty_name i) @
       optional ''variant'' JString (oi_variant i) @ optional ''variant-id'' JString (oi_variant_id i) @
       optional ''version'' JString (oi_version i) @ optional ''version-id'' JString (oi_version_id i))"

definition osinfo :: "os_info_source \<Rightarrow> request \<Rightarrow> (error, json) result" where
  "osinfo src rq =
     (case arguments no_args rq of
        Err e \<Rightarrow> Err e
      | Ok _ \<Rightarrow> (case os_info_of src of Err e \<Rightarrow> Err e | Ok i \<Rightarrow> Ok (json_os_info i)))"

section \<open>Writing the format\<close>

fun escape :: "bytes \<Rightarrow> bytes" where
  "escape [] = []"
| "escape (c # cs) = (if c \<in> set escapable then [BACKSLASH, c] else [c]) @ escape cs"

definition print_assignment :: "bytes \<times> bytes \<Rightarrow> bytes" where
  "print_assignment kv = fst kv @ CHR ''='' # QUOTE # escape (snd kv) @ [QUOTE, NEWLINE]"

lemma double_quoted_escape: "double_quoted False (escape v @ QUOTE # rest) = v"
  by (induction v) (auto simp: escapable_def)

lemma newline_escape: "NEWLINE \<notin> set v \<Longrightarrow> NEWLINE \<notin> set (escape v)"
  by (induction v) (auto simp: escapable_def)

lemma valid_key_no: "valid_key k \<Longrightarrow> b \<in> {NEWLINE, CHR ''='', CHR ''#'', QUOTE} \<Longrightarrow> b \<notin> set k"
  by (auto simp: valid_key_def list_all_iff is_alphanumeric_def Let_def)

text \<open>Whitespace starts with a control, a space or a lead byte, and ends with one of those or a continuation byte.\<close>

lemma leading_0: "list_all (\<lambda>w. w \<noteq> [] \<and> hd w \<noteq> hd s) ws \<Longrightarrow> s \<noteq> [] \<Longrightarrow> leading ws s = 0"
proof -
  assume w: "list_all (\<lambda>w. w \<noteq> [] \<and> hd w \<noteq> hd s) ws" and s: "s \<noteq> []"
  have "take (length w) s \<noteq> w" if "w \<in> set ws" for w
    using w s that by (cases w; cases s) (auto simp: list_all_iff)
  then have "find (\<lambda>w. take (length w) s = w) ws = None" by (auto simp: find_None_iff)
  then show ?thesis by (simp add: leading_def)
qed

definition solid :: "byte \<Rightarrow> bool" where
  "solid b \<longleftrightarrow> list_all (\<lambda>w. w \<noteq> [] \<and> hd w \<noteq> b) (WHITE_SPACE @ map rev WHITE_SPACE)"

lemma trim_solid:
  assumes "s \<noteq> []" "solid (hd s)" "solid (last s)"
  shows "trim s = s"
proof -
  have "leading WHITE_SPACE s = 0" "leading (map rev WHITE_SPACE) (rev s) = 0"
    using assms by (auto intro!: leading_0 simp: solid_def hd_rev)
  then show ?thesis by (simp add: trim_def trim_by.simps)
qed

lemma solid_key: "is_alphanumeric b \<or> b = CHR ''_'' \<Longrightarrow> solid b"
  by (auto simp: solid_def WHITE_SPACE_def is_alphanumeric_def Let_def)

lemma solid_quote: "solid QUOTE"
  by (simp add: solid_def WHITE_SPACE_def)

lemma valid_key_solid: "valid_key k \<Longrightarrow> k \<noteq> [] \<and> solid (hd k) \<and> solid (last k)"
  using solid_key by (auto simp: valid_key_def list_all_iff)

lemma parse_printed:
  assumes "valid_key k"
  shows "parse_assignment (k @ CHR ''='' # QUOTE # escape v @ [QUOTE]) m = m(k \<mapsto> v)"
proof -
  let ?raw = "QUOTE # escape v @ [QUOTE]"
  let ?l = "k @ CHR ''='' # ?raw"
  note k = valid_key_solid [OF assms]
  have "hd ?l = hd k" "last ?l = QUOTE" using k by auto
  then have l: "trim ?l = ?l" using k solid_quote by (intro trim_solid) auto
  have "hd k \<noteq> CHR ''#''" using valid_key_no [OF assms, of "CHR ''#''"] k hd_in_set by fastforce
  moreover have "split_once (CHR ''='') ?l = Some (k, ?raw)"
    using valid_key_no [OF assms] by (intro split_once_append) simp
  moreover have "trim k = k" "trim ?raw = ?raw" using k solid_quote by (auto intro: trim_solid)
  moreover have "unquote ?raw = v" using double_quoted_escape by (simp add: unquote_def)
  ultimately show ?thesis using k assms by (simp add: parse_assignment_def l Let_def)
qed

lemma lines_line: "NEWLINE \<notin> set p \<Longrightarrow> p \<noteq> [] \<Longrightarrow> last p \<noteq> CHR 0x0D \<Longrightarrow> lines (p @ NEWLINE # q) = p # lines q"
  by (simp add: lines_def split_on_append strip_cr_def Let_def)

section \<open>Properties\<close>

text \<open>
  An \<^verbatim>\<open>os-release\<close> file written with double quotes and backslash escapes, one assignment per line,
  parses to its assignments, a later one overriding an earlier one, whatever bytes the values hold
  (newlines excepted).
\<close>

theorem os_release_roundtrip:
  assumes "list_all (\<lambda>(k, v). valid_key k \<and> NEWLINE \<notin> set v) kvs"
  shows "parse_os_release (concat (map print_assignment kvs)) = map_of (rev kvs)"
proof -
  have "fold parse_assignment (lines (concat (map print_assignment kvs))) m = m ++ map_of (rev kvs)" for m
    using assms
  proof (induction kvs arbitrary: m)
    case Nil
    then show ?case by (simp add: lines_def)
  next
    case (Cons kv kvs)
    obtain k v where kv: "kv = (k, v)" by force
    let ?l = "k @ CHR ''='' # QUOTE # escape v @ [QUOTE]"
    have ok: "valid_key k" "NEWLINE \<notin> set v" using Cons.prems kv by auto
    have "NEWLINE \<notin> set ?l" using valid_key_no [OF ok(1)] newline_escape [OF ok(2)] by auto
    then have "lines (?l @ NEWLINE # concat (map print_assignment kvs)) = ?l # lines (concat (map print_assignment kvs))"
      by (rule lines_line) simp_all
    moreover have "concat (map print_assignment (kv # kvs)) = ?l @ NEWLINE # concat (map print_assignment kvs)"
      by (simp add: kv print_assignment_def)
    ultimately have "lines (concat (map print_assignment (kv # kvs))) = ?l # lines (concat (map print_assignment kvs))"
      by simp
    then have "fold parse_assignment (lines (concat (map print_assignment (kv # kvs)))) m =
        fold parse_assignment (lines (concat (map print_assignment kvs))) (m(k \<mapsto> v))"
      by (simp only: fold_simps parse_printed [OF ok(1)])
    also have "\<dots> = m(k \<mapsto> v) ++ map_of (rev kvs)" using Cons.prems by (intro Cons.IH) simp
    finally show ?case by (simp add: kv map_of_append)
  qed
  then show ?thesis by (simp add: parse_os_release_def)
qed

section \<open>Witnesses\<close>

theorem os_release_roundtrip_witness:
  "parse_os_release (concat (map print_assignment [(''NAME'', ''A \"B\"''), (''ID'', ''a$b'')])) ''NAME'' = Some ''A \"B\"''"
proof -
  have "list_all (\<lambda>(k, v). valid_key k \<and> NEWLINE \<notin> set v) [(''NAME'', ''A \"B\"''), (''ID'', ''a$b'')]"
    by (simp add: valid_key_def is_alphanumeric_def)
  from os_release_roundtrip [OF this] show ?thesis by simp
qed

end
