(* ===== verification/Interfaces.thy ===== *)
theory Interfaces
  imports Handlers "HOL-Library.Word"
begin

unbundle bit_operations_syntax

text \<open>
  \<^verbatim>\<open>src/handlers/interfaces.rs\<close>: the records of \<^verbatim>\<open>getifaddrs\<close> (a parameter), converted, grouped, filtered and sorted
  into the reply of \<^verbatim>\<open>guest-network-get-interfaces\<close>. Addresses are words at their width; their text is
  what the standard library prints.

  Shown: the prefix length is that of exactly the contiguous masks, and the reply lists exactly the
  interfaces that are nowhere loopback, in name order, each with exactly its visible addresses.
\<close>

section \<open>Addresses\<close>

datatype ip_addr = V4 "32 word" | V6 "128 word"

record raw_addr =
  ra_ifname :: bytes
  ra_loopback :: bool
  ra_mac :: "nat list option"
  ra_addr :: "ip_addr option"
  ra_netmask :: "ip_addr option"

definition v4 :: "nat \<Rightarrow> nat \<Rightarrow> nat \<Rightarrow> nat \<Rightarrow> ip_addr" where
  "v4 a b c d = V4 (of_nat (((a * 256 + b) * 256 + c) * 256 + d))"

definition octet :: "nat \<Rightarrow> 32 word \<Rightarrow> nat" where
  "octet i w = unat (drop_bit (24 - 8 * i) w AND 0xff)"

definition v6_segments :: "128 word \<Rightarrow> nat list" where
  "v6_segments w = map (\<lambda>i. unat (drop_bit (112 - 16 * i) w AND 0xffff)) [0, 1, 2, 3, 4, 5, 6, 7]"

definition is_unicast_link_local_v6 :: "128 word \<Rightarrow> bool" where
  "is_unicast_link_local_v6 w \<longleftrightarrow> drop_bit 112 w AND 0xffc0 = 0xfe80"

definition is_filtered :: "ip_addr \<Rightarrow> bool" where
  "is_filtered a =
     (case a of
        V4 w \<Rightarrow> octet 0 w = 127 \<or> octet 0 w = 169 \<and> octet 1 w = 254
      | V6 w \<Rightarrow> w = 1 \<or> is_unicast_link_local_v6 w)"

definition leading_ones :: "'a::len word \<Rightarrow> nat" where
  "leading_ones w = length (takeWhile (bit w) (rev [0..<LENGTH('a)]))"

definition checked_shl :: "'a::len word \<Rightarrow> nat \<Rightarrow> 'a word option" where
  "checked_shl w n = (if n < LENGTH('a) then Some (push_bit n w) else None)"

definition mask_len :: "'a::len word \<Rightarrow> nat option" where
  "mask_len w =
     (let ones = leading_ones w in
      if (case checked_shl w ones of Some v \<Rightarrow> v | None \<Rightarrow> 0) = 0 then Some ones else None)"

definition prefix_len :: "ip_addr \<Rightarrow> nat option" where
  "prefix_len a = (case a of V4 w \<Rightarrow> mask_len w | V6 w \<Rightarrow> mask_len w)"

section \<open>Text\<close>

fun hex_nat :: "nat \<Rightarrow> string" where
  "hex_nat n = (if n < 16 then [hex_digit n] else hex_nat (n div 16) @ [hex_digit (n mod 16)])"

declare hex_nat.simps [simp del]

definition show_v4 :: "32 word \<Rightarrow> string" where
  "show_v4 w =
     show_nat (octet 0 w) @ ''.'' @ show_nat (octet 1 w) @ ''.'' @ show_nat (octet 2 w) @ ''.'' @ show_nat (octet 3 w)"

text \<open>The first longest run of zero segments, as start and length.\<close>

fun zero_span :: "nat \<Rightarrow> nat list \<Rightarrow> nat \<times> nat \<Rightarrow> nat \<times> nat \<Rightarrow> nat \<times> nat" where
  "zero_span i [] cur best = best"
| "zero_span i (x # xs) cur best =
     (if x = 0 then
        (let cur = (if snd cur = 0 then i else fst cur, snd cur + 1)
         in zero_span (i + 1) xs cur (if snd cur > snd best then cur else best))
      else zero_span (i + 1) xs (0, 0) best)"

fun hex_groups :: "nat list \<Rightarrow> string" where
  "hex_groups [] = []"
| "hex_groups [x] = hex_nat x"
| "hex_groups (x # y # xs) = hex_nat x @ '':'' @ hex_groups (y # xs)"

definition show_v6 :: "128 word \<Rightarrow> string" where
  "show_v6 w =
     (if drop_bit 32 w = 0xffff then ''::ffff:'' @ show_v4 (ucast w)
      else (let ss = v6_segments w; (start, n) = zero_span 0 ss (0, 0) (0, 0) in
        if n > 1 then hex_groups (take start ss) @ ''::'' @ hex_groups (drop (start + n) ss)
        else hex_groups ss))"

definition show_addr :: "ip_addr \<Rightarrow> string" where
  "show_addr a = (case a of V4 w \<Rightarrow> show_v4 w | V6 w \<Rightarrow> show_v6 w)"

fun format_mac :: "nat list \<Rightarrow> string" where
  "format_mac [] = []"
| "format_mac [b] = hex_octet b"
| "format_mac (b # c # bs) = hex_octet b @ '':'' @ format_mac (c # bs)"

section \<open>The reply\<close>

record ip_address =
  ia_ip_address :: string
  ia_type :: string
  ia_prefix :: nat

record interface =
  if_name :: bytes
  if_hardware_address :: "string option"
  if_ip_addresses :: "ip_address list"

text \<open>The order of \<^verbatim>\<open>String\<close> keys, and \<^verbatim>\<open>entry(name).or_insert_with(..)\<close> followed by an update.\<close>

fun bytes_less :: "bytes \<Rightarrow> bytes \<Rightarrow> bool" where
  "bytes_less bs [] = False"
| "bytes_less [] (c # cs) = True"
| "bytes_less (b # bs) (c # cs) = ((of_char b :: nat) < of_char c \<or> b = c \<and> bytes_less bs cs)"

definition fresh_interface :: "bytes \<Rightarrow> interface" where
  "fresh_interface n = \<lparr>if_name = n, if_hardware_address = None, if_ip_addresses = []\<rparr>"

fun upsert :: "bytes \<Rightarrow> (interface \<Rightarrow> interface) \<Rightarrow> interface list \<Rightarrow> interface list" where
  "upsert n f [] = [f (fresh_interface n)]"
| "upsert n f (i # is) =
     (if n = if_name i then f i # is
      else if bytes_less n (if_name i) then f (fresh_interface n) # i # is
      else i # upsert n f is)"

definition address_of :: "ip_addr \<Rightarrow> ip_addr option \<Rightarrow> ip_address" where
  "address_of a netmask =
     \<lparr>ia_ip_address = show_addr a,
      ia_type = (case a of V4 _ \<Rightarrow> ''ipv4'' | V6 _ \<Rightarrow> ''ipv6''),
      ia_prefix = (case Option.bind netmask prefix_len of
          Some p \<Rightarrow> p
        | None \<Rightarrow> (case a of V4 _ \<Rightarrow> 32 | V6 _ \<Rightarrow> 128))\<rparr>"

definition update_interface :: "raw_addr \<Rightarrow> interface \<Rightarrow> interface" where
  "update_interface r i =
     (let i = (case ra_mac r of Some m \<Rightarrow> i\<lparr>if_hardware_address := Some (format_mac m)\<rparr> | None \<Rightarrow> i)
      in case ra_addr r of
           Some a \<Rightarrow> if is_filtered a then i
                     else i\<lparr>if_ip_addresses := if_ip_addresses i @ [address_of a (ra_netmask r)]\<rparr>
         | None \<Rightarrow> i)"

definition collect_step :: "raw_addr \<Rightarrow> interface list \<times> bytes list \<Rightarrow> interface list \<times> bytes list" where
  "collect_step r acc =
     (upsert (ra_ifname r) (update_interface r) (fst acc),
      if ra_loopback r then snd acc @ [ra_ifname r] else snd acc)"

definition collect :: "raw_addr list \<Rightarrow> interface list" where
  "collect rs =
     (let (by_name, loopbacks) = fold collect_step rs ([], [])
      in fold (\<lambda>n is. filter (\<lambda>i. if_name i \<noteq> n) is) loopbacks by_name)"

definition MAX_INTERFACES_REPLY_BYTES :: nat where
  "MAX_INTERFACES_REPLY_BYTES = 256 * 1024"

definition json_address :: "ip_address \<Rightarrow> json" where
  "json_address a =
     JObject [(''ip-address'', JString (ia_ip_address a)), (''ip-address-type'', JString (ia_type a)),
              (''prefix'', json_nat (ia_prefix a))]"

definition json_interface :: "interface \<Rightarrow> json" where
  "json_interface i =
     JObject (optional ''hardware-address'' JString (if_hardware_address i) @
       [(''ip-addresses'', JArray (map json_address (if_ip_addresses i))), (''name'', JString (if_name i))])"

definition interfaces :: "(json \<Rightarrow> bytes) \<Rightarrow> (error, raw_addr list) result \<Rightarrow> request \<Rightarrow> (error, json) result" where
  "interfaces ser addresses rq =
     (case arguments no_args rq of
        Err e \<Rightarrow> Err e
      | Ok _ \<Rightarrow> (case addresses of
            Err e \<Rightarrow> Err e
          | Ok rs \<Rightarrow> bounded_reply ser ''interfaces'' (JArray (map json_interface (collect rs)))
              MAX_INTERFACES_REPLY_BYTES))"

section \<open>The records of the kernel\<close>

text \<open>
  A record of \<^verbatim>\<open>getifaddrs\<close> as \<^verbatim>\<open>nix\<close> yields it: of a socket address the code asks for the IPv4 address, the
  IPv6 address or the link address (its length byte and the six bytes \<^verbatim>\<open>LinkAddr::addr\<close> gives, if any).
\<close>

datatype sockaddr = Inet "32 word" | Inet6 "128 word" | Link nat "nat list option" | OtherFamily

record ifaddr =
  ifa_name :: bytes
  ifa_loopback :: bool
  ifa_address :: "sockaddr option"
  ifa_netmask :: "sockaddr option"

definition to_ip :: "sockaddr \<Rightarrow> ip_addr option" where
  "to_ip a = (case a of Inet w \<Rightarrow> Some (V4 w) | Inet6 w \<Rightarrow> Some (V6 w) | Link _ _ \<Rightarrow> None | OtherFamily \<Rightarrow> None)"

definition link_mac :: "sockaddr \<Rightarrow> nat list option" where
  "link_mac a = (case a of Link halen mac \<Rightarrow> if halen = 6 then mac else None | _ \<Rightarrow> None)"

definition raw_of :: "ifaddr \<Rightarrow> raw_addr" where
  "raw_of ifa =
     \<lparr>ra_ifname = ifa_name ifa, ra_loopback = ifa_loopback ifa, ra_mac = Option.bind (ifa_address ifa) link_mac,
      ra_addr = Option.bind (ifa_address ifa) to_ip, ra_netmask = Option.bind (ifa_netmask ifa) to_ip\<rparr>"

definition system_addresses :: "(errno \<Rightarrow> string) \<Rightarrow> (errno, ifaddr list) result \<Rightarrow> (error, raw_addr list) result" where
  "system_addresses tx getifaddrs =
     (case getifaddrs of
        Err e \<Rightarrow> Err (Internal (''getifaddrs failed: '' @ tx e))
      | Ok ifas \<Rightarrow> Ok (map raw_of ifas))"

text \<open>
  A record that the kernel yields gives a hardware address or an address, never both, so each record
  changes at most one of the two fields of its interface.
\<close>

lemma raw_of_one: "ra_mac (raw_of ifa) = None \<or> ra_addr (raw_of ifa) = None"
  by (cases "ifa_address ifa")
     (auto simp: raw_of_def link_mac_def to_ip_def split: sockaddr.splits)

lemma raw_of_updates_one:
  "if_hardware_address (update_interface (raw_of ifa) i) = if_hardware_address i \<or>
   if_ip_addresses (update_interface (raw_of ifa) i) = if_ip_addresses i"
  using raw_of_one [of ifa] by (auto simp: update_interface_def Let_def split: option.split)

lemma interfaces_system_error:
  "arguments no_args rq = Ok u \<Longrightarrow>
   interfaces ser (system_addresses tx (Err e)) rq = Err (Internal (''getifaddrs failed: '' @ tx e))"
  by (simp add: interfaces_def system_addresses_def)

section \<open>Masks\<close>

definition netmask :: "nat \<Rightarrow> 'a::len word" where
  "netmask p = push_bit (LENGTH('a) - p) (mask p)"

lemma bit_netmask: "p \<le> LENGTH('a::len) \<Longrightarrow> bit (netmask p :: 'a word) i \<longleftrightarrow> i < LENGTH('a) \<and> LENGTH('a) - p \<le> i"
  by (auto simp: netmask_def bit_simps)

lemma leading_ones_bits:
  fixes w :: "'a::len word"
  shows "leading_ones w \<le> LENGTH('a)"
    and "LENGTH('a) - leading_ones w \<le> i \<Longrightarrow> i < LENGTH('a) \<Longrightarrow> bit w i"
    and "leading_ones w < LENGTH('a) \<Longrightarrow> \<not> bit w (LENGTH('a) - 1 - leading_ones w)"
proof -
  let ?is = "rev [0..<LENGTH('a)]"
  let ?n = "leading_ones w"
  show le: "?n \<le> LENGTH('a)"
    using length_takeWhile_le [of "bit w" ?is] by (simp add: leading_ones_def)
  have nth: "j < LENGTH('a) \<Longrightarrow> ?is ! j = LENGTH('a) - 1 - j" for j by (simp add: rev_nth)
  show "LENGTH('a) - ?n \<le> i \<Longrightarrow> i < LENGTH('a) \<Longrightarrow> bit w i"
  proof -
    assume i: "LENGTH('a) - ?n \<le> i" "i < LENGTH('a)"
    then have j: "LENGTH('a) - 1 - i < ?n" by linarith
    then have "takeWhile (bit w) ?is ! (LENGTH('a) - 1 - i) = ?is ! (LENGTH('a) - 1 - i)"
      by (intro takeWhile_nth) (simp add: leading_ones_def)
    moreover have "?is ! (LENGTH('a) - 1 - i) = i" using i nth [of "LENGTH('a) - 1 - i"] by simp
    ultimately show ?thesis
      using j nth_mem [of "LENGTH('a) - 1 - i" "takeWhile (bit w) ?is"] set_takeWhileD [of i "bit w" ?is]
      by (simp add: leading_ones_def)
  qed
  show "?n < LENGTH('a) \<Longrightarrow> \<not> bit w (LENGTH('a) - 1 - ?n)"
    using nth_length_takeWhile [of "bit w" ?is] nth [of ?n] by (simp add: leading_ones_def)
qed

lemma push_bit_eq_0:
  fixes w :: "'a::len word"
  shows "push_bit n w = 0 \<longleftrightarrow> (\<forall>i < LENGTH('a) - n. \<not> bit w i)"
proof
  assume z: "push_bit n w = 0"
  show "\<forall>i < LENGTH('a) - n. \<not> bit w i"
  proof (intro allI impI)
    fix i assume "i < LENGTH('a) - n"
    then have "bit (push_bit n w) (n + i) \<longleftrightarrow> bit w i" by (auto simp: bit_push_bit_iff)
    then show "\<not> bit w i" using z by simp
  qed
next
  assume "\<forall>i < LENGTH('a) - n. \<not> bit w i"
  then show "push_bit n w = 0" by (intro bit_word_eqI) (simp add: bit_push_bit_iff)
qed

lemma netmask_unique:
  fixes w :: "'a::len word"
  assumes "w = netmask p" "p \<le> LENGTH('a)"
  shows "leading_ones w = p"
proof (rule antisym)
  show "leading_ones w \<le> p"
  proof (rule ccontr)
    assume n: "\<not> leading_ones w \<le> p"
    then have "bit w (LENGTH('a) - leading_ones w)"
      using leading_ones_bits(1,2) [of w] by simp
    then have "LENGTH('a) - p \<le> LENGTH('a) - leading_ones w"
      using assms(1) bit_netmask [OF assms(2)] by blast
    then show False using n leading_ones_bits(1) [of w] by linarith
  qed
  show "p \<le> leading_ones w"
  proof (rule ccontr)
    assume n: "\<not> p \<le> leading_ones w"
    then have "\<not> bit w (LENGTH('a) - 1 - leading_ones w)"
      using leading_ones_bits(3) [of w] assms(2) by simp
    then show False using n assms bit_netmask [OF assms(2)] by simp
  qed
qed

lemma mask_len_iff:
  fixes w :: "'a::len word"
  shows "mask_len w = Some p \<longleftrightarrow> p \<le> LENGTH('a) \<and> w = netmask p"
proof -
  let ?n = "leading_ones w"
  have "(case checked_shl w ?n of Some v \<Rightarrow> v | None \<Rightarrow> 0) = 0 \<longleftrightarrow> (\<forall>i < LENGTH('a) - ?n. \<not> bit w i)"
    by (simp add: checked_shl_def push_bit_eq_0)
  also have "\<dots> \<longleftrightarrow> w = netmask ?n"
  proof
    assume "\<forall>i < LENGTH('a) - ?n. \<not> bit w i"
    then show "w = netmask ?n"
      using leading_ones_bits(1,2) [of w] bit_netmask [OF leading_ones_bits(1) [of w]]
      by (intro bit_word_eqI) (meson not_le)
  next
    assume "w = netmask ?n"
    then show "\<forall>i < LENGTH('a) - ?n. \<not> bit w i" using bit_netmask [OF leading_ones_bits(1) [of w]] by simp
  qed
  finally show ?thesis
    using netmask_unique [of w p] leading_ones_bits(1) [of w] by (auto simp: mask_len_def Let_def)
qed

section \<open>The reply as a specification\<close>

definition records_of :: "bytes \<Rightarrow> raw_addr list \<Rightarrow> raw_addr list" where
  "records_of n rs = filter (\<lambda>r. ra_ifname r = n) rs"

definition visible :: "raw_addr \<Rightarrow> ip_address option" where
  "visible r =
     (case ra_addr r of
        None \<Rightarrow> None
      | Some a \<Rightarrow> if is_filtered a then None else Some (address_of a (ra_netmask r)))"

text \<open>The interface of a name: its last hardware address and its visible addresses in kernel order.\<close>

definition interface_of :: "raw_addr list \<Rightarrow> bytes \<Rightarrow> interface" where
  "interface_of rs n =
     \<lparr>if_name = n,
      if_hardware_address = (case rev (List.map_filter ra_mac (records_of n rs)) of
          [] \<Rightarrow> None
        | m # _ \<Rightarrow> Some (format_mac m)),
      if_ip_addresses = List.map_filter visible (records_of n rs)\<rparr>"

lemma map_filter_snoc:
  "List.map_filter f (xs @ [x]) = List.map_filter f xs @ (case f x of None \<Rightarrow> [] | Some y \<Rightarrow> [y])"
  by (simp add: List.map_filter_def split: option.splits)

lemma interface_of_snoc:
  "interface_of (rs @ [r]) n =
     (if ra_ifname r = n then update_interface r (interface_of rs n) else interface_of rs n)"
  by (auto simp: interface_of_def records_of_def map_filter_snoc update_interface_def visible_def Let_def
      split: option.splits)

lemma interface_of_fresh: "n \<notin> ra_ifname ` set rs \<Longrightarrow> interface_of rs n = fresh_interface n"
proof -
  assume "n \<notin> ra_ifname ` set rs"
  then have "records_of n rs = []" by (auto simp: records_of_def filter_empty_conv)
  then show ?thesis by (simp add: interface_of_def fresh_interface_def List.map_filter_def)
qed

lemma update_interface_name [simp]: "if_name (update_interface r i) = if_name i"
  by (simp add: update_interface_def Let_def split: option.splits)

lemma interface_of_name [simp]: "if_name (interface_of rs n) = n"
  by (simp add: interface_of_def)

lemma bytes_less_irrefl [simp]: "\<not> bytes_less b b"
  by (induction b) auto

lemma bytes_less_trans: "bytes_less a b \<Longrightarrow> bytes_less b c \<Longrightarrow> bytes_less a c"
proof (induction a b arbitrary: c rule: bytes_less.induct)
  case (2 b bs)
  then show ?case by (cases c) auto
next
  case (3 a as b bs)
  then show ?case by (cases c) auto
qed simp

lemma bytes_less_total: "a \<noteq> b \<Longrightarrow> \<not> bytes_less a b \<Longrightarrow> bytes_less b a"
proof (induction a b rule: bytes_less.induct)
  case (3 a as b bs)
  then show ?case by (metis bytes_less.simps(3) linorder_neqE_nat of_char_eq_iff)
qed (auto elim: list.exhaust [where y = bs for bs], metis bytes_less.simps(2) list.exhaust)

lemma upsert_names:
  assumes "\<And>i. if_name (f i) = if_name i"
  shows "set (map if_name (upsert n f is)) = insert n (set (map if_name is))"
  using assms by (induction "is") (auto simp: fresh_interface_def)

lemma upsert_sorted:
  assumes "\<And>i. if_name (f i) = if_name i" "sorted_wrt bytes_less (map if_name is)"
  shows "sorted_wrt bytes_less (map if_name (upsert n f is))"
  using assms(2)
proof (induction "is")
  case (Cons i "is")
  have "\<forall>m \<in> set (map if_name (upsert n f is)). bytes_less (if_name i) m"
    if "n \<noteq> if_name i" "\<not> bytes_less n (if_name i)"
    using that Cons.prems bytes_less_total [OF that] by (simp only: upsert_names [OF assms(1)]) auto
  then show ?case
    using Cons assms(1) by (auto simp: fresh_interface_def intro: bytes_less_trans)
qed (simp add: assms(1))

lemma upsert_mem:
  assumes "sorted_wrt bytes_less (map if_name is)" "i \<in> set (upsert n f is)"
  shows "i \<in> set is \<and> if_name i \<noteq> n \<or> (\<exists>j \<in> set is. if_name j = n \<and> i = f j) \<or>
    i = f (fresh_interface n) \<and> n \<notin> if_name ` set is"
  using assms
proof (induction "is")
  case (Cons j "is")
  have after: "k \<in> set is \<Longrightarrow> bytes_less (if_name j) (if_name k)" for k
    using Cons.prems(1) by simp
  consider "n = if_name j" | "bytes_less n (if_name j)" | "n \<noteq> if_name j" "\<not> bytes_less n (if_name j)"
    by blast
  then show ?case
  proof cases
    case 1
    then show ?thesis using Cons.prems(2) after by fastforce
  next
    case 2
    then have "n \<noteq> if_name j" "k \<in> set is \<Longrightarrow> n \<noteq> if_name k" for k
      using after bytes_less_trans bytes_less_irrefl by blast+
    then show ?thesis using 2 Cons.prems(2) by auto
  next
    case 3
    then have "i = j \<or> i \<in> set (upsert n f is)" using Cons.prems(2) by simp
    then show ?thesis using Cons.IH Cons.prems(1) 3(1) by auto
  qed
qed simp

lemma collect_fold:
  defines "acc \<equiv> \<lambda>rs. fold collect_step rs ([], [])"
  shows "sorted_wrt bytes_less (map if_name (fst (acc rs))) \<and> if_name ` set (fst (acc rs)) = ra_ifname ` set rs \<and>
    (\<forall>i \<in> set (fst (acc rs)). interface_of rs (if_name i) = i) \<and>
    set (snd (acc rs)) = {ra_ifname r | r. r \<in> set rs \<and> ra_loopback r}"
proof (induction rs rule: rev_induct)
  case Nil
  then show ?case by (simp add: acc_def)
next
  case (snoc r rs)
  let ?n = "ra_ifname r"
  have step: "fst (acc (rs @ [r])) = upsert ?n (update_interface r) (fst (acc rs))"
    "snd (acc (rs @ [r])) = (if ra_loopback r then snd (acc rs) @ [?n] else snd (acc rs))"
    by (simp_all add: acc_def collect_step_def)
  have "interface_of (rs @ [r]) (if_name i) = i" if i: "i \<in> set (fst (acc (rs @ [r])))" for i
  proof -
    consider "i \<in> set (fst (acc rs))" "if_name i \<noteq> ?n" |
      j where "j \<in> set (fst (acc rs))" "if_name j = ?n" "i = update_interface r j" |
      "i = update_interface r (fresh_interface ?n)" "?n \<notin> ra_ifname ` set rs"
      using upsert_mem [of "fst (acc rs)" i ?n "update_interface r"] snoc.IH i step(1) by auto
    then show ?thesis
    proof cases
      case 1
      then have "interface_of rs (if_name i) = i" using snoc.IH by blast
      then show ?thesis using 1(2) by (simp add: interface_of_snoc)
    next
      case 2
      then have "interface_of rs ?n = j" using snoc.IH by auto
      then show ?thesis using 2 by (simp add: interface_of_snoc)
    next
      case 3
      then show ?thesis by (simp add: interface_of_snoc interface_of_fresh fresh_interface_def)
    qed
  qed
  then show ?case
    using snoc.IH upsert_sorted [of "update_interface r" "fst (acc rs)" ?n]
      upsert_names [of "update_interface r" ?n "fst (acc rs)"] step
    by auto
qed

lemma remove_names: "fold (\<lambda>n is. filter (\<lambda>i. if_name i \<noteq> n) is) ns is = filter (\<lambda>i. if_name i \<notin> set ns) is"
  by (induction ns arbitrary: "is") (auto intro: filter_cong)

lemma set_filter_image:
  "{i \<in> interface_of rs ` N. if_name i \<notin> L} = interface_of rs ` {n \<in> N. n \<notin> L}"
  by auto

section \<open>Properties\<close>

text \<open>
  C38. The reply lists exactly the interfaces that no record marks as loopback, strictly in name order,
  each with its last hardware address and with exactly those of its addresses that are neither loopback
  nor link-local, in kernel order.
\<close>

theorem collect_exact:
  "sorted_wrt bytes_less (map if_name (collect rs)) \<and>
   set (collect rs) = interface_of rs `
     {n \<in> ra_ifname ` set rs. n \<notin> {ra_ifname r | r. r \<in> set rs \<and> ra_loopback r}}"
proof -
  obtain by_name loopbacks where acc: "fold collect_step rs ([], []) = (by_name, loopbacks)" by force
  note f = collect_fold [of rs, unfolded acc fst_conv snd_conv]
  have c: "collect rs = filter (\<lambda>i. if_name i \<notin> set loopbacks) by_name"
    by (simp add: collect_def acc remove_names)
  have "sorted_wrt bytes_less (map if_name (collect rs))"
    using f unfolding c by (simp add: sorted_wrt_map sorted_wrt_filter)
  moreover have "set by_name = interface_of rs ` ra_ifname ` set rs"
  proof -
    have "\<forall>i \<in> set by_name. interface_of rs (if_name i) = i" using f by blast
    then have "set by_name = interface_of rs ` if_name ` set by_name" by (simp add: image_image)
    also have "\<dots> = interface_of rs ` ra_ifname ` set rs" using f by metis
    finally show ?thesis .
  qed
  then have "set (collect rs) = {i \<in> interface_of rs ` ra_ifname ` set rs. if_name i \<notin> set loopbacks}"
    by (auto simp: c)
  moreover have "set loopbacks = {ra_ifname r | r. r \<in> set rs \<and> ra_loopback r}" using f by blast
  ultimately show ?thesis by (simp only: set_filter_image)
qed

text \<open>
  A netmask has a prefix length exactly when it is contiguous, at both widths: \<open>p\<close> is the prefix
  length of a mask exactly when the mask has its \<open>p\<close> highest bits set and no other.
\<close>

theorem prefix_len_exact:
  "prefix_len a = Some p \<longleftrightarrow>
     (case a of V4 w \<Rightarrow> p \<le> 32 \<and> w = push_bit (32 - p) (mask p) | V6 w \<Rightarrow> p \<le> 128 \<and> w = push_bit (128 - p) (mask p))"
  by (cases a) (simp_all add: prefix_len_def mask_len_iff netmask_def)

end
