(* ===== verification/FsInfo.thy ===== *)
theory FsInfo
  imports Handlers
begin

text \<open>
  \<^verbatim>\<open>src/handlers/fsinfo.rs\<close>: the mount table with sizes, and the bound on walks alive at once. The
  \<^verbatim>\<open>statfs\<close> call is a parameter; the handler is split at its await into \<open>fsinfo_begin\<close> (the slot),
  \<open>fsinfo_walk\<close> (the blocking task) and \<open>fsinfo_reply\<close>. A walk gives its slot back when it returns, not
  when its request gives up.

  Shown: however many requests come and time out, at most two walks are alive, and a slot is never lost.
\<close>

section \<open>Sizes\<close>

record statfs =
  sf_blocks :: nat
  sf_bfree :: nat
  sf_bsize :: nat

definition total_bytes :: "statfs \<Rightarrow> nat" where
  "total_bytes s = sat_mul (sf_blocks s) (sf_bsize s)"

definition used_bytes :: "statfs \<Rightarrow> nat" where
  "used_bytes s = sat_mul (sat_sub (sf_blocks s) (sf_bfree s)) (sf_bsize s)"

text \<open>The production source: blocks, free blocks and the signed block size of the call.\<close>

definition system_statfs :: "(errno \<Rightarrow> string) \<Rightarrow> (path \<Rightarrow> (errno, nat \<times> nat \<times> int) result) \<Rightarrow> path
    \<Rightarrow> (error, statfs) result" where
  "system_statfs tx call p =
     (case call p of
        Err e \<Rightarrow> Err (Internal (''statfs failed: '' @ tx e))
      | Ok (blocks, bfree, bsize) \<Rightarrow>
          Ok \<lparr>sf_blocks = blocks, sf_bfree = bfree, sf_bsize = (if bsize < 0 then 0 else nat bsize)\<rparr>)"

definition SKIPPED :: "string list" where
  "SKIPPED =
     [''nfs'', ''nfs4'', ''cifs'', ''smb3'', ''smbfs'', ''ncpfs'', ''afs'', ''ceph'', ''glusterfs'', ''9p'', ''coda'',
      ''lustre'', ''autofs'', ''fuseblk'']"

definition sizes_are_queried :: "bytes \<Rightarrow> bool" where
  "sizes_are_queried fs_type \<longleftrightarrow> \<not> (fs_type \<in> set SKIPPED \<or> take 4 fs_type = ''fuse'')"

record filesystem_info =
  fi_name :: bytes
  fi_mountpoint :: bytes
  fi_fs_type :: bytes
  fi_used_bytes :: "nat option"
  fi_total_bytes :: "nat option"

definition fs_entry :: "(path \<Rightarrow> (error, statfs) result) \<Rightarrow> mount_entry \<Rightarrow> filesystem_info" where
  "fs_entry statfs m =
     (let sizes = (if sizes_are_queried (me_fs_type m)
            then (case statfs (me_mount_point m) of Ok s \<Rightarrow> Some s | Err _ \<Rightarrow> None) else None)
      in \<lparr>fi_name = me_source m, fi_mountpoint = from_utf8_lossy (me_mount_point m), fi_fs_type = me_fs_type m,
          fi_used_bytes = map_option used_bytes sizes, fi_total_bytes = map_option total_bytes sizes\<rparr>)"

definition fs_info :: "mount_entry list \<Rightarrow> (path \<Rightarrow> (error, statfs) result) \<Rightarrow> filesystem_info list" where
  "fs_info mounts statfs = map (fs_entry statfs) mounts"

definition json_filesystem :: "filesystem_info \<Rightarrow> json" where
  "json_filesystem i =
     JObject ([(''disk'', JArray []), (''mountpoint'', JString (fi_mountpoint i)), (''name'', JString (fi_name i))] @
       optional ''total-bytes'' json_nat (fi_total_bytes i) @ [(''type'', JString (fi_fs_type i))] @
       optional ''used-bytes'' json_nat (fi_used_bytes i))"

section \<open>The handler\<close>

definition FSINFO_TIMEOUT_SECS :: nat where
  "FSINFO_TIMEOUT_SECS = 10"

definition MAX_FSINFO_WALKS :: nat where
  "MAX_FSINFO_WALKS = 2"

definition MAX_FSINFO_REPLY_BYTES :: nat where
  "MAX_FSINFO_REPLY_BYTES = 1024 * 1024"

definition fsinfo_begin :: "request \<Rightarrow> nat \<Rightarrow> nat \<times> (error, unit) result" where
  "fsinfo_begin rq slots =
     (case arguments no_args rq of
        Err e \<Rightarrow> (slots, Err e)
      | Ok _ \<Rightarrow>
          if slots = 0 then
            (slots, Err (Internal (''fsinfo: '' @ show_nat MAX_FSINFO_WALKS @
              '' earlier walks are still running; retry later'')))
          else (slots - 1, Ok ()))"

definition fsinfo_walk :: "(json \<Rightarrow> bytes) \<Rightarrow> (error, mount_entry list) result \<Rightarrow> (path \<Rightarrow> (error, statfs) result)
    \<Rightarrow> (error, json) result" where
  "fsinfo_walk ser entries statfs =
     (case entries of
        Err e \<Rightarrow> Err e
      | Ok es \<Rightarrow> bounded_reply ser ''fsinfo'' (JArray (map json_filesystem (fs_info es statfs))) MAX_FSINFO_REPLY_BYTES)"

datatype walk_wait =
    WalkReturned "(error, json) result"
  | WalkLost string
  | WalkTimedOut

definition fsinfo_reply :: "walk_wait \<Rightarrow> (error, json) result" where
  "fsinfo_reply w =
     (case w of
        WalkReturned r \<Rightarrow> r
      | WalkLost s \<Rightarrow> Err (Internal (''fsinfo task failed: '' @ s))
      | WalkTimedOut \<Rightarrow> Err (Internal (''fsinfo did not complete within '' @ show_nat FSINFO_TIMEOUT_SECS @ '' s'')))"

section \<open>Walks alive\<close>

text \<open>The free slots, the walks alive and the requests still waiting for theirs.\<close>

record walks =
  wk_slots :: nat
  wk_alive :: nat
  wk_waiting :: nat

inductive walks_step :: "walks \<Rightarrow> walks \<Rightarrow> bool" where
  ws_request: "fsinfo_begin rq (wk_slots w) = (s, Inr u) \<Longrightarrow>
    walks_step w (w\<lparr>wk_slots := s, wk_alive := wk_alive w + 1, wk_waiting := wk_waiting w + 1\<rparr>)"
| ws_refused: "fsinfo_begin rq (wk_slots w) = (s, Inl e) \<Longrightarrow> walks_step w (w\<lparr>wk_slots := s\<rparr>)"
| ws_answered: "0 < wk_alive w \<Longrightarrow> 0 < wk_waiting w \<Longrightarrow>
    walks_step w (w\<lparr>wk_slots := wk_slots w + 1, wk_alive := wk_alive w - 1, wk_waiting := wk_waiting w - 1\<rparr>)"
| ws_timeout: "0 < wk_waiting w \<Longrightarrow> walks_step w (w\<lparr>wk_waiting := wk_waiting w - 1\<rparr>)"
| ws_abandoned_returns: "wk_waiting w < wk_alive w \<Longrightarrow>
    walks_step w (w\<lparr>wk_slots := wk_slots w + 1, wk_alive := wk_alive w - 1\<rparr>)"

definition walks_start :: "walks \<Rightarrow> bool" where
  "walks_start w \<longleftrightarrow> w = \<lparr>wk_slots = MAX_FSINFO_WALKS, wk_alive = 0, wk_waiting = 0\<rparr>"

definition walks_inv :: "walks \<Rightarrow> bool" where
  "walks_inv w \<longleftrightarrow> wk_slots w + wk_alive w = MAX_FSINFO_WALKS \<and> wk_waiting w \<le> wk_alive w"

interpretation wk: inductive_invariant walks_start walks_step walks_inv
proof
  show "walks_start w \<Longrightarrow> walks_inv w" for w by (simp add: walks_start_def walks_inv_def)
  show "walks_inv w \<Longrightarrow> walks_step w w' \<Longrightarrow> walks_inv w'" for w w'
    by (auto elim!: walks_step.cases simp: walks_inv_def fsinfo_begin_def split: sum.splits if_splits)
qed

section \<open>Properties\<close>

text \<open>
  Abandoned walks never pile up: whatever requests are made, refused, answered and timed out, the
  free slots and the walks alive add up to two, so a stuck mount costs at most two blocking threads and a
  slot comes back with each walk that returns.
\<close>

theorem fsinfo_walks_bounded:
  assumes "reachable walks_start walks_step w"
  shows "wk_slots w + wk_alive w = 2 \<and> wk_waiting w \<le> wk_alive w"
  using wk.inv_reachable [OF assms] by (simp add: walks_inv_def MAX_FSINFO_WALKS_def)

section \<open>Witnesses\<close>

theorem fsinfo_walks_bounded_witness:
  "reachable walks_start walks_step \<lparr>wk_slots = 1, wk_alive = 1, wk_waiting = 0\<rparr> \<and> (1::nat) + 1 = 2"
proof -
  let ?rq = "\<lparr>rq_method = ''guest-get-fsinfo'', rq_arguments = None, rq_id = None\<rparr>"
  have "reachable walks_start walks_step \<lparr>wk_slots = 2, wk_alive = 0, wk_waiting = 0\<rparr>"
    by (rule reach_start) (simp add: walks_start_def MAX_FSINFO_WALKS_def)
  moreover have "walks_step \<lparr>wk_slots = 2, wk_alive = 0, wk_waiting = 0\<rparr> \<lparr>wk_slots = 1, wk_alive = 1, wk_waiting = 1\<rparr>"
    using ws_request [of ?rq "\<lparr>wk_slots = 2, wk_alive = 0, wk_waiting = 0\<rparr>" 1]
    by (simp add: fsinfo_begin_def arguments_def no_args_def)
  moreover have "walks_step \<lparr>wk_slots = 1, wk_alive = 1, wk_waiting = 1\<rparr> \<lparr>wk_slots = 1, wk_alive = 1, wk_waiting = 0\<rparr>"
    using ws_timeout [of "\<lparr>wk_slots = 1, wk_alive = 1, wk_waiting = 1\<rparr>"] by simp
  ultimately have "reachable walks_start walks_step \<lparr>wk_slots = 1, wk_alive = 1, wk_waiting = 0\<rparr>"
    by (auto intro: reach_step)
  from fsinfo_walks_bounded [OF this] this show ?thesis by simp
qed

end
