(* ===== verification/RateLimit.thy ===== *)
theory RateLimit
  imports Config
begin

text \<open>
  \<^verbatim>\<open>src/dispatch/ratelimit.rs\<close>: the class of each command and one token bucket per limited class. The
  bucket is the \<^verbatim>\<open>governor\<close> crate's: a parameter with its creation from a quota and its check at a time.

  Shown: the buckets are independent. What a class is answered depends on its own requests only, and the
  unlimited class is always let through.
\<close>

section \<open>Classes\<close>

datatype command_class = PingSync | Get | FsfreezeFreeze | Unlimited | Fstrim | Shutdown

definition class_of :: "bytes \<Rightarrow> command_class option" where
  "class_of m =
     (if m \<in> {''guest-ping'', ''guest-sync'', ''guest-sync-delimited'', ''guest-info''} then Some PingSync
      else if m \<in> {''guest-get-osinfo'', ''guest-get-fsinfo'', ''guest-network-get-interfaces''} then Some Get
      else if m \<in> {''guest-fsfreeze-freeze'', ''guest-fsfreeze-freeze-list''} then Some FsfreezeFreeze
      else if m \<in> {''guest-fsfreeze-status'', ''guest-fsfreeze-thaw''} then Some Unlimited
      else if m = ''guest-fstrim'' then Some Fstrim
      else if m \<in> {''guest-shutdown'', ''guest-suspend-ram''} then Some Shutdown
      else None)"

definition class_name :: "command_class \<Rightarrow> string" where
  "class_name c =
     (case c of
        PingSync \<Rightarrow> ''ping_sync''
      | Get \<Rightarrow> ''get_commands''
      | FsfreezeFreeze \<Rightarrow> ''fsfreeze_freeze''
      | Unlimited \<Rightarrow> ''unlimited''
      | Fstrim \<Rightarrow> ''fstrim''
      | Shutdown \<Rightarrow> ''shutdown'')"

definition quota :: "command_class \<Rightarrow> rate_limits \<Rightarrow> nat option" where
  "quota c l =
     (case c of
        PingSync \<Rightarrow> Some (rl_ping_sync l)
      | Get \<Rightarrow> Some (rl_get_commands l)
      | FsfreezeFreeze \<Rightarrow> Some (rl_fsfreeze_freeze l)
      | Unlimited \<Rightarrow> None
      | Fstrim \<Rightarrow> Some (rl_fstrim l)
      | Shutdown \<Rightarrow> Some (rl_shutdown l))"

text \<open>\<^verbatim>\<open>RateLimited\<close> and its wire error.\<close>

datatype rate_limited = RateLimitedClass command_class

definition rate_limited_text :: "rate_limited \<Rightarrow> string" where
  "rate_limited_text e = (case e of RateLimitedClass c \<Rightarrow> ''rate limit exceeded for '' @ class_name c)"

definition rate_limited_error :: "rate_limited \<Rightarrow> error" where
  "rate_limited_error e = (case e of RateLimitedClass c \<Rightarrow> RateLimited (class_name c))"

section \<open>The limiter\<close>

record 'b bucket_ops =
  bo_new :: "nat \<Rightarrow> 'b"
  bo_check :: "nat \<Rightarrow> 'b \<Rightarrow> 'b \<times> bool"

record 'b limiter =
  lm_ping_sync :: 'b
  lm_get :: 'b
  lm_fsfreeze_freeze :: 'b
  lm_fstrim :: 'b
  lm_shutdown :: 'b

definition new_bucket :: "'b bucket_ops \<Rightarrow> nat \<Rightarrow> 'b" where
  "new_bucket B per_minute = bo_new B (if per_minute = 0 then 1 else per_minute)"

definition new_limiter :: "'b bucket_ops \<Rightarrow> rate_limits \<Rightarrow> 'b limiter" where
  "new_limiter B l =
     \<lparr>lm_ping_sync = new_bucket B (rl_ping_sync l), lm_get = new_bucket B (rl_get_commands l),
      lm_fsfreeze_freeze = new_bucket B (rl_fsfreeze_freeze l), lm_fstrim = new_bucket B (rl_fstrim l),
      lm_shutdown = new_bucket B (rl_shutdown l)\<rparr>"

definition limited_result :: "command_class \<Rightarrow> bool \<Rightarrow> (rate_limited, unit) result" where
  "limited_result c ok = (if ok then Ok () else Err (RateLimitedClass c))"

definition check :: "'b bucket_ops \<Rightarrow> nat \<Rightarrow> command_class \<Rightarrow> 'b limiter \<Rightarrow> 'b limiter \<times> (rate_limited, unit) result" where
  "check B now c l =
     (case c of
        PingSync \<Rightarrow> (let (b, ok) = bo_check B now (lm_ping_sync l) in (l\<lparr>lm_ping_sync := b\<rparr>, limited_result c ok))
      | Get \<Rightarrow> (let (b, ok) = bo_check B now (lm_get l) in (l\<lparr>lm_get := b\<rparr>, limited_result c ok))
      | FsfreezeFreeze \<Rightarrow>
          (let (b, ok) = bo_check B now (lm_fsfreeze_freeze l) in (l\<lparr>lm_fsfreeze_freeze := b\<rparr>, limited_result c ok))
      | Fstrim \<Rightarrow> (let (b, ok) = bo_check B now (lm_fstrim l) in (l\<lparr>lm_fstrim := b\<rparr>, limited_result c ok))
      | Shutdown \<Rightarrow> (let (b, ok) = bo_check B now (lm_shutdown l) in (l\<lparr>lm_shutdown := b\<rparr>, limited_result c ok))
      | Unlimited \<Rightarrow> (l, Ok ()))"

section \<open>Sequences of requests\<close>

fun check_all :: "'b bucket_ops \<Rightarrow> (nat \<times> command_class) list \<Rightarrow> 'b limiter \<Rightarrow> (command_class \<times> bool) list" where
  "check_all B [] l = []"
| "check_all B ((now, c) # es) l =
     (let (l', r) = check B now c l in (c, is_ok r) # check_all B es l')"

text \<open>One bucket alone.\<close>

fun bucket_run :: "'b bucket_ops \<Rightarrow> nat list \<Rightarrow> 'b \<Rightarrow> bool list" where
  "bucket_run B [] b = []"
| "bucket_run B (now # ts) b = (let (b', ok) = bo_check B now b in ok # bucket_run B ts b')"

definition bucket :: "command_class \<Rightarrow> 'b limiter \<Rightarrow> 'b" where
  "bucket c l =
     (case c of
        PingSync \<Rightarrow> lm_ping_sync l
      | Get \<Rightarrow> lm_get l
      | FsfreezeFreeze \<Rightarrow> lm_fsfreeze_freeze l
      | Fstrim \<Rightarrow> lm_fstrim l
      | _ \<Rightarrow> lm_shutdown l)"

lemma check_bucket:
  assumes "check B now c l = (l', r)"
  shows "c \<noteq> Unlimited \<Longrightarrow> bo_check B now (bucket c l) = (bucket c l', is_ok r)"
    and "c = Unlimited \<Longrightarrow> l' = l \<and> is_ok r"
    and "c' \<noteq> c \<Longrightarrow> c' \<noteq> Unlimited \<Longrightarrow> bucket c' l' = bucket c' l"
  using assms
  by (cases c; cases c'; auto simp: check_def bucket_def limited_result_def split: prod.splits if_splits)+

lemma check_all_class:
  assumes "c \<noteq> Unlimited"
  shows "map snd (filter (\<lambda>x. fst x = c) (check_all B es l)) =
    bucket_run B (map fst (filter (\<lambda>e. snd e = c) es)) (bucket c l)"
proof (induction es arbitrary: l)
  case (Cons e es)
  obtain now c' where e: "e = (now, c')" by force
  obtain l' r where ch: "check B now c' l = (l', r)" by force
  show ?case
    using check_bucket [OF ch] check_bucket(3) [OF ch, of c] assms Cons.IH [of l'] e ch by (cases "c' = c") auto
qed simp

lemma check_all_unlimited: "list_all snd (filter (\<lambda>x. fst x = Unlimited) (check_all B es l))"
proof (induction es arbitrary: l)
  case (Cons e es)
  obtain now c where e: "e = (now, c)" by force
  obtain l' r where ch: "check B now c l = (l', r)" by force
  show ?case using check_bucket(2) [OF ch] Cons.IH [of l'] e ch by auto
qed simp

section \<open>Properties\<close>

text \<open>
  The limiter is one independent bucket per class: in any interleaving of requests of all classes,
  the answers to those of one limited class are the answers of its own bucket to those requests alone,
  and requests of the unlimited class (status and thaw) are all let through.
\<close>

theorem buckets_independent:
  "(if c = Unlimited then list_all snd (filter (\<lambda>x. fst x = c) (check_all B es l))
    else map snd (filter (\<lambda>x. fst x = c) (check_all B es l)) =
      bucket_run B (map fst (filter (\<lambda>e. snd e = c) es)) (bucket c l))"
  by (simp add: check_all_class check_all_unlimited)

end
