(* ===== verification/AuditRecord.thy ===== *)
theory AuditRecord
  imports Proto State
begin

text \<open>
  The records of \<^verbatim>\<open>src/audit.rs\<close>: the projection of a method name, the per-command record with the event
  it is emitted as, and the timestamps. The SHA-256 digest is a parameter.

  Shown: a recorded method name is bounded and still text.
\<close>

section \<open>Method names\<close>

definition MAX_METHOD_BYTES :: nat where
  "MAX_METHOD_BYTES = 64"

datatype method_field =
    FullMethod bytes
  | ProjectedMethod bytes nat string

text \<open>\<^verbatim>\<open>str::is_char_boundary\<close>: not before a continuation byte.\<close>

definition is_continuation :: "byte \<Rightarrow> bool" where
  "is_continuation b \<longleftrightarrow> 0x80 \<le> (of_char b :: nat) \<and> (of_char b :: nat) \<le> 0xBF"

definition is_char_boundary :: "bytes \<Rightarrow> nat \<Rightarrow> bool" where
  "is_char_boundary s i \<longleftrightarrow> i = 0 \<or> i = length s \<or> i < length s \<and> \<not> is_continuation (s ! i)"

fun char_cut :: "bytes \<Rightarrow> nat \<Rightarrow> nat" where
  "char_cut s 0 = 0"
| "char_cut s (Suc i) = (if is_char_boundary s (Suc i) then Suc i else char_cut s i)"

definition hex_text :: "bytes \<Rightarrow> string" where
  "hex_text bs = concat (map (\<lambda>b. hex_octet (of_char b)) bs)"

definition project_method :: "(bytes \<Rightarrow> bytes) \<Rightarrow> bytes \<Rightarrow> method_field" where
  "project_method sha256 m =
     (if length m \<le> MAX_METHOD_BYTES then FullMethod m
      else ProjectedMethod (take (char_cut m MAX_METHOD_BYTES) m) (length m) (hex_text (sha256 m)))"

section \<open>Records\<close>

datatype disposition = Allowed | Denied

definition disposition_str :: "disposition \<Rightarrow> string" where
  "disposition_str d = (case d of Allowed \<Rightarrow> ''allowed'' | Denied \<Rightarrow> ''denied'')"

record audit_record =
  ar_method :: method_field
  ar_id :: "int option"
  ar_disposition :: disposition
  ar_reason :: "string option"
  ar_freeze_state_before :: string

datatype event_level = LevelInfo | LevelWarn

definition EVENT_COMMAND_RECEIVED :: string where
  "EVENT_COMMAND_RECEIVED = ''command_received''"

definition EVENT_AUDIT_RECORDS_LOST :: string where
  "EVENT_AUDIT_RECORDS_LOST = ''audit_records_lost''"

definition method_fields :: "method_field \<Rightarrow> (string \<times> json) list" where
  "method_fields m =
     (case m of
        FullMethod s \<Rightarrow> [(''method'', JString s)]
      | ProjectedMethod p n d \<Rightarrow>
          [(''method_prefix'', JString p), (''method_len_bytes'', json_nat n), (''method_digest'', JString d)])"

text \<open>The \<^verbatim>\<open>tracing\<close> event of a record: its level and its fields, absent ones left out.\<close>

definition emit :: "audit_record \<Rightarrow> event_level \<times> (string \<times> json) list" where
  "emit r =
     (case ar_disposition r of Allowed \<Rightarrow> LevelInfo | Denied \<Rightarrow> LevelWarn,
      [(''event'', JString EVENT_COMMAND_RECEIVED)] @ method_fields (ar_method r) @
      (case ar_id r of Some i \<Rightarrow> [(''id'', json_int i)] | None \<Rightarrow> []) @
      [(''disposition'', JString (disposition_str (ar_disposition r)))] @
      (case ar_reason r of Some s \<Rightarrow> [(''reason'', JString s)] | None \<Rightarrow> []) @
      [(''freeze_state_before'', JString (ar_freeze_state_before r))])"

section \<open>Timestamps\<close>

definition civil_from_days :: "nat \<Rightarrow> nat \<times> nat \<times> nat" where
  "civil_from_days days =
     (let z = days + 719468;
          era = z div 146097;
          doe = z - era * 146097;
          yoe = (doe - doe div 1460 + doe div 36524 - doe div 146096) div 365;
          y = yoe + era * 400;
          doy = doe - (365 * yoe + yoe div 4 - yoe div 100);
          mp = (5 * doy + 2) div 153;
          d = doy - (153 * mp + 2) div 5 + 1;
          m = (if mp < 10 then mp + 3 else mp - 9);
          y = (if m \<le> 2 then y + 1 else y)
      in (y, m, d))"

definition pad :: "nat \<Rightarrow> nat \<Rightarrow> string" where
  "pad w n = replicate (w - length (show_nat n)) (CHR ''0'') @ show_nat n"

text \<open>\<^verbatim>\<open>format_utc\<close> of a time \<open>secs\<close> and \<open>millis\<close> after the epoch (0 for one before it).\<close>

definition format_utc :: "nat \<Rightarrow> nat \<Rightarrow> string" where
  "format_utc secs millis =
     (let (year, month, day) = civil_from_days (secs div 86400); sod = secs mod 86400
      in pad 4 year @ ''-'' @ pad 2 month @ ''-'' @ pad 2 day @ ''T'' @ pad 2 (sod div 3600) @ '':'' @
         pad 2 (sod mod 3600 div 60) @ '':'' @ pad 2 (sod mod 60) @ ''.'' @ pad 3 millis @ ''Z'')"

section \<open>Character boundaries\<close>

lemma lead_not_continuation: "utf8_lead (of_char b) = Some t \<Longrightarrow> \<not> is_continuation b"
  by (auto simp: utf8_lead_def is_continuation_def split: if_splits)

lemma utf8_lead_bounds: "utf8_lead w = Some (k, lo, hi) \<Longrightarrow> k \<le> 3 \<and> 0x80 \<le> lo \<and> hi \<le> 0xBF"
  by (auto simp: utf8_lead_def split: if_splits)

lemma utf8_run_take:
  "utf8_run k lo hi s \<Longrightarrow> 0x80 \<le> lo \<Longrightarrow> hi \<le> 0xBF \<Longrightarrow> i < length s \<Longrightarrow> \<not> is_continuation (s ! i) \<Longrightarrow>
    utf8_run k lo hi (take i s)"
proof (induction k lo hi s arbitrary: i rule: utf8_run.induct)
  case (2 lo hi b bs)
  then show ?case
  proof (cases i)
    case (Suc j)
    then show ?thesis
      using 2 utf8_lead_bounds [of "of_char b"] by (auto split: option.splits)
  qed simp
next
  case (3 k lo hi b bs)
  then show ?case by (cases i) (auto simp: is_continuation_def)
qed simp

lemma utf8_run_boundary: "utf8_run k lo hi s \<Longrightarrow> k < length s \<Longrightarrow> \<not> is_continuation (s ! k)"
proof (induction k lo hi s rule: utf8_run.induct)
  case (2 lo hi b bs)
  then show ?case using lead_not_continuation [of b] by (auto split: option.splits)
qed auto

lemma utf8_run_window:
  "utf8_run k lo hi s \<Longrightarrow> k \<le> 3 \<Longrightarrow> i + 3 < length s \<Longrightarrow> \<exists>j. i \<le> j \<and> j \<le> i + 3 \<and> \<not> is_continuation (s ! j)"
proof (induction i arbitrary: k lo hi s)
  case 0
  then show ?case using utf8_run_boundary [OF "0.prems"(1)] by (intro exI [of _ k]) auto
next
  case (Suc i)
  obtain b bs where s: "s = b # bs" using Suc.prems(3) by (cases s) auto
  have "\<exists>k lo hi. k \<le> 3 \<and> utf8_run k lo hi bs"
  proof (cases k)
    case 0
    then show ?thesis
      using Suc.prems(1) utf8_lead_bounds [of "of_char b"] unfolding s by (auto split: option.splits)
  next
    case (Suc k')
    then have "utf8_run k' 0x80 0xBF bs" "k' \<le> 3" using Suc.prems(1,2) s by simp_all
    then show ?thesis by blast
  qed
  then obtain k' lo' hi' where "k' \<le> 3" "utf8_run k' lo' hi' bs" by blast
  moreover have "i + 3 < length bs" using Suc.prems(3) s by simp
  ultimately obtain j where "i \<le> j" "j \<le> i + 3" "\<not> is_continuation (bs ! j)" using Suc.IH by blast
  then show ?case using s by (intro exI [of _ "Suc j"]) auto
qed

lemma char_cut_le: "char_cut s i \<le> i"
  by (induction i) auto

lemma char_cut_boundary: "is_char_boundary s (char_cut s i)"
  by (induction i) (auto simp: is_char_boundary_def)

lemma char_cut_max: "is_char_boundary s j \<Longrightarrow> j \<le> i \<Longrightarrow> j \<le> char_cut s i"
  by (induction i) (auto simp: le_Suc_eq)

section \<open>Properties\<close>

text \<open>
  A recorded method name is bounded: a name of at most 64 bytes is recorded as it is; of a longer
  one the record keeps a prefix that is still valid text and cuts at most the last three of 64 bytes,
  with the length of the whole.
\<close>

theorem project_method_bounded:
  assumes "utf8_valid m"
  shows "case project_method sha256 m of
      FullMethod s \<Rightarrow> s = m \<and> length s \<le> 64
    | ProjectedMethod p n digest \<Rightarrow> p = take (length p) m \<and> 61 \<le> length p \<and> length p \<le> 64 \<and> utf8_valid p \<and>
        n = length m \<and> 64 < n"
proof (cases "length m \<le> MAX_METHOD_BYTES")
  case False
  let ?c = "char_cut m MAX_METHOD_BYTES"
  have c: "?c \<le> 64" "?c < length m" using False char_cut_le [of m MAX_METHOD_BYTES] by (simp_all add: MAX_METHOD_BYTES_def)
  obtain j where "61 \<le> j" "j \<le> 64" "\<not> is_continuation (m ! j)"
    using utf8_run_window [of 0 "0x80" "0xBF" m 61] assms False by (auto simp: utf8_valid_def MAX_METHOD_BYTES_def)
  then have "61 \<le> ?c"
    using char_cut_max [of m j MAX_METHOD_BYTES] False by (auto simp: is_char_boundary_def MAX_METHOD_BYTES_def)
  moreover from this have "\<not> is_continuation (m ! ?c)"
    using char_cut_boundary [of m MAX_METHOD_BYTES] c by (auto simp: is_char_boundary_def)
  then have "utf8_valid (take ?c m)"
    using utf8_run_take [of 0 "0x80" "0xBF" m ?c] assms c by (simp add: utf8_valid_def)
  ultimately show ?thesis using False c by (simp add: project_method_def MAX_METHOD_BYTES_def min_absorb2)
qed (simp add: project_method_def MAX_METHOD_BYTES_def)

section \<open>Witnesses\<close>

theorem project_method_bounded_witness:
  "\<exists>p d. project_method (\<lambda>_. []) (replicate 63 (CHR ''a'') @ [CHR 0xC3, CHR 0xA9]) = ProjectedMethod p 65 d \<and>
     length p = 63 \<and> utf8_valid p"
proof -
  let ?m = "replicate 63 (CHR ''a'') @ [CHR 0xC3, CHR 0xA9]"
  have v: "utf8_valid ?m" by code_simp
  moreover have "project_method (\<lambda>_. []) ?m = ProjectedMethod (replicate 63 (CHR ''a'')) 65 []" by code_simp
  ultimately show ?thesis using project_method_bounded [OF v, of "\<lambda>_. []"] by auto
qed

end
