(* ===== verification/Dispatch.thy ===== *)
theory Dispatch
  imports RateLimit AuditRecord OsInfo Interfaces FsInfo
begin

text \<open>
  \<^verbatim>\<open>src/dispatch.rs\<close>: the allowlist, the gates, and what the dispatcher does with a frame. \<^verbatim>\<open>handle\<close> is split
  where it awaits its handler: \<open>handle_begin\<close> is everything up to the handler's first await (the one
  audit record, the gates, the handler's own synchronous part), \<open>handle_end\<close> encodes the reply once the
  handler's result is there. The sources behind the information handlers, the bucket, the JSON library
  and the blocking tasks' fates are in \<open>dispatch_env\<close>.

  Shown: for which requests the handler is called; that a thaw is never gated; one audit record per frame, and
  a handler run exactly for the frames recorded as allowed; that \<^verbatim>\<open>guest-info\<close> advertises what the gates
  admit.
\<close>

section \<open>Tables\<close>

definition is_allowlisted :: "bytes \<Rightarrow> bool" where
  "is_allowlisted m \<longleftrightarrow>
     m \<in> {''guest-ping'', ''guest-info'', ''guest-sync'', ''guest-sync-delimited'', ''guest-get-osinfo'',
       ''guest-network-get-interfaces'', ''guest-get-fsinfo'', ''guest-fsfreeze-status'', ''guest-fsfreeze-freeze'',
       ''guest-fsfreeze-freeze-list'', ''guest-fsfreeze-thaw'', ''guest-fstrim'', ''guest-shutdown'', ''guest-suspend-ram''}"

definition is_frozen_safe :: "bytes \<Rightarrow> bool" where
  "is_frozen_safe m \<longleftrightarrow>
     m \<in> {''guest-fsfreeze-status'', ''guest-fsfreeze-thaw'', ''guest-ping'', ''guest-sync'', ''guest-sync-delimited'',
       ''guest-info''}"

datatype kind = Control | Thaw | Freeze | Ordinary

definition lane :: "bytes \<Rightarrow> kind" where
  "lane m =
     (if m = ''guest-fsfreeze-thaw'' then Thaw
      else if m \<in> {''guest-fsfreeze-freeze'', ''guest-fsfreeze-freeze-list''} then Freeze
      else if is_frozen_safe m then Control
      else Ordinary)"

definition OVERSIZED_FRAME :: string where "OVERSIZED_FRAME = ''oversized_frame''"

definition PARSE_ERROR :: string where "PARSE_ERROR = ''parse_error''"

definition COMMAND_NOT_FOUND :: string where "COMMAND_NOT_FOUND = ''command_not_found''"

definition DISABLED :: string where "DISABLED = ''disabled''"

definition RATE_LIMITED :: string where "RATE_LIMITED = ''rate_limited''"

definition FROZEN :: string where "FROZEN = ''frozen''"

section \<open>The dispatcher\<close>

record ('k, 'd, 'b, 's) dispatch_env =
  de_freeze :: "('k, 'd) freeze_env"
  de_config :: config
  de_build :: build
  de_version :: string
  de_reader :: json_reader
  de_ser :: "json \<Rightarrow> bytes"
  de_sha256 :: "bytes \<Rightarrow> bytes"
  de_bucket :: "'b bucket_ops"
  de_suspend :: "'s suspend_ops"

record ('k, 'd, 'b, 's) agent =
  ag_ctx :: "('k, 'd) ctx"
  ag_limiter :: "'b limiter"
  ag_handler_calls :: nat
  ag_log :: "audit_record list"
  ag_slots :: nat
  ag_suspend :: 's

text \<open>What the outside answers while one frame is handled.\<close>

record answers =
  an_now :: nat
  an_op :: nat
  an_osinfo :: os_info_source
  an_interfaces :: "(error, raw_addr list) result"
  an_mounts :: "(error, mount_entry list) result"
  an_fate :: fate

definition runtime_feature_gate :: "build \<Rightarrow> config \<Rightarrow> bytes \<Rightarrow> (error, unit) result" where
  "runtime_feature_gate b c m =
     (if m = ''guest-fstrim'' \<and> \<not> fstrim_enabled c then Err (Disabled m)
      else if m = ''guest-suspend-ram'' \<and> \<not> suspend_ram_enabled b c then Err (Disabled m)
      else if m = ''guest-shutdown'' \<and> \<not> shutdown_enabled c then Err (Disabled m)
      else if m \<in> {''guest-get-osinfo'', ''guest-network-get-interfaces'', ''guest-get-fsinfo''} \<and> \<not> information_enabled c
      then Err (Disabled m)
      else Ok ())"

definition gates :: "('k, 'd, 'b, 's) dispatch_env \<Rightarrow> nat \<Rightarrow> request \<Rightarrow> ('k, 'd, 'b, 's) agent
    \<Rightarrow> ('k, 'd, 'b, 's) agent \<times> (string \<times> error, unit) result" where
  "gates D now rq a =
     (let m = rq_method rq in
      if \<not> is_allowlisted m then (a, Err (COMMAND_NOT_FOUND, CommandNotFound m))
      else case runtime_feature_gate (de_build D) (de_config D) m of
        Err e \<Rightarrow> (a, Err (DISABLED, e))
      | Ok _ \<Rightarrow>
          (let c = (case class_of m of Some c \<Rightarrow> c | None \<Rightarrow> Shutdown);
               (l, r) = check (de_bucket D) now c (ag_limiter a);
               a = a\<lparr>ag_limiter := l\<rparr>
           in case r of
                Err e \<Rightarrow> (a, Err (RATE_LIMITED, rate_limited_error e))
              | Ok _ \<Rightarrow>
                  if is_frozen_for_gate (current_state (cx_state (ag_ctx a))) \<and> \<not> is_frozen_safe m
                  then (a, Err (FROZEN, FrozenError))
                  else (a, Ok ())))"

text \<open>A handler's run: finished, or waiting for its operation, its thaw or its walk.\<close>

datatype ('k, 'd) run =
    Finished "(error, json) result"
  | FreezeRuns "('k, 'd) op_state"
  | ThawRuns thaw_admission
  | WalkRuns

definition with_ctx :: "('k, 'd) ctx \<Rightarrow> ('k, 'd, 'b, 's) agent \<Rightarrow> ('k, 'd, 'b, 's) agent" where
  "with_ctx cx a = a\<lparr>ag_ctx := cx\<rparr>"

definition freeze_run :: "('k, 'd) ctx \<times> (error, ('k, 'd) op_state) result \<Rightarrow> ('k, 'd, 'b, 's) agent
    \<Rightarrow> ('k, 'd, 'b, 's) agent \<times> ('k, 'd) run" where
  "freeze_run x a =
     (with_ctx (fst x) a, case snd x of Err e \<Rightarrow> Finished (Err e) | Ok s \<Rightarrow> FreezeRuns s)"

definition thaw_run :: "request \<Rightarrow> ('k, 'd, 'b, 's) agent \<Rightarrow> ('k, 'd, 'b, 's) agent \<times> ('k, 'd) run" where
  "thaw_run rq a =
     (case arguments no_args rq of
        Err e \<Rightarrow> (a, Finished (Err e))
      | Ok _ \<Rightarrow> (let (cx, t) = thaw_claim (ag_ctx a) in (with_ctx cx a, ThawRuns t)))"

definition kernel_run :: "('k \<Rightarrow> 'k \<times> (error, json) result) \<Rightarrow> ('k, 'd, 'b, 's) agent
    \<Rightarrow> ('k, 'd, 'b, 's) agent \<times> ('k, 'd) run" where
  "kernel_run f a =
     (let (k, r) = f (cx_kernel (ag_ctx a)) in (with_ctx ((ag_ctx a)\<lparr>cx_kernel := k\<rparr>) a, Finished r))"

definition run_handler :: "('k, 'd, 'b, 's) dispatch_env \<Rightarrow> answers \<Rightarrow> request \<Rightarrow> ('k, 'd, 'b, 's) agent
    \<Rightarrow> ('k, 'd, 'b, 's) agent \<times> ('k, 'd) run" where
  "run_handler D an rq a0 =
     (let a = a0\<lparr>ag_handler_calls := (ag_handler_calls a0 + 1) mod (U64_MAX + 1)\<rparr>; m = rq_method rq in
      if m = ''guest-ping'' then (a, Finished (ping rq))
      else if m = ''guest-info'' then (a, Finished (info (de_version D) (de_build D) (de_config D) rq))
      else if m = ''guest-sync'' then (a, Finished (sync rq))
      else if m = ''guest-sync-delimited'' then (a, Finished (sync_delimited rq))
      else if m = ''guest-get-osinfo'' then (a, Finished (osinfo (an_osinfo an) rq))
      else if m = ''guest-network-get-interfaces'' then (a, Finished (interfaces (de_ser D) (an_interfaces an) rq))
      else if m = ''guest-get-fsinfo'' then
        (let (s, r) = fsinfo_begin rq (ag_slots a)
         in (a\<lparr>ag_slots := s\<rparr>, case r of Err e \<Rightarrow> Finished (Err e) | Ok _ \<Rightarrow> WalkRuns))
      else if m = ''guest-fsfreeze-status'' then
        (let (cx, r) = status rq (ag_ctx a) in (with_ctx cx a, Finished r))
      else if m = ''guest-fsfreeze-freeze'' then freeze_run (freeze (an_op an) rq (ag_ctx a)) a
      else if m = ''guest-fsfreeze-freeze-list'' then freeze_run (freeze_list (an_op an) rq (ag_ctx a)) a
      else if m = ''guest-fsfreeze-thaw'' then thaw_run rq a
      else if m = ''guest-fstrim'' then kernel_run (fstrim (de_freeze D) (an_mounts an) (an_fate an) rq) a
      else if m = ''guest-shutdown'' then kernel_run (shutdown (de_freeze D) (an_fate an) rq) a
      else if m = ''guest-suspend-ram'' then
        if bd_suspend_ram (de_build D) then
          (let (s, r) = suspend (de_suspend D) (an_fate an) rq (ag_suspend a) in (a\<lparr>ag_suspend := s\<rparr>, Finished r))
        else (a, Finished (Err (Disabled m)))
      else (a, Finished (Err (CommandNotFound m))))"

section \<open>Frames\<close>

definition write_audit :: "audit_record \<Rightarrow> ('k, 'd, 'b, 's) agent \<Rightarrow> ('k, 'd, 'b, 's) agent" where
  "write_audit r a = a\<lparr>ag_log := ag_log a @ [r]\<rparr>"

definition denied :: "('k, 'd, 'b, 's) dispatch_env \<Rightarrow> string \<Rightarrow> bytes \<Rightarrow> int option \<Rightarrow> string \<Rightarrow> audit_record" where
  "denied D before m idn reason =
     \<lparr>ar_method = project_method (de_sha256 D) m, ar_id = idn, ar_disposition = Denied, ar_reason = Some reason,
      ar_freeze_state_before = before\<rparr>"

definition allowed :: "('k, 'd, 'b, 's) dispatch_env \<Rightarrow> string \<Rightarrow> request \<Rightarrow> audit_record" where
  "allowed D before rq =
     \<lparr>ar_method = project_method (de_sha256 D) (rq_method rq), ar_id = rq_id rq, ar_disposition = Allowed,
      ar_reason = None, ar_freeze_state_before = before\<rparr>"

datatype ('k, 'd) handled =
    NoReply
  | ParseFailed bytes
  | Handling request "('k, 'd) run"

definition handle_begin :: "('k, 'd, 'b, 's) dispatch_env \<Rightarrow> answers \<Rightarrow> decode_event \<Rightarrow> ('k, 'd, 'b, 's) agent
    \<Rightarrow> ('k, 'd, 'b, 's) agent \<times> ('k, 'd) handled" where
  "handle_begin D an ev a =
     (let before = freeze_state_str (current_state (cx_state (ag_ctx a))) in
      case ev of
        Oversized n \<Rightarrow> (write_audit (denied D before '''' None OVERSIZED_FRAME) a, NoReply)
      | Frame bs s \<Rightarrow>
          (case parse_request (de_reader D) bs of
             Err e \<Rightarrow>
               (write_audit (denied D before '''' None PARSE_ERROR) a,
                ParseFailed (encode (to_json (de_ser D) (response_error None e)) False))
           | Ok rq \<Rightarrow>
               (let (a, g) = gates D (an_now an) rq a in
                case g of
                  Ok _ \<Rightarrow>
                    (let (a, r) = run_handler D an rq (write_audit (allowed D before rq) a) in (a, Handling rq r))
                | Err (reason, e) \<Rightarrow>
                    (write_audit (denied D before (rq_method rq) (rq_id rq) reason) a, Handling rq (Finished (Err e))))))"

definition handle_end :: "(json \<Rightarrow> bytes) \<Rightarrow> request \<Rightarrow> (error, json) result \<Rightarrow> bytes option" where
  "handle_end ser rq r =
     (let suppress = (case spec (rq_method rq) of Some s \<Rightarrow> \<not> cs_success_response s | None \<Rightarrow> False) in
      if is_ok r \<and> suppress then None
      else Some (encode (to_json ser (response_from_result (rq_id rq) r)) (rq_method rq = ''guest-sync-delimited'')))"

definition classify :: "json_reader \<Rightarrow> decode_event \<Rightarrow> kind" where
  "classify rd ev =
     (case ev of
        Oversized _ \<Rightarrow> Control
      | Frame bs _ \<Rightarrow> (case parse_request rd bs of Ok rq \<Rightarrow> lane (rq_method rq) | Err _ \<Rightarrow> Control))"

definition new_dispatcher :: "('k, 'd, 'b, 's) dispatch_env \<Rightarrow> ('k, 'd) ctx \<Rightarrow> 's \<Rightarrow> ('k, 'd, 'b, 's) agent" where
  "new_dispatcher D cx s =
     \<lparr>ag_ctx = cx, ag_limiter = new_limiter (de_bucket D) (cf_rate_limits (de_config D)), ag_handler_calls = 0,
      ag_log = [], ag_slots = MAX_FSINFO_WALKS, ag_suspend = s\<rparr>"

section \<open>Lemmas\<close>

lemmas run_defs = freeze_run_def thaw_run_def kernel_run_def with_ctx_def

lemma run_handler_frame [frame_simps]:
  "ag_log (fst (run_handler D an rq a)) = ag_log a"
  "ag_limiter (fst (run_handler D an rq a)) = ag_limiter a"
  "ag_handler_calls (fst (run_handler D an rq a)) = (ag_handler_calls a + 1) mod (U64_MAX + 1)"
  by (simp_all add: run_handler_def run_defs Let_def split: prod.splits sum.splits)

lemma gates_frame:
  assumes "gates D now rq a = (a', g)"
  shows "\<exists>l. a' = a\<lparr>ag_limiter := l\<rparr>"
proof -
  have "a' = a \<or> (\<exists>l. a' = a\<lparr>ag_limiter := l\<rparr>)"
    using assms by (auto simp: gates_def Let_def split: if_splits sum.splits prod.splits)
  moreover have "a = a\<lparr>ag_limiter := ag_limiter a\<rparr>" by simp
  ultimately show ?thesis by metis
qed

lemma write_audit_frame [frame_simps]:
  "ag_log (write_audit r a) = ag_log a @ [r]" "ag_handler_calls (write_audit r a) = ag_handler_calls a"
  "ag_limiter (write_audit r a) = ag_limiter a" "ag_ctx (write_audit r a) = ag_ctx a"
  by (simp_all add: write_audit_def)

lemma feature_gate_enabled: "is_ok (runtime_feature_gate b c m) \<longleftrightarrow> is_enabled b c m"
  by (auto simp: runtime_feature_gate_def is_enabled_def)

lemma allowlisted_class: "is_allowlisted m \<Longrightarrow> \<exists>c. class_of m = Some c"
  by (auto simp: is_allowlisted_def class_of_def)

text \<open>The verdict of the gates in the order in which they refuse.\<close>

lemma gates_result:
  "snd (gates D now rq a) =
     (if \<not> is_allowlisted (rq_method rq) then Err (COMMAND_NOT_FOUND, CommandNotFound (rq_method rq))
      else if \<not> is_enabled (de_build D) (de_config D) (rq_method rq) then Err (DISABLED, Disabled (rq_method rq))
      else case snd (check (de_bucket D) now (the (class_of (rq_method rq))) (ag_limiter a)) of
        Err e \<Rightarrow> Err (RATE_LIMITED, rate_limited_error e)
      | Ok _ \<Rightarrow> if fsm_state (cx_state (ag_ctx a)) \<noteq> Thawed \<and> \<not> is_frozen_safe (rq_method rq) then Err (FROZEN, FrozenError)
          else Ok ())"
proof (cases "is_allowlisted (rq_method rq) \<and> is_enabled (de_build D) (de_config D) (rq_method rq)")
  case True
  then obtain c where c: "class_of (rq_method rq) = Some c" using allowlisted_class by blast
  obtain u where "runtime_feature_gate (de_build D) (de_config D) (rq_method rq) = Ok u"
    using True feature_gate_enabled by (metis is_ok_simps(2) sum.exhaust)
  moreover obtain l r where "check (de_bucket D) now c (ag_limiter a) = (l, r)" by force
  ultimately show ?thesis
    using True c by (cases r) (auto simp: gates_def Let_def is_frozen_for_gate_def current_state_def)
next
  case False
  have "runtime_feature_gate (de_build D) (de_config D) (rq_method rq) = Err (Disabled (rq_method rq))"
    if "\<not> is_enabled (de_build D) (de_config D) (rq_method rq)"
    using that feature_gate_enabled [of "de_build D" "de_config D" "rq_method rq"]
    by (auto simp: runtime_feature_gate_def split: if_splits)
  then show ?thesis using False by (auto simp: gates_def Let_def)
qed

lemma gates_unlimited:
  assumes "rq_method rq \<in> {''guest-fsfreeze-thaw'', ''guest-fsfreeze-status''}"
  shows "gates D now rq a = (a, Ok ())"
  using assms
  by (auto simp: gates_def is_allowlisted_def runtime_feature_gate_def class_of_def check_def is_frozen_safe_def)

section \<open>Properties\<close>

text \<open>
  C23. The gates stand before the handler: a parsed request has its handler called, once, exactly when its
  method is allowlisted and not switched off, its class's bucket has a token, and nothing may be frozen or
  the method is one of the six that are safe then; and the handler finds the agent as the frame found it, the
  log and the buckets apart. Any other request is answered with the error of the first gate that refuses
  it, and the context, the walks and the suspend state are as they were.
\<close>

theorem gates_admit:
  assumes "parse_request (de_reader D) bs = Ok rq"
  shows "let m = rq_method rq; a' = fst (handle_begin D an (Frame bs s) a); h = snd (handle_begin D an (Frame bs s) a);
      quota = snd (check (de_bucket D) (an_now an) (the (class_of m)) (ag_limiter a)) in
    if is_allowlisted m \<and> is_enabled (de_build D) (de_config D) m \<and> is_ok quota \<and>
       (fsm_state (cx_state (ag_ctx a)) = Thawed \<or> is_frozen_safe m)
    then ag_handler_calls a' = (ag_handler_calls a + 1) mod (U64_MAX + 1) \<and>
      (\<exists>r l. h = Handling rq (snd (run_handler D an rq (a\<lparr>ag_log := ag_log a @ [r], ag_limiter := l\<rparr>))))
    else ag_handler_calls a' = ag_handler_calls a \<and> ag_ctx a' = ag_ctx a \<and> ag_slots a' = ag_slots a \<and>
      ag_suspend a' = ag_suspend a \<and>
      h = Handling rq (Finished (Err
        (if \<not> is_allowlisted m then CommandNotFound m
         else if \<not> is_enabled (de_build D) (de_config D) m then Disabled m
         else case quota of Err e \<Rightarrow> rate_limited_error e | Ok _ \<Rightarrow> FrozenError)))"
proof -
  let ?m = "rq_method rq"
  let ?before = "freeze_state_str (current_state (cx_state (ag_ctx a)))"
  let ?quota = "snd (check (de_bucket D) (an_now an) (the (class_of ?m)) (ag_limiter a))"
  obtain a0 g where g: "gates D (an_now an) rq a = (a0, g)" by force
  obtain l where a0: "a0 = a\<lparr>ag_limiter := l\<rparr>" using gates_frame [OF g] by blast
  have v: "g = snd (gates D (an_now an) rq a)" by (simp add: g)
  show ?thesis
  proof (cases g)
    case (Inl re)
    have hb: "handle_begin D an (Frame bs s) a =
        (write_audit (denied D ?before ?m (rq_id rq) (fst re)) a0, Handling rq (Finished (Err (snd re))))"
      using assms g Inl by (simp add: handle_begin_def Let_def split: prod.splits)
    show ?thesis
      using v Inl unfolding Let_def hb
      by (cases ?quota) (auto simp: gates_result a0 write_audit_def split: if_splits)
  next
    case (Inr u)
    let ?a = "a\<lparr>ag_log := ag_log a @ [allowed D ?before rq], ag_limiter := l\<rparr>"
    have "write_audit (allowed D ?before rq) a0 = ?a" by (simp add: write_audit_def a0)
    then have hb: "handle_begin D an (Frame bs s) a = (fst (run_handler D an rq ?a), Handling rq (snd (run_handler D an rq ?a)))"
      using assms g Inr by (simp add: handle_begin_def Let_def split: prod.splits)
    have calls: "ag_handler_calls (fst (run_handler D an rq ?a)) = (ag_handler_calls a + 1) mod (U64_MAX + 1)"
      by (simp add: frame_simps)
    have "is_allowlisted ?m \<and> is_enabled (de_build D) (de_config D) ?m \<and> is_ok ?quota \<and>
        (fsm_state (cx_state (ag_ctx a)) = Thawed \<or> is_frozen_safe ?m)"
      using v Inr by (cases ?quota) (auto simp: gates_result split: if_splits)
    then show ?thesis unfolding Let_def hb fst_conv snd_conv calls by (simp only: if_True simp_thms) blast
  qed
qed

text \<open>
  C22. A thaw is never gated: whatever the configuration, the limiter's buckets and the freeze state, a
  well-formed thaw request reaches its handler and takes no token. In \<^verbatim>\<open>Thawed\<close> and in \<^verbatim>\<open>Frozen\<close> it claims
  the thaw; in \<^verbatim>\<open>Freezing\<close> and \<^verbatim>\<open>Thawing\<close> it joins the registered freeze operation; when none is registered, the
  state being held by another thaw, it claims a second time, which succeeds exactly when the state has become
  \<^verbatim>\<open>Thawed\<close> or \<^verbatim>\<open>Frozen\<close> by then and is answered with an error otherwise.
\<close>

theorem thaw_never_gated:
  assumes "parse_request (de_reader D) bs = Ok rq" and "rq_method rq = ''guest-fsfreeze-thaw''"
    and "arguments no_args rq = Ok ()"
  shows "\<exists>t. snd (handle_begin D an (Frame bs s) a) = Handling rq (ThawRuns t) \<and>
    ag_limiter (fst (handle_begin D an (Frame bs s) a)) = ag_limiter a \<and>
    (if fsm_state (cx_state (ag_ctx a)) \<in> {Thawed, Frozen}
     then t = ThawClaimed \<lparr>tt_origin = fsm_state (cx_state (ag_ctx a))\<rparr> \<and>
       fsm_state (cx_state (ag_ctx (fst (handle_begin D an (Frame bs s) a)))) = Thawing
     else ag_ctx (fst (handle_begin D an (Frame bs s) a)) = ag_ctx a \<and>
       (case cx_freeze_op (ag_ctx a) of
          Some i \<Rightarrow> t = ThawJoins i
        | None \<Rightarrow> \<exists>e. t = ThawRetry e \<and>
            (\<forall>cx. is_ok (snd (thaw_retry e cx)) \<longleftrightarrow> fsm_state (cx_state (cx :: ('k, 'd) ctx)) \<in> {Thawed, Frozen})))"
proof -
  have hb: "snd (handle_begin D an (Frame bs s) a) = Handling rq (ThawRuns (snd (thaw_claim (ag_ctx a))))"
    "ag_limiter (fst (handle_begin D an (Frame bs s) a)) = ag_limiter a"
    "ag_ctx (fst (handle_begin D an (Frame bs s) a)) = fst (thaw_claim (ag_ctx a))"
    using assms gates_unlimited [of rq D "an_now an" a]
    by (simp_all add: handle_begin_def Let_def run_handler_def run_defs write_audit_def split: prod.splits)
  have retry: "is_ok (snd (thaw_retry e cx)) \<longleftrightarrow> fsm_state (cx_state cx) \<in> {Thawed, Frozen}" for e and cx :: "('k, 'd) ctx"
    by (cases "fsm_state (cx_state cx)") (simp_all add: thaw_retry_def claim_thaw_def)
  show ?thesis
    using hb retry
    by (cases "fsm_state (cx_state (ag_ctx a))") (auto simp: thaw_claim_def claim_thaw_def split: option.splits)
qed

text \<open>
  C24. Every frame leaves exactly one audit record, with the freeze state found on arrival. It says
  allowed exactly when a handler was called; when it says denied, nothing but the log and the buckets
  changed.
\<close>

theorem one_audit_record:
  "\<exists>r. ag_log (fst (handle_begin D an ev a)) = ag_log a @ [r] \<and>
     ar_freeze_state_before r = freeze_state_str (fsm_state (cx_state (ag_ctx a))) \<and>
     (if ar_disposition r = Allowed
      then ag_handler_calls (fst (handle_begin D an ev a)) = (ag_handler_calls a + 1) mod (U64_MAX + 1)
      else fst (handle_begin D an ev a) =
        a\<lparr>ag_log := ag_log a @ [r], ag_limiter := ag_limiter (fst (handle_begin D an ev a))\<rparr>)"
proof (cases ev)
  case (Oversized n)
  then show ?thesis
    by (simp add: handle_begin_def Let_def frame_simps current_state_def denied_def write_audit_def)
next
  case (Frame bs s)
  show ?thesis
  proof (cases "parse_request (de_reader D) bs")
    case (Inl e)
    then show ?thesis
      using Frame by (simp add: handle_begin_def Let_def frame_simps current_state_def denied_def write_audit_def)
  next
    case (Inr rq)
    obtain a' g where g: "gates D (an_now an) rq a = (a', g)" by force
    obtain l where a': "a' = a\<lparr>ag_limiter := l\<rparr>" using gates_frame [OF g] by blast
    show ?thesis
    proof (cases g)
      case (Inl re)
      then have "fst (handle_begin D an ev a) = write_audit (denied D (freeze_state_str (fsm_state (cx_state (ag_ctx a))))
          (rq_method rq) (rq_id rq) (fst re)) a'"
        using Frame \<open>parse_request (de_reader D) bs = Inr rq\<close> g
        by (simp add: handle_begin_def Let_def current_state_def split: prod.splits)
      then show ?thesis by (simp add: a' write_audit_def denied_def)
    next
      case (Inr u)
      then have "fst (handle_begin D an ev a) = fst (run_handler D an rq
          (write_audit (allowed D (freeze_state_str (fsm_state (cx_state (ag_ctx a)))) rq) a'))"
        using Frame \<open>parse_request (de_reader D) bs = Inr rq\<close> g
        by (simp add: handle_begin_def Let_def current_state_def split: prod.splits)
      then show ?thesis by (simp add: frame_simps a' allowed_def)
    qed
  qed
qed

text \<open>
  What \<^verbatim>\<open>guest-info\<close> advertises is what the dispatcher does: the commands listed are the allowlist,
  each once, and a command is listed as enabled exactly when the feature gate lets it through.
\<close>

theorem advertised_is_admitted:
  "distinct (map ci_name (ai_supported_commands (agent_info_of v b c))) \<and>
   set (map ci_name (ai_supported_commands (agent_info_of v b c))) = {m. is_allowlisted m} \<and>
   list_all (\<lambda>i. ci_enabled i = is_ok (runtime_feature_gate b c (ci_name i))) (ai_supported_commands (agent_info_of v b c))"
proof -
  have names: "map ci_name (ai_supported_commands (agent_info_of v b c)) = map cs_name SUPPORTED_COMMANDS"
    by (simp add: agent_info_of_def)
  have "set (map cs_name SUPPORTED_COMMANDS) = {m. is_allowlisted m}"
    by (auto simp: SUPPORTED_COMMANDS_def answered_def silent_def is_allowlisted_def)
  moreover have "distinct (map cs_name SUPPORTED_COMMANDS)" by code_simp
  ultimately show ?thesis
    unfolding names by (simp add: agent_info_of_def feature_gate_enabled list_all_iff)
qed

section \<open>Witnesses\<close>

text \<open>A parser that reads every frame as a thaw request, and an empty bucket.\<close>

definition thaw_request :: request where
  "thaw_request = \<lparr>rq_method = ''guest-fsfreeze-thaw'', rq_arguments = None, rq_id = Some 1\<rparr>"

definition example_dispatch :: "(fake_inner, (fd \<times> path) set, unit, unit) dispatch_env" where
  "example_dispatch =
     \<lparr>de_freeze = example_env, de_config = default_config, de_build = \<lparr>bd_seccomp = True, bd_suspend_ram = False\<rparr>,
      de_version = ''0.1.0'',
      de_reader = \<lparr>rd_entries = (\<lambda>_. Ok [Entry ''execute'' (Ok (JString ''guest-fsfreeze-thaw'')),
          Entry ''id'' (Ok (JNumber (PosInt 1)))]),
        rd_error = (\<lambda>_ _. \<lparr>se_category = Data, se_line = 1, se_column = 1\<rparr>), rd_end = (\<lambda>_. None)\<rparr>,
      de_ser = (\<lambda>_. []), de_sha256 = (\<lambda>_. []), de_bucket = \<lparr>bo_new = (\<lambda>_. ()), bo_check = (\<lambda>_ _. ((), False))\<rparr>,
      de_suspend = \<lparr>so_supported_states = (\<lambda>_. Ok []), so_enter = (\<lambda>s _. (s, Ok ()))\<rparr>\<rparr>"

definition example_answers :: answers where
  "example_answers =
     \<lparr>an_now = 0, an_op = 1, an_osinfo = \<lparr>os_uname = Err (Internal []), os_os_release = None\<rparr>, an_interfaces = Ok [],
      an_mounts = Ok [], an_fate = Ran\<rparr>"

lemma example_bounds: "check_bounds ''{}'' = Ok ()"
  by (simp add: check_bounds_def utf8_valid_def utf8_lead_def sat_add_def sat_sub_def U64_MAX_def MAX_DEPTH_def)

lemma example_parsed: "parse_request (de_reader example_dispatch) ''{}'' = Ok thaw_request"
  by (simp add: parse_request_def from_slice_def visit_map_def example_dispatch_def thaw_request_def
      as_i64_def I64_MAX_def example_bounds)

lemma example_arguments: "arguments no_args thaw_request = Ok ()"
  by (simp add: arguments_def no_args_def thaw_request_def)

theorem thaw_never_gated_witness:
  "snd (handle_begin example_dispatch example_answers (Frame ''{}'' False)
      (new_dispatcher example_dispatch (example_ctx\<lparr>cx_state := \<lparr>fsm_state = Frozen\<rparr>\<rparr>) ())) =
     Handling thaw_request (ThawRuns (ThawClaimed \<lparr>tt_origin = Frozen\<rparr>))"
proof -
  have m: "rq_method thaw_request = ''guest-fsfreeze-thaw''" by (simp add: thaw_request_def)
  show ?thesis
    using thaw_never_gated [OF example_parsed m example_arguments, of example_answers False
        "new_dispatcher example_dispatch (example_ctx\<lparr>cx_state := \<lparr>fsm_state = Frozen\<rparr>\<rparr>) ()"]
    by (auto simp: new_dispatcher_def)
qed

theorem gates_admit_witness:
  "ag_handler_calls (fst (handle_begin example_dispatch example_answers (Frame ''{}'' False)
      (new_dispatcher example_dispatch example_ctx ()))) = 1"
proof -
  have "is_ok (snd (check (de_bucket example_dispatch) (an_now example_answers) (the (class_of ''guest-fsfreeze-thaw''))
      (ag_limiter (new_dispatcher example_dispatch example_ctx ()))))"
    by (simp add: class_of_def check_def)
  then show ?thesis
    using gates_admit [OF example_parsed, of example_answers False "new_dispatcher example_dispatch example_ctx ()"]
    by (simp add: Let_def thaw_request_def is_allowlisted_def is_enabled_def is_frozen_safe_def new_dispatcher_def U64_MAX_def)
qed

end
