(* ===== verification/Router.thy ===== *)
theory Router
  imports AuditRecord "HOL-Library.Sublist"
begin

text \<open>
  The log router of \<^verbatim>\<open>src/audit.rs\<close>: the freeze-safe ring, the delivery queue with its loss gaps, the
  router's operations and the writer thread.

  The state behind the mutex is the record \<open>router\<close>; every critical section is one function on it. The
  writer thread is a program counter beside that state (\<open>WReady\<close> about to look at the state under the
  lock, \<open>WParked\<close> inside \<^verbatim>\<open>Condvar::wait\<close>, \<open>WWriting\<close> in the sink outside the lock), and a
  \<^verbatim>\<open>notify_all\<close> is a step of its own after the critical section that precedes it, so that a wake-up could
  be lost if the code allowed it. The sink and the spawning of the thread succeed or fail at every step.

  Shown: during a freeze window the sink receives nothing but the write in flight when the window opened;
  the ring and the queue stay within their bounds with at most one gap between two lines; every line is
  delivered, held or counted lost exactly where it was lost; no wake-up is lost; a working sink is given
  everything queued, in order.
\<close>

section \<open>The ring\<close>

definition RING_CAPACITY :: nat where
  "RING_CAPACITY = 64 * 1024"

record line_ring =
  lr_capacity :: nat
  lr_used :: nat
  lr_lines :: "bytes list"
  lr_lost :: nat

definition ring_with_capacity :: "nat \<Rightarrow> line_ring" where
  "ring_with_capacity capacity = \<lparr>lr_capacity = capacity, lr_used = 0, lr_lines = [], lr_lost = 0\<rparr>"

fun ring_evict :: "nat \<Rightarrow> nat \<Rightarrow> nat \<Rightarrow> bytes list \<Rightarrow> nat \<Rightarrow> nat \<times> bytes list \<times> nat" where
  "ring_evict cap need used lines lost =
     (if sat_add used need > cap then
        (case lines of
           old # rest \<Rightarrow> ring_evict cap need (used - length old) rest (sat_add lost 1)
         | [] \<Rightarrow> (used, [], lost))
      else (used, lines, lost))"

declare ring_evict.simps [simp del]

definition ring_push :: "bytes \<Rightarrow> line_ring \<Rightarrow> line_ring" where
  "ring_push line r =
     (if length line > lr_capacity r then r\<lparr>lr_lost := sat_add (lr_lost r) 1\<rparr>
      else let (used, lines, lost) = ring_evict (lr_capacity r) (length line) (lr_used r) (lr_lines r) (lr_lost r)
           in r\<lparr>lr_used := used + length line, lr_lines := lines @ [line], lr_lost := lost\<rparr>)"

definition ring_drain :: "line_ring \<Rightarrow> (nat \<times> bytes list) \<times> line_ring" where
  "ring_drain r = ((lr_lost r, lr_lines r), r\<lparr>lr_lost := 0, lr_used := 0, lr_lines := []\<rparr>)"

section \<open>Losses\<close>

datatype mode = Normal | Ring

definition SINK_QUEUE_CAPACITY :: nat where
  "SINK_QUEUE_CAPACITY = 256 * 1024"

datatype loss_reason = RingOverflow | SinkBackpressure | SinkError

definition loss_reason_str :: "loss_reason \<Rightarrow> string" where
  "loss_reason_str r =
     (case r of RingOverflow \<Rightarrow> ''ring_overflow'' | SinkBackpressure \<Rightarrow> ''sink_backpressure''
              | SinkError \<Rightarrow> ''sink_error'')"

record loss_gap =
  lg_ring_overflow :: nat
  lg_sink_backpressure :: nat
  lg_sink_error :: nat

definition gap_default :: loss_gap where
  "gap_default = \<lparr>lg_ring_overflow = 0, lg_sink_backpressure = 0, lg_sink_error = 0\<rparr>"

definition gap_add :: "nat \<Rightarrow> loss_reason \<Rightarrow> loss_gap \<Rightarrow> loss_gap" where
  "gap_add count reason gap =
     (case reason of
        RingOverflow \<Rightarrow> gap\<lparr>lg_ring_overflow := sat_add (lg_ring_overflow gap) count\<rparr>
      | SinkBackpressure \<Rightarrow> gap\<lparr>lg_sink_backpressure := sat_add (lg_sink_backpressure gap) count\<rparr>
      | SinkError \<Rightarrow> gap\<lparr>lg_sink_error := sat_add (lg_sink_error gap) count\<rparr>)"

definition gap_of :: "nat \<Rightarrow> loss_reason \<Rightarrow> loss_gap" where
  "gap_of count reason = gap_add count reason gap_default"

definition gap_merge :: "loss_gap \<Rightarrow> loss_gap \<Rightarrow> loss_gap" where
  "gap_merge other gap =
     gap_add (lg_sink_error other) SinkError
       (gap_add (lg_sink_backpressure other) SinkBackpressure
         (gap_add (lg_ring_overflow other) RingOverflow gap))"

definition gap_total :: "loss_gap \<Rightarrow> nat" where
  "gap_total gap = sat_add (sat_add (lg_ring_overflow gap) (lg_sink_backpressure gap)) (lg_sink_error gap)"

definition gap_records :: "loss_gap \<Rightarrow> (nat \<times> loss_reason) list" where
  "gap_records gap =
     filter (\<lambda>(count, _). count > 0)
       [(lg_ring_overflow gap, RingOverflow), (lg_sink_backpressure gap, SinkBackpressure),
        (lg_sink_error gap, SinkError)]"

datatype item = Line bytes | Lost loss_gap

text \<open>\<open>to_text\<close> is \<^verbatim>\<open>serde_json::Value::to_string\<close>, \<open>ts\<close> the formatted time.\<close>

definition loss_record :: "(json \<Rightarrow> bytes) \<Rightarrow> string \<Rightarrow> nat \<Rightarrow> loss_reason \<Rightarrow> bytes" where
  "loss_record to_text ts lost reason =
     to_text (JObject
       [(''timestamp'', JString ts), (''level'', JString ''WARN''),
        (''event'', JString EVENT_AUDIT_RECORDS_LOST), (''lost'', json_nat lost),
        (''reason'', JString (loss_reason_str reason))]) @ [NEWLINE]"

definition item_bytes :: "(json \<Rightarrow> bytes) \<Rightarrow> string \<Rightarrow> item \<Rightarrow> bytes" where
  "item_bytes to_text ts it =
     (case it of
        Line line \<Rightarrow> line
      | Lost gap \<Rightarrow> concat (map (\<lambda>(count, reason). loss_record to_text ts count reason) (gap_records gap)))"

section \<open>The state behind the lock\<close>

record router =
  rt_mode :: mode
  rt_ring :: line_ring
  rt_queue :: "item list"
  rt_queued :: nat
  rt_capacity :: nat
  rt_writing :: bool
  rt_in_flight :: "loss_gap option"
  rt_shutdown :: bool
  rt_exited :: bool
  rt_started :: bool
  rt_sink :: bool
  rt_pushes :: nat

definition wrapping_incr :: "nat \<Rightarrow> nat" where
  "wrapping_incr n = (n + 1) mod (U64_MAX + 1)"

definition router_build :: "nat \<Rightarrow> nat \<Rightarrow> router" where
  "router_build ring queue =
     \<lparr>rt_mode = Normal, rt_ring = ring_with_capacity ring, rt_queue = [], rt_queued = 0,
      rt_capacity = queue, rt_writing = False, rt_in_flight = None, rt_shutdown = False,
      rt_exited = False, rt_started = False, rt_sink = True, rt_pushes = 0\<rparr>"

definition router_unstarted :: router where
  "router_unstarted = router_build RING_CAPACITY SINK_QUEUE_CAPACITY"

text \<open>\<^verbatim>\<open>State::lose\<close>: into the gap at the tail, or a new one there.\<close>

definition lose :: "nat \<Rightarrow> loss_reason \<Rightarrow> router \<Rightarrow> router" where
  "lose count reason st =
     st\<lparr>rt_queue :=
          (case rev (rt_queue st) of
             Lost gap # rest \<Rightarrow> rev rest @ [Lost (gap_add count reason gap)]
           | _ \<Rightarrow> rt_queue st @ [Lost (gap_of count reason)]),
        rt_pushes := wrapping_incr (rt_pushes st)\<rparr>"

definition enqueue :: "bytes \<Rightarrow> router \<Rightarrow> router" where
  "enqueue line st =
     (if sat_add (rt_queued st) (length line) > rt_capacity st \<and> rt_queued st > 0
      then lose 1 SinkBackpressure st
      else st\<lparr>rt_queued := sat_add (rt_queued st) (length line),
              rt_queue := rt_queue st @ [Line line],
              rt_pushes := wrapping_incr (rt_pushes st)\<rparr>)"

definition lose_at_front :: "loss_gap \<Rightarrow> router \<Rightarrow> router" where
  "lose_at_front lost st =
     st\<lparr>rt_queue :=
          (case rt_queue st of
             Lost gap # rest \<Rightarrow> Lost (gap_merge lost gap) # rest
           | _ \<Rightarrow> Lost lost # rt_queue st)\<rparr>"

section \<open>The operations of a handle\<close>

definition write_record :: "bytes \<Rightarrow> router \<Rightarrow> router" where
  "write_record buf st =
     (case rt_mode st of
        Ring \<Rightarrow> st\<lparr>rt_ring := ring_push buf (rt_ring st)\<rparr>
      | Normal \<Rightarrow> if rt_exited st \<and> \<not> rt_shutdown st then lose 1 SinkError st else enqueue buf st)"

definition enter_ring :: "router \<Rightarrow> router" where
  "enter_ring st = st\<lparr>rt_mode := Ring\<rparr>"

definition flush_to_normal :: "router \<Rightarrow> nat \<times> router" where
  "flush_to_normal st =
     (let ((lost, lines), ring) = ring_drain (rt_ring st);
          st = st\<lparr>rt_ring := ring\<rparr>;
          st = (if lost > 0 then lose lost RingOverflow st else st);
          st = fold enqueue lines st
      in (lost, st\<lparr>rt_mode := Normal\<rparr>))"

definition item_losses :: "item \<Rightarrow> nat" where
  "item_losses it = (case it of Lost gap \<Rightarrow> gap_total gap | Line _ \<Rightarrow> 0)"

definition unreported_losses :: "router \<Rightarrow> nat" where
  "unreported_losses st =
     sum_list (map item_losses (rt_queue st)) +
     (case rt_in_flight st of None \<Rightarrow> 0 | Some gap \<Rightarrow> gap_total gap)"

definition queued_items :: "router \<Rightarrow> nat" where
  "queued_items st = length (rt_queue st) + (if rt_writing st then 1 else 0)"

text \<open>The test of \<^verbatim>\<open>settle\<close>: nothing left to wait for.\<close>

definition router_settled :: "router \<Rightarrow> bool" where
  "router_settled st \<longleftrightarrow> rt_exited st \<or> \<not> rt_started st \<or> rt_mode st = Ring \<or> rt_queue st = [] \<and> \<not> rt_writing st"

text \<open>
  \<^verbatim>\<open>start_writer\<close>: its first critical section, whose result says whether a thread is to be spawned, and the
  one after a failed spawn.
\<close>

definition start_writer :: "router \<Rightarrow> bool \<times> router" where
  "start_writer st =
     (if rt_started st then (False, st) else (rt_sink st, st\<lparr>rt_started := True, rt_sink := False\<rparr>))"

definition spawn_failed :: "router \<Rightarrow> router" where
  "spawn_failed st = st\<lparr>rt_exited := True\<rparr>"

text \<open>\<^verbatim>\<open>Alive::drop\<close>, before its bounded wait.\<close>

definition alive_drop :: "router \<Rightarrow> router" where
  "alive_drop st = st\<lparr>rt_shutdown := True\<rparr>"

section \<open>The writer thread\<close>

datatype choice = Leave | Take | Wait

text \<open>The inner loop of \<^verbatim>\<open>writer_thread\<close> at one look at the state.\<close>

definition writer_choice :: "nat option \<Rightarrow> router \<Rightarrow> choice" where
  "writer_choice failed_at st =
     (if rt_exited st then Leave
      else if rt_mode st = Normal \<and> rt_queue st \<noteq> [] \<and> failed_at \<noteq> Some (rt_pushes st) then Take
      else if rt_shutdown st \<and> (rt_queue st = [] \<or> rt_mode st = Ring) then Leave
      else Wait)"

definition writer_take :: "router \<Rightarrow> router" where
  "writer_take st =
     st\<lparr>rt_queue := tl (rt_queue st), rt_writing := True,
        rt_in_flight := (case hd (rt_queue st) of Lost gap \<Rightarrow> Some gap | Line _ \<Rightarrow> rt_in_flight st)\<rparr>"

definition writer_leave :: "router \<Rightarrow> router" where
  "writer_leave st = st\<lparr>rt_exited := True\<rparr>"

text \<open>The critical section after the sink write; the result is the next \<^verbatim>\<open>failed_at\<close>.\<close>

definition writer_done :: "item \<Rightarrow> bool \<Rightarrow> router \<Rightarrow> nat option \<times> router" where
  "writer_done it delivered st =
     (let st = st\<lparr>rt_in_flight := None,
                 rt_queued := (case it of Line line \<Rightarrow> rt_queued st - length line | Lost _ \<Rightarrow> rt_queued st)\<rparr>;
          failed_at = (if delivered then None else Some (rt_pushes st));
          st = (if delivered then st
                else case it of Lost gap \<Rightarrow> lose_at_front gap st
                              | Line _ \<Rightarrow> lose_at_front (gap_of 1 SinkError) st)
      in (failed_at, st\<lparr>rt_writing := False\<rparr>))"

datatype writer =
    WNone
  | WSpawning
  | WReady "nat option"
  | WParked "nat option"
  | WWriting "nat option" item
  | WGone

section \<open>The router at work\<close>

text \<open>
  The shared state, the writer thread, the \<^verbatim>\<open>notify_all\<close> calls still to come, and two histories: the lines
  handed to \<^verbatim>\<open>write_record\<close> and the items the sink accepted.
\<close>

record rworld =
  rw_state :: router
  rw_writer :: writer
  rw_notices :: nat
  rw_written :: "bytes list"
  rw_out :: "item list"

definition rw_start :: "rworld \<Rightarrow> bool" where
  "rw_start w \<longleftrightarrow>
     (\<exists>ring queue. ring < U64_MAX \<and> queue < U64_MAX \<and>
        w = \<lparr>rw_state = router_build ring queue, rw_writer = WNone, rw_notices = 0, rw_written = [], rw_out = []\<rparr>)"

definition unpark :: "writer \<Rightarrow> writer" where
  "unpark wr = (case wr of WParked failed_at \<Rightarrow> WReady failed_at | _ \<Rightarrow> wr)"

text \<open>A step under the lock followed by a \<^verbatim>\<open>notify_all\<close>.\<close>

definition locked :: "rworld \<Rightarrow> router \<Rightarrow> rworld" where
  "locked w st = w\<lparr>rw_state := st, rw_notices := Suc (rw_notices w)\<rparr>"

inductive rw_step :: "rworld \<Rightarrow> rworld \<Rightarrow> bool" where
  rs_write: "length l < U64_MAX \<Longrightarrow>
    rw_step w (locked (w\<lparr>rw_written := rw_written w @ [l]\<rparr>) (write_record l (rw_state w)))"
| rs_enter: "rw_step w (locked w (enter_ring (rw_state w)))"
| rs_flush: "flush_to_normal (rw_state w) = (lost, st) \<Longrightarrow> rw_step w (locked w st)"
| rs_start: "start_writer (rw_state w) = (spawn, st) \<Longrightarrow>
    rw_step w (w\<lparr>rw_state := st, rw_writer := (if spawn then WSpawning else rw_writer w)\<rparr>)"
| rs_spawned: "rw_writer w = WSpawning \<Longrightarrow> rw_step w (w\<lparr>rw_writer := WReady None\<rparr>)"
| rs_spawn_failed: "rw_writer w = WSpawning \<Longrightarrow>
    rw_step w (locked (w\<lparr>rw_writer := WNone\<rparr>) (spawn_failed (rw_state w)))"
| rs_drop: "rw_step w (locked w (alive_drop (rw_state w)))"
| rs_notify: "rw_notices w = Suc n \<Longrightarrow> rw_step w (w\<lparr>rw_notices := n, rw_writer := unpark (rw_writer w)\<rparr>)"
| rs_spurious: "rw_step w (w\<lparr>rw_writer := unpark (rw_writer w)\<rparr>)"
| rs_take: "rw_writer w = WReady failed_at \<Longrightarrow> writer_choice failed_at (rw_state w) = Take \<Longrightarrow>
    rw_step w (w\<lparr>rw_state := writer_take (rw_state w),
                 rw_writer := WWriting failed_at (hd (rt_queue (rw_state w)))\<rparr>)"
| rs_leave: "rw_writer w = WReady failed_at \<Longrightarrow> writer_choice failed_at (rw_state w) = Leave \<Longrightarrow>
    rw_step w (locked (w\<lparr>rw_writer := WGone\<rparr>) (writer_leave (rw_state w)))"
| rs_wait: "rw_writer w = WReady failed_at \<Longrightarrow> writer_choice failed_at (rw_state w) = Wait \<Longrightarrow>
    rw_step w (w\<lparr>rw_writer := WParked failed_at\<rparr>)"
| rs_done: "rw_writer w = WWriting failed_at it \<Longrightarrow> writer_done it delivered (rw_state w) = (failed_at', st) \<Longrightarrow>
    rw_step w (locked (w\<lparr>rw_writer := WReady failed_at',
                         rw_out := (if delivered then rw_out w @ [it] else rw_out w)\<rparr>) st)"

section \<open>What is held\<close>

definition writing_items :: "writer \<Rightarrow> item list" where
  "writing_items wr = (case wr of WWriting _ it \<Rightarrow> [it] | _ \<Rightarrow> [])"

definition pending :: "rworld \<Rightarrow> item list" where
  "pending w = writing_items (rw_writer w) @ rt_queue (rw_state w)"

definition ring_items :: "line_ring \<Rightarrow> item list" where
  "ring_items r =
     (if lr_lost r = 0 then [] else [Lost (gap_of (lr_lost r) RingOverflow)]) @ map Line (lr_lines r)"

text \<open>
  A ledger of the lines written: each line entry stands for the next line, each gap for as many lines as
  it counts.
\<close>

fun accounts :: "item list \<Rightarrow> bytes list \<Rightarrow> bool" where
  "accounts [] ws \<longleftrightarrow> ws = []"
| "accounts (Line l # its) ws \<longleftrightarrow> ws \<noteq> [] \<and> hd ws = l \<and> accounts its (tl ws)"
| "accounts (Lost gap # its) ws \<longleftrightarrow> gap_total gap \<le> length ws \<and> accounts its (drop (gap_total gap) ws)"

definition is_lost :: "item \<Rightarrow> bool" where
  "is_lost it = (case it of Lost _ \<Rightarrow> True | Line _ \<Rightarrow> False)"

definition item_len :: "item \<Rightarrow> nat" where
  "item_len it = (case it of Line l \<Rightarrow> length l | Lost _ \<Rightarrow> 0)"

definition separated :: "item list \<Rightarrow> bool" where
  "separated = successively (\<lambda>a b. \<not> (is_lost a \<and> is_lost b))"

lemma item_simps [simp]:
  "is_lost (Lost g)" "\<not> is_lost (Line l)" "item_len (Line l) = length l" "item_len (Lost g) = 0"
  by (simp_all add: is_lost_def item_len_def)

section \<open>The queue\<close>

lemma lose_queue:
  obtains (merge) q g where "rt_queue st = q @ [Lost g]" "rt_queue (lose n r st) = q @ [Lost (gap_add n r g)]"
  | (new) "rt_queue st = [] \<or> \<not> is_lost (last (rt_queue st))" "rt_queue (lose n r st) = rt_queue st @ [Lost (gap_of n r)]"
proof (cases "rev (rt_queue st)")
  case Nil
  then show ?thesis by (intro new) (simp_all add: lose_def)
next
  case (Cons it rest)
  then have q: "rt_queue st = rev rest @ [it]" by (simp add: rev_swap)
  then show ?thesis using Cons merge new by (cases it) (auto simp: lose_def)
qed

lemma lose_frame [frame_simps]:
  "rt_mode (lose n r st) = rt_mode st" "rt_ring (lose n r st) = rt_ring st"
  "rt_queued (lose n r st) = rt_queued st" "rt_capacity (lose n r st) = rt_capacity st"
  "rt_writing (lose n r st) = rt_writing st" "rt_in_flight (lose n r st) = rt_in_flight st"
  "rt_shutdown (lose n r st) = rt_shutdown st" "rt_exited (lose n r st) = rt_exited st"
  "rt_started (lose n r st) = rt_started st" "rt_sink (lose n r st) = rt_sink st"
  by (simp_all add: lose_def)

lemma enqueue_frame [frame_simps]:
  "rt_mode (enqueue l st) = rt_mode st" "rt_ring (enqueue l st) = rt_ring st"
  "rt_capacity (enqueue l st) = rt_capacity st"
  "rt_writing (enqueue l st) = rt_writing st" "rt_in_flight (enqueue l st) = rt_in_flight st"
  "rt_shutdown (enqueue l st) = rt_shutdown st" "rt_exited (enqueue l st) = rt_exited st"
  "rt_started (enqueue l st) = rt_started st" "rt_sink (enqueue l st) = rt_sink st"
  by (simp_all add: enqueue_def lose_frame)

lemma fold_enqueue_frame [frame_simps]:
  "rt_mode (fold enqueue ls st) = rt_mode st" "rt_ring (fold enqueue ls st) = rt_ring st"
  "rt_capacity (fold enqueue ls st) = rt_capacity st"
  "rt_writing (fold enqueue ls st) = rt_writing st" "rt_in_flight (fold enqueue ls st) = rt_in_flight st"
  "rt_shutdown (fold enqueue ls st) = rt_shutdown st" "rt_exited (fold enqueue ls st) = rt_exited st"
  "rt_started (fold enqueue ls st) = rt_started st" "rt_sink (fold enqueue ls st) = rt_sink st"
  by (induction ls arbitrary: st) (simp_all add: enqueue_frame)

lemma lose_at_front_frame [frame_simps]:
  "rt_mode (lose_at_front g st) = rt_mode st" "rt_ring (lose_at_front g st) = rt_ring st"
  "rt_queued (lose_at_front g st) = rt_queued st" "rt_capacity (lose_at_front g st) = rt_capacity st"
  "rt_in_flight (lose_at_front g st) = rt_in_flight st"
  "rt_shutdown (lose_at_front g st) = rt_shutdown st" "rt_exited (lose_at_front g st) = rt_exited st"
  "rt_started (lose_at_front g st) = rt_started st" "rt_sink (lose_at_front g st) = rt_sink st"
  "rt_pushes (lose_at_front g st) = rt_pushes st"
  by (simp_all add: lose_at_front_def)

section \<open>Ledgers\<close>

lemma gap_total_min:
  "gap_total g = min (lg_ring_overflow g + lg_sink_backpressure g + lg_sink_error g) U64_MAX"
  by (simp add: gap_total_def sat_add_def)

lemma gap_total_add: "gap_total g + n \<le> U64_MAX \<Longrightarrow> gap_total (gap_add n r g) = gap_total g + n"
  by (cases r) (auto simp: gap_total_min gap_add_def sat_add_def min_def)

lemma gap_total_of: "n \<le> U64_MAX \<Longrightarrow> gap_total (gap_of n r) = n"
  using gap_total_add [of gap_default n r] by (simp add: gap_of_def gap_total_min gap_default_def)

lemma gap_total_merge:
  assumes "gap_total g + gap_total h \<le> U64_MAX"
  shows "gap_total (gap_merge h g) = gap_total g + gap_total h"
  using assms by (auto simp: gap_total_min gap_merge_def gap_add_def sat_add_def min_def split: if_splits)

lemma accounts_append:
  "accounts (xs @ ys) ws \<longleftrightarrow> (\<exists>us vs. ws = us @ vs \<and> accounts xs us \<and> accounts ys vs)"
proof (induction xs ws rule: accounts.induct)
  case (2 l its ws)
  show ?case
  proof (cases ws)
    case (Cons w ws')
    show ?thesis
    proof
      assume "accounts ((Line l # its) @ ys) ws"
      then obtain us vs where uv: "ws' = us @ vs" "accounts its us" "accounts ys vs" and w: "w = l"
        using 2 Cons by auto
      then have "ws = (l # us) @ vs" "accounts (Line l # its) (l # us)" using Cons by auto
      with uv(3) show "\<exists>us vs. ws = us @ vs \<and> accounts (Line l # its) us \<and> accounts ys vs" by blast
    qed (use 2 Cons in \<open>auto simp: Cons_eq_append_conv\<close>)
  qed auto
next
  case (3 gap its ws)
  let ?n = "gap_total gap"
  show ?case
  proof
    assume "accounts ((Lost gap # its) @ ys) ws"
    then obtain us vs where uv: "drop ?n ws = us @ vs" "accounts its us" "accounts ys vs" and le: "?n \<le> length ws"
      using 3 by auto
    then have "ws = (take ?n ws @ us) @ vs" by (metis append_assoc append_take_drop_id)
    moreover have "accounts (Lost gap # its) (take ?n ws @ us)" using uv(2) le by (simp add: min_def)
    ultimately show "\<exists>us vs. ws = us @ vs \<and> accounts (Lost gap # its) us \<and> accounts ys vs" using uv(3) by blast
  qed (use 3 in auto)
qed simp

lemma accounts_appendI: "accounts xs us \<Longrightarrow> accounts ys vs \<Longrightarrow> accounts (xs @ ys) (us @ vs)"
  by (auto simp: accounts_append)

lemma accounts_gap [simp]: "accounts [Lost g] ws \<longleftrightarrow> length ws = gap_total g"
  by auto

lemma accounts_line [simp]: "accounts [Line l] ws \<longleftrightarrow> ws = [l]"
  by (cases ws) auto

lemma lose_accounts:
  assumes "accounts (xs @ rt_queue st) us" "length us + length vs \<le> U64_MAX"
  shows "accounts (xs @ rt_queue (lose (length vs) r st)) (us @ vs)"
proof (cases rule: lose_queue [of st "length vs" r])
  case (merge q g)
  then have "accounts ((xs @ q) @ [Lost g]) us" using assms(1) by simp
  then obtain a b where ab: "us = a @ b" "accounts (xs @ q) a" "length b = gap_total g"
    unfolding accounts_append [of "xs @ q"] by auto
  with assms(2) have "accounts [Lost (gap_add (length vs) r g)] (b @ vs)" by (simp add: gap_total_add)
  from accounts_appendI [OF ab(2) this] show ?thesis using ab(1) merge(2) by simp
next
  case new
  have "accounts [Lost (gap_of (length vs) r)] vs" using assms(2) by (simp add: gap_total_of)
  from accounts_appendI [OF assms(1) this] show ?thesis using new(2) by simp
qed

lemma enqueue_accounts:
  assumes "accounts (xs @ rt_queue st) us" "length us < U64_MAX"
  shows "accounts (xs @ rt_queue (enqueue l st)) (us @ [l])"
  using lose_accounts [of xs st us "[l]" SinkBackpressure] accounts_appendI [of "xs @ rt_queue st" us "[Line l]" "[l]"] assms
  by (auto simp: enqueue_def)

lemma fold_enqueue_accounts:
  "accounts (xs @ rt_queue st) us \<Longrightarrow> length us + length ls \<le> U64_MAX \<Longrightarrow>
    accounts (xs @ rt_queue (fold enqueue ls st)) (us @ ls)"
proof (induction ls arbitrary: st us)
  case (Cons l ls)
  show ?case using Cons.IH [of "enqueue l st" "us @ [l]"] enqueue_accounts [of xs st us l] Cons.prems by simp
qed simp

lemma lose_at_front_accounts:
  assumes "accounts (Lost g # rt_queue st) us" "length us \<le> U64_MAX"
  shows "accounts (rt_queue (lose_at_front g st)) us"
proof (cases "\<exists>h rest. rt_queue st = Lost h # rest")
  case True
  then obtain h rest where q: "rt_queue st = Lost h # rest" by blast
  with assms have "gap_total h + gap_total g \<le> U64_MAX" by auto
  from gap_total_merge [OF this] show ?thesis
    using assms q by (auto simp: lose_at_front_def add.commute)
next
  case False
  then have "rt_queue (lose_at_front g st) = Lost g # rt_queue st"
    by (auto simp: lose_at_front_def split: list.splits item.splits)
  then show ?thesis using assms by simp
qed

section \<open>The ring\<close>

definition bytes_of :: "bytes list \<Rightarrow> nat" where
  "bytes_of ls = sum_list (map length ls)"

definition ring_ok :: "line_ring \<Rightarrow> bool" where
  "ring_ok r \<longleftrightarrow> lr_used r = bytes_of (lr_lines r) \<and> lr_used r \<le> lr_capacity r \<and> lr_capacity r < U64_MAX \<and>
     lr_lost r \<le> U64_MAX"

lemma bytes_of_simps [simp]:
  "bytes_of [] = 0" "bytes_of (l # ls) = length l + bytes_of ls" "bytes_of (ls @ ms) = bytes_of ls + bytes_of ms"
  by (simp_all add: bytes_of_def)

lemma ring_evict_spec:
  assumes "ring_evict cap need used lines lost = (u, ls, k)" "used = bytes_of lines" "need \<le> cap" "cap < U64_MAX"
    "lost \<le> U64_MAX"
  shows "\<exists>gone. lines = gone @ ls \<and> u = bytes_of ls \<and> u + need \<le> cap \<and> k \<le> U64_MAX \<and>
           (lost + length gone \<le> U64_MAX \<longrightarrow> k = lost + length gone)"
  using assms
proof (induction cap need used lines lost rule: ring_evict.induct)
  case (1 cap need used lines lost)
  show ?case
  proof (cases "sat_add used need > cap")
    case False
    then show ?thesis using "1.prems" by (auto simp: ring_evict.simps [of cap] sat_add_gt_iff)
  next
    case True
    then obtain old rest where lines: "lines = old # rest"
      using "1.prems" by (cases lines) (auto simp: sat_add_gt_iff)
    with True "1.prems"(1) have "ring_evict cap need (used - length old) rest (sat_add lost 1) = (u, ls, k)"
      by (simp add: ring_evict.simps [of cap need used])
    then obtain gone where "rest = gone @ ls" "u = bytes_of ls" "u + need \<le> cap" "k \<le> U64_MAX"
      and k: "sat_add lost 1 + length gone \<le> U64_MAX \<longrightarrow> k = sat_add lost 1 + length gone"
      using "1.IH" [OF True lines] "1.prems" lines by auto
    then show ?thesis using lines by (intro exI [of _ "old # gone"]) (auto simp: sat_add_small)
  qed
qed

lemma ring_push_fits:
  assumes "ring_ok r" "length l \<le> lr_capacity r"
  obtains gone ls where "lr_lines r = gone @ ls" "lr_lines (ring_push l r) = ls @ [l]"
    "lr_used (ring_push l r) = bytes_of ls + length l" "bytes_of ls + length l \<le> lr_capacity r"
    "lr_capacity (ring_push l r) = lr_capacity r" "lr_lost (ring_push l r) \<le> U64_MAX"
    "lr_lost r + length gone \<le> U64_MAX \<longrightarrow> lr_lost (ring_push l r) = lr_lost r + length gone"
proof -
  obtain u ls k where e: "ring_evict (lr_capacity r) (length l) (lr_used r) (lr_lines r) (lr_lost r) = (u, ls, k)"
    by (cases "ring_evict (lr_capacity r) (length l) (lr_used r) (lr_lines r) (lr_lost r)") auto
  from ring_evict_spec [OF e] assms show ?thesis
    using assms(2) e that by (auto simp: ring_ok_def ring_push_def)
qed

lemma ring_push_lost: "length l > lr_capacity r \<Longrightarrow> ring_push l r = r\<lparr>lr_lost := sat_add (lr_lost r) 1\<rparr>"
  by (simp add: ring_push_def)

lemma ring_push_ok: "ring_ok r \<Longrightarrow> ring_ok (ring_push l r)"
proof (cases "length l \<le> lr_capacity r")
  case True
  assume ok: "ring_ok r"
  show ?thesis by (rule ring_push_fits [OF ok True]) (use ok in \<open>simp add: ring_ok_def\<close>)
qed (auto simp: ring_push_lost ring_ok_def)

lemma ring_push_lines: "ring_ok r \<Longrightarrow> set (lr_lines (ring_push l r)) \<subseteq> insert l (set (lr_lines r))"
proof (cases "length l \<le> lr_capacity r")
  case True
  assume ok: "ring_ok r"
  show ?thesis by (rule ring_push_fits [OF ok True]) auto
qed (auto simp: ring_push_lost)

lemma ring_push_capacity [simp]: "lr_capacity (ring_push l r) = lr_capacity r"
  by (simp add: ring_push_def split: prod.splits)

lemma accounts_lines [simp]: "accounts (map Line ls) us \<longleftrightarrow> us = ls"
proof (induction ls arbitrary: us)
  case (Cons l ls)
  then show ?case by (cases us) auto
qed simp

lemma accounts_ring:
  assumes "lr_lost r \<le> U64_MAX"
  shows "accounts (ring_items r) us \<longleftrightarrow> (\<exists>gone. us = gone @ lr_lines r \<and> length gone = lr_lost r)"
proof (cases "lr_lost r = 0")
  case False
  then have items: "ring_items r = [Lost (gap_of (lr_lost r) RingOverflow)] @ map Line (lr_lines r)"
    by (simp add: ring_items_def)
  show ?thesis unfolding items accounts_append accounts_gap accounts_lines gap_total_of [OF assms] by blast
next
  case True
  then have items: "ring_items r = map Line (lr_lines r)" by (simp add: ring_items_def)
  show ?thesis unfolding items accounts_lines True by simp
qed

lemma ring_push_accounts:
  assumes "ring_ok r" "length l \<le> lr_capacity r" "accounts (ring_items r) us" "length us < U64_MAX"
  shows "accounts (ring_items (ring_push l r)) (us @ [l])"
proof -
  obtain gone ls where r: "lr_lines r = gone @ ls" "lr_lines (ring_push l r) = ls @ [l]"
    "lr_lost (ring_push l r) \<le> U64_MAX"
    and k: "lr_lost r + length gone \<le> U64_MAX \<longrightarrow> lr_lost (ring_push l r) = lr_lost r + length gone"
    by (rule ring_push_fits [OF assms(1,2)])
  have lost: "lr_lost r \<le> U64_MAX" using assms(1) by (simp add: ring_ok_def)
  from assms(3) obtain before where "us = before @ gone @ ls" "length before = lr_lost r"
    unfolding accounts_ring [OF lost] r(1) by blast
  then show ?thesis
    using assms(4) k unfolding accounts_ring [OF r(3)] r(2) by (intro exI [of _ "before @ gone"]) simp
qed

section \<open>The structure of the router\<close>

definition queue_ok :: "nat \<Rightarrow> router \<Rightarrow> bool" where
  "queue_ok held st \<longleftrightarrow> rt_queued st = held + sum_list (map item_len (rt_queue st)) \<and>
     separated (rt_queue st) \<and> rt_capacity st < U64_MAX"

lemma separated_snoc: "separated (q @ [x]) \<longleftrightarrow> separated q \<and> (q = [] \<or> \<not> (is_lost (last q) \<and> is_lost x))"
  by (auto simp: separated_def successively_append_iff)

lemma separated_Cons: "separated (x # q) \<longleftrightarrow> separated q \<and> (q = [] \<or> \<not> (is_lost x \<and> is_lost (hd q)))"
  by (auto simp: separated_def successively_Cons)

lemma lose_ok: "queue_ok held st \<Longrightarrow> queue_ok held (lose n r st)"
  by (cases rule: lose_queue [of st n r]) (auto simp: queue_ok_def separated_snoc frame_simps)

lemma enqueue_ok:
  assumes "queue_ok held st" "length l < U64_MAX"
  shows "queue_ok held (enqueue l st)"
proof (cases "sat_add (rt_queued st) (length l) > rt_capacity st \<and> rt_queued st > 0")
  case True
  then show ?thesis using lose_ok [OF assms(1)] by (simp add: enqueue_def)
next
  case False
  then have "rt_queued st = 0 \<or> rt_queued st + length l \<le> rt_capacity st"
    using assms(1) by (auto simp: queue_ok_def sat_add_gt_iff)
  then have "rt_queued st + length l \<le> U64_MAX"
    using assms unfolding queue_ok_def by linarith
  then have "enqueue l st = st\<lparr>rt_queued := rt_queued st + length l, rt_queue := rt_queue st @ [Line l],
      rt_pushes := wrapping_incr (rt_pushes st)\<rparr>"
    unfolding enqueue_def if_not_P [OF False] by (simp only: sat_add_small)
  then show ?thesis using assms(1) by (simp add: queue_ok_def separated_snoc)
qed

lemma fold_enqueue_ok:
  "queue_ok held st \<Longrightarrow> \<forall>l \<in> set ls. length l < U64_MAX \<Longrightarrow> queue_ok held (fold enqueue ls st)"
  by (induction ls arbitrary: st) (simp_all add: enqueue_ok)

lemma enqueue_bound: "rt_queued st \<le> m \<Longrightarrow> rt_capacity st \<le> m \<Longrightarrow> length l \<le> m \<Longrightarrow> rt_capacity st < U64_MAX \<Longrightarrow>
    rt_queued (enqueue l st) \<le> m"
  by (auto simp: enqueue_def frame_simps sat_add_def min_def split: if_splits)

lemma fold_enqueue_bound:
  "rt_queued st \<le> m \<Longrightarrow> rt_capacity st \<le> m \<Longrightarrow> \<forall>l \<in> set ls. length l \<le> m \<Longrightarrow> rt_capacity st < U64_MAX \<Longrightarrow>
    rt_queued (fold enqueue ls st) \<le> m"
  by (induction ls arbitrary: st) (simp_all add: enqueue_bound enqueue_frame)

lemma separated_merge: "separated (Lost h # q) \<longleftrightarrow> separated (Lost g # q)"
  by (simp add: separated_Cons)

lemma lose_at_front_ok: "queue_ok held st \<Longrightarrow> queue_ok held (lose_at_front g st)"
proof (cases "rt_queue st")
  case (Cons it rest)
  then show "queue_ok held st \<Longrightarrow> ?thesis"
    by (cases it) (auto simp: queue_ok_def lose_at_front_def separated_Cons)
qed (auto simp: queue_ok_def lose_at_front_def separated_def)

definition ring_part :: "bytes list \<Rightarrow> router \<Rightarrow> bool" where
  "ring_part written st \<longleftrightarrow> ring_ok (rt_ring st) \<and> set (lr_lines (rt_ring st)) \<subseteq> set written \<and>
     (rt_mode st = Normal \<longrightarrow> lr_lines (rt_ring st) = [] \<and> lr_lost (rt_ring st) = 0)"

definition queue_part :: "bytes list \<Rightarrow> writer \<Rightarrow> router \<Rightarrow> bool" where
  "queue_part written wr st \<longleftrightarrow> queue_ok (sum_list (map item_len (writing_items wr))) st \<and>
     (\<forall>m. rt_capacity st \<le> m \<longrightarrow> (\<forall>l \<in> set written. length l \<le> m) \<longrightarrow> rt_queued st \<le> m)"

definition flight_of :: "writer \<Rightarrow> loss_gap option" where
  "flight_of wr = (case writing_items wr of [Lost g] \<Rightarrow> Some g | _ \<Rightarrow> None)"

definition thread_part :: "writer \<Rightarrow> router \<Rightarrow> bool" where
  "thread_part wr st \<longleftrightarrow> rt_writing st = (writing_items wr \<noteq> []) \<and> rt_in_flight st = flight_of wr \<and>
     (rt_sink st \<longrightarrow> \<not> rt_started st) \<and> (\<not> rt_started st \<longrightarrow> wr = WNone)"

definition router_inv :: "rworld \<Rightarrow> bool" where
  "router_inv w \<longleftrightarrow> (\<forall>l \<in> set (rw_written w). length l < U64_MAX) \<and> ring_part (rw_written w) (rw_state w) \<and>
     queue_part (rw_written w) (rw_writer w) (rw_state w) \<and> thread_part (rw_writer w) (rw_state w)"

lemma writing_items_simps [simp]:
  "writing_items WNone = []" "writing_items WSpawning = []" "writing_items (WReady f) = []"
  "writing_items (WParked f) = []" "writing_items (WWriting f it) = [it]" "writing_items WGone = []"
  by (simp_all add: writing_items_def)

lemma flight_of_simps [simp]:
  "flight_of WNone = None" "flight_of WSpawning = None" "flight_of (WReady f) = None"
  "flight_of (WParked f) = None" "flight_of WGone = None"
  "flight_of (WWriting f it) = (case it of Lost g \<Rightarrow> Some g | Line _ \<Rightarrow> None)"
  by (simp_all add: flight_of_def split: item.splits)

lemma unpark_same [simp]: "writing_items (unpark wr) = writing_items wr" "unpark wr = WNone \<longleftrightarrow> wr = WNone"
    "flight_of (unpark wr) = flight_of wr"
  by (cases wr; simp add: unpark_def flight_of_def)+

text \<open>The parts look at few fields of the state.\<close>

lemma queue_part_cong:
  "rt_queue t = rt_queue s \<Longrightarrow> rt_queued t = rt_queued s \<Longrightarrow> rt_capacity t = rt_capacity s \<Longrightarrow>
    writing_items wr' = writing_items wr \<Longrightarrow> queue_part ws wr' t = queue_part ws wr s"
  by (simp add: queue_part_def queue_ok_def)

lemma thread_part_cong:
  "rt_writing t = rt_writing s \<Longrightarrow> rt_in_flight t = rt_in_flight s \<Longrightarrow> rt_sink t = rt_sink s \<Longrightarrow>
    rt_started t = rt_started s \<Longrightarrow> thread_part wr t = thread_part wr s"
  by (simp add: thread_part_def)

lemma queue_part_lose: "queue_part ws wr st \<Longrightarrow> queue_part ws wr (lose n r st)"
  by (simp add: queue_part_def lose_ok lose_frame)

lemma queue_part_more: "queue_part ws wr st \<Longrightarrow> set ws \<subseteq> set ws' \<Longrightarrow> queue_part ws' wr st"
  by (auto simp: queue_part_def subset_iff)

lemma queue_part_enqueue:
  assumes "queue_part ws wr st" "length l < U64_MAX" "l \<in> set ws"
  shows "queue_part ws wr (enqueue l st)"
proof -
  from assms(1) have "rt_capacity st < U64_MAX" by (simp add: queue_part_def queue_ok_def)
  with assms show ?thesis by (auto simp: queue_part_def enqueue_ok enqueue_frame intro!: enqueue_bound)
qed

lemma queue_part_fold:
  "queue_part ws wr st \<Longrightarrow> \<forall>l \<in> set ls. length l < U64_MAX \<and> l \<in> set ws \<Longrightarrow> queue_part ws wr (fold enqueue ls st)"
  by (induction ls arbitrary: st) (simp_all add: queue_part_enqueue)

lemma flush_state:
  assumes "flush_to_normal st = (lost, st')"
  obtains s1 where "s1 = st\<lparr>rt_ring := (rt_ring st)\<lparr>lr_lost := 0, lr_used := 0, lr_lines := []\<rparr>\<rparr>"
    "lost = lr_lost (rt_ring st)"
    "st' = (fold enqueue (lr_lines (rt_ring st)) (if lost > 0 then lose lost RingOverflow s1 else s1))\<lparr>rt_mode := Normal\<rparr>"
  using assms by (auto simp: flush_to_normal_def ring_drain_def Let_def)

lemma write_inv:
  assumes "router_inv w" "length l < U64_MAX"
  shows "router_inv (locked (w\<lparr>rw_written := rw_written w @ [l]\<rparr>) (write_record l (rw_state w)))"
proof (cases "rt_mode (rw_state w)")
  case Ring
  then show ?thesis
    using assms ring_push_lines [of "rt_ring (rw_state w)" l]
    by (auto simp: router_inv_def write_record_def locked_def ring_part_def ring_push_ok thread_part_def
        queue_part_def queue_ok_def)
next
  case Normal
  let ?ws = "rw_written w @ [l]" and ?st = "rw_state w"
  have q: "queue_part ?ws (rw_writer w) ?st"
    by (rule queue_part_more [of "rw_written w"]) (use assms(1) in \<open>auto simp: router_inv_def\<close>)
  show ?thesis
    using assms Normal queue_part_lose [OF q] queue_part_enqueue [OF q assms(2)]
    by (auto simp: router_inv_def write_record_def locked_def ring_part_def thread_part_def frame_simps)
qed

lemma flush_inv:
  assumes "router_inv w" "flush_to_normal (rw_state w) = (lost, st')"
  shows "router_inv (locked w st')"
proof (rule flush_state [OF assms(2)])
  fix s1 assume s1: "s1 = (rw_state w)\<lparr>rt_ring := (rt_ring (rw_state w))\<lparr>lr_lost := 0, lr_used := 0, lr_lines := []\<rparr>\<rparr>"
    and st': "st' = (fold enqueue (lr_lines (rt_ring (rw_state w))) (if lost > 0 then lose lost RingOverflow s1 else s1))
                      \<lparr>rt_mode := Normal\<rparr>"
  have "queue_part (rw_written w) (rw_writer w) s1"
    using assms(1) queue_part_cong [of s1 "rw_state w"] by (simp add: s1 router_inv_def)
  then have "queue_part (rw_written w) (rw_writer w) (if lost > 0 then lose lost RingOverflow s1 else s1)"
    by (simp add: queue_part_lose)
  from queue_part_fold [OF this, of "lr_lines (rt_ring (rw_state w))"]
  have q: "queue_part (rw_written w) (rw_writer w) st'"
    using assms(1) unfolding st' by (subst queue_part_cong) (auto simp: router_inv_def ring_part_def subset_iff)
  show ?thesis
    using assms(1) q unfolding locked_def router_inv_def st'
    by (auto simp: s1 frame_simps ring_part_def ring_ok_def thread_part_def)
qed

lemma done_inv:
  assumes "router_inv w" "rw_writer w = WWriting f it" "writer_done it ok (rw_state w) = (f', st')"
  shows "router_inv (locked (w\<lparr>rw_writer := WReady f', rw_out := outs\<rparr>) st')"
proof -
  let ?s = "(rw_state w)\<lparr>rt_in_flight := None, rt_queued := rt_queued (rw_state w) - item_len it\<rparr>"
  have st': "st' = (if ok then ?s else lose_at_front (case it of Lost g \<Rightarrow> g | Line _ \<Rightarrow> gap_of 1 SinkError) ?s)\<lparr>rt_writing := False\<rparr>"
    using assms(3) by (cases it) (auto simp: writer_done_def Let_def)
  have q: "queue_ok (item_len it) (rw_state w)" and m: "\<forall>m. rt_capacity (rw_state w) \<le> m \<longrightarrow>
      (\<forall>l \<in> set (rw_written w). length l \<le> m) \<longrightarrow> rt_queued (rw_state w) \<le> m"
    using assms(1,2) by (simp_all add: router_inv_def queue_part_def)
  from q have "queue_ok 0 ?s" by (simp add: queue_ok_def)
  then have "queue_ok 0 st'" unfolding st' using lose_at_front_ok [of 0 ?s] by (auto simp: queue_ok_def)
  moreover have "rt_queued st' \<le> rt_queued (rw_state w)" "rt_capacity st' = rt_capacity (rw_state w)"
    by (simp_all add: st' frame_simps)
  ultimately have "queue_part (rw_written w) (WReady f') st'"
    using m unfolding queue_part_def by (simp add: le_trans)
  then show ?thesis
    using assms(1,2) by (auto simp: router_inv_def locked_def ring_part_def thread_part_def st' frame_simps)
qed

lemma take_inv:
  assumes "router_inv w" "rw_writer w = WReady f" "writer_choice f (rw_state w) = Take"
  shows "router_inv (w\<lparr>rw_state := writer_take (rw_state w), rw_writer := WWriting f (hd (rt_queue (rw_state w)))\<rparr>)"
proof -
  obtain it q where q: "rt_queue (rw_state w) = it # q"
    using assms(3) by (cases "rt_queue (rw_state w)") (auto simp: writer_choice_def split: if_splits)
  then show ?thesis using assms(1,2)
    by (auto simp: router_inv_def writer_take_def ring_part_def queue_part_def queue_ok_def separated_Cons thread_part_def
        split: item.splits)
qed

lemma router_inv_start: "rw_start w \<Longrightarrow> router_inv w"
  by (auto simp: rw_start_def router_inv_def router_build_def ring_with_capacity_def ring_part_def ring_ok_def
      queue_part_def queue_ok_def thread_part_def separated_def)

lemma quiet_inv:
  assumes "router_inv w" "rw_written t = rw_written w" "writing_items (rw_writer t) = writing_items (rw_writer w)"
    "rt_queue (rw_state t) = rt_queue (rw_state w)" "rt_queued (rw_state t) = rt_queued (rw_state w)"
    "rt_capacity (rw_state t) = rt_capacity (rw_state w)" "rt_ring (rw_state t) = rt_ring (rw_state w)"
    "rt_mode (rw_state t) = Normal \<longrightarrow> rt_mode (rw_state w) = Normal" "thread_part (rw_writer t) (rw_state t)"
  shows "router_inv t"
  using assms queue_part_cong [of "rw_state t" "rw_state w" "rw_writer t" "rw_writer w" "rw_written w"]
  by (simp add: router_inv_def ring_part_def)

lemma router_inv_step: "rw_step w t \<Longrightarrow> router_inv w \<Longrightarrow> router_inv t"
proof (induction w t rule: rw_step.induct)
  case (rs_enter w)
  then show ?case by (rule quiet_inv) (use rs_enter in \<open>simp_all add: locked_def enter_ring_def router_inv_def thread_part_def\<close>)
next
  case (rs_start w spawn st)
  have idle: "writing_items (rw_writer w) = []" if "\<not> rt_started (rw_state w)"
    using rs_start that by (simp add: router_inv_def thread_part_def)
  show ?case
    by (rule quiet_inv [OF rs_start(2)])
      (use rs_start idle in \<open>auto simp: start_writer_def router_inv_def thread_part_def split: if_splits\<close>)
next
  case (rs_spawned w)
  then show ?case by (intro quiet_inv [OF rs_spawned(2)]) (auto simp: router_inv_def thread_part_def)
next
  case (rs_spawn_failed w)
  then show ?case
    by (intro quiet_inv [OF rs_spawn_failed(2)]) (auto simp: locked_def spawn_failed_def router_inv_def thread_part_def)
next
  case (rs_drop w)
  then show ?case by (intro quiet_inv [OF rs_drop]) (auto simp: locked_def alive_drop_def router_inv_def thread_part_def)
next
  case (rs_notify w n)
  then show ?case by (intro quiet_inv [OF rs_notify(2)]) (auto simp: router_inv_def thread_part_def)
next
  case (rs_spurious w)
  then show ?case by (intro quiet_inv [OF rs_spurious]) (auto simp: router_inv_def thread_part_def)
next
  case (rs_leave w f)
  then show ?case
    by (intro quiet_inv [OF rs_leave(3)]) (auto simp: locked_def writer_leave_def router_inv_def thread_part_def)
next
  case (rs_wait w f)
  then show ?case by (intro quiet_inv [OF rs_wait(3)]) (auto simp: router_inv_def thread_part_def)
qed (simp_all add: write_inv flush_inv done_inv take_inv)

interpretation rwi: inductive_invariant rw_start rw_step router_inv
  by unfold_locales (auto intro: router_inv_start router_inv_step)

section \<open>Accounting\<close>

definition ledger :: "rworld \<Rightarrow> item list" where
  "ledger w = rw_out w @ pending w @ ring_items (rt_ring (rw_state w))"

definition balanced :: "rworld \<Rightarrow> bool" where
  "balanced w \<longleftrightarrow> (length (rw_written w) \<le> U64_MAX \<and>
       (\<forall>l \<in> set (rw_written w). length l \<le> lr_capacity (rt_ring (rw_state w))) \<longrightarrow>
     accounts (ledger w) (rw_written w))"

lemma ring_items_empty: "lr_lines r = [] \<Longrightarrow> lr_lost r = 0 \<Longrightarrow> ring_items r = []"
  by (simp add: ring_items_def)

lemma write_balanced:
  assumes "router_inv w" "balanced w"
  shows "balanced (locked (w\<lparr>rw_written := rw_written w @ [l]\<rparr>) (write_record l (rw_state w)))" (is "balanced ?t")
  unfolding balanced_def
proof
  let ?st = "rw_state w" and ?xs = "rw_out w @ writing_items (rw_writer w)" and ?ws = "rw_written w"
  assume "length (rw_written ?t) \<le> U64_MAX \<and>
    (\<forall>m \<in> set (rw_written ?t). length m \<le> lr_capacity (rt_ring (rw_state ?t)))"
  moreover have "lr_capacity (rt_ring (rw_state ?t)) = lr_capacity (rt_ring ?st)"
    by (simp add: locked_def write_record_def frame_simps split: mode.splits)
  ultimately have len: "length ?ws < U64_MAX" "length l \<le> lr_capacity (rt_ring ?st)"
    and acc: "accounts (ledger w) ?ws"
    using assms(2) by (auto simp: locked_def balanced_def)
  show "accounts (ledger ?t) (rw_written ?t)"
  proof (cases "rt_mode ?st")
    case Ring
    from acc obtain us vs where uv: "?ws = us @ vs" "accounts (?xs @ rt_queue ?st) us"
      "accounts (ring_items (rt_ring ?st)) vs"
      unfolding ledger_def pending_def append_assoc [symmetric] accounts_append [of "_ @ rt_queue ?st"] by blast
    have "accounts (ring_items (ring_push l (rt_ring ?st))) (vs @ [l])"
      using ring_push_accounts [OF _ len(2) uv(3)] assms(1) len(1) uv(1) by (simp add: router_inv_def ring_part_def)
    from accounts_appendI [OF uv(2) this] show ?thesis
      using Ring uv(1) by (simp add: locked_def ledger_def pending_def write_record_def)
  next
    case Normal
    then have ring: "ring_items (rt_ring ?st) = []"
      using assms(1) by (simp add: router_inv_def ring_part_def ring_items_empty)
    with acc have "accounts (?xs @ rt_queue ?st) ?ws" by (simp add: ledger_def pending_def)
    from enqueue_accounts [OF this len(1)] lose_accounts [OF this, of "[l]"] len(1)
    show ?thesis
      using Normal ring by (simp add: locked_def ledger_def pending_def write_record_def frame_simps)
  qed
qed

lemma flush_ledger:
  assumes "flush_to_normal st = (lost, st')" "ring_ok (rt_ring st)" "length ws \<le> U64_MAX"
    "accounts (xs @ rt_queue st @ ring_items (rt_ring st)) ws"
  shows "accounts (xs @ rt_queue st') ws"
proof -
  obtain s1 where s1: "s1 = st\<lparr>rt_ring := (rt_ring st)\<lparr>lr_lost := 0, lr_used := 0, lr_lines := []\<rparr>\<rparr>"
    and lost: "lost = lr_lost (rt_ring st)"
    and st': "st' = (fold enqueue (lr_lines (rt_ring st)) (if lost > 0 then lose lost RingOverflow s1 else s1))\<lparr>rt_mode := Normal\<rparr>"
    using flush_state [OF assms(1)] by blast
  let ?s2 = "if lost > 0 then lose lost RingOverflow s1 else s1"
  from assms(2) have le: "lr_lost (rt_ring st) \<le> U64_MAX" by (simp add: ring_ok_def)
  from assms(4) obtain us gone where ws: "ws = us @ gone @ lr_lines (rt_ring st)" "length gone = lost"
    "accounts (xs @ rt_queue s1) us"
    unfolding append_assoc [symmetric] accounts_append [of "xs @ rt_queue st"] accounts_ring [OF le] lost s1 by auto
  have "accounts (xs @ rt_queue ?s2) (us @ gone)"
    using lose_accounts [OF ws(3), of gone RingOverflow] ws assms(3) by (cases "lost = 0") simp_all
  from fold_enqueue_accounts [OF this, of "lr_lines (rt_ring st)"]
  show "accounts (xs @ rt_queue st') ws" using ws assms(3) by (simp add: st')
qed

lemma flush_ring:
  assumes "flush_to_normal st = (lost, st')"
  shows "rt_ring st' = (rt_ring st)\<lparr>lr_lost := 0, lr_used := 0, lr_lines := []\<rparr>"
  using assms by (auto simp: flush_to_normal_def ring_drain_def Let_def frame_simps)

lemma done_ledger:
  assumes "writer_done it ok st = (f', st')" "accounts (it # rt_queue st) us" "length us \<le> U64_MAX"
  shows "accounts ((if ok then [it] else []) @ rt_queue st') us" "rt_ring st' = rt_ring st"
proof -
  let ?g = "case it of Lost g \<Rightarrow> g | Line _ \<Rightarrow> gap_of 1 SinkError"
  let ?s = "st\<lparr>rt_in_flight := None, rt_queued := rt_queued st - item_len it\<rparr>"
  have st': "st' = (if ok then ?s else lose_at_front ?g ?s)\<lparr>rt_writing := False\<rparr>"
    using assms(1) by (cases it) (auto simp: writer_done_def Let_def)
  have "1 \<le> U64_MAX" by (simp add: U64_MAX_def)
  from gap_total_of [OF this] have "accounts (Lost ?g # rt_queue ?s) us"
    using assms(2) by (cases it; cases us) (auto simp: drop_Suc)
  from lose_at_front_accounts [OF this assms(3)] show "accounts ((if ok then [it] else []) @ rt_queue st') us"
    using assms(2) by (simp add: st')
  show "rt_ring st' = rt_ring st" by (simp add: st' frame_simps)
qed

lemma balanced_same:
  "balanced w \<Longrightarrow> rw_written t = rw_written w \<Longrightarrow> ledger t = ledger w \<Longrightarrow>
    lr_capacity (rt_ring (rw_state t)) = lr_capacity (rt_ring (rw_state w)) \<Longrightarrow> balanced t"
  by (simp add: balanced_def)

lemma take_ledger:
  assumes "rw_writer w = WReady f" "writer_choice f (rw_state w) = Take"
  shows "ledger (w\<lparr>rw_state := writer_take (rw_state w), rw_writer := WWriting f (hd (rt_queue (rw_state w)))\<rparr>) = ledger w"
  using assms by (auto simp: ledger_def pending_def writer_take_def writer_choice_def split: if_splits)

lemma done_balanced:
  assumes "balanced w" "rw_writer w = WWriting f it" "writer_done it ok (rw_state w) = (f', st')"
  shows "balanced (locked (w\<lparr>rw_writer := WReady f', rw_out := (if ok then rw_out w @ [it] else rw_out w)\<rparr>) st')"
    (is "balanced ?t")
  unfolding balanced_def
proof
  let ?st = "rw_state w"
  have ring: "rt_ring st' = rt_ring ?st"
    using assms(3) by (auto simp: writer_done_def Let_def frame_simps split: if_splits item.splits)
  assume a: "length (rw_written ?t) \<le> U64_MAX \<and>
    (\<forall>m \<in> set (rw_written ?t). length m \<le> lr_capacity (rt_ring (rw_state ?t)))"
  then have "accounts (rw_out w @ (it # rt_queue ?st) @ ring_items (rt_ring ?st)) (rw_written w)"
    using assms(1,2) ring by (simp add: locked_def balanced_def ledger_def pending_def)
  then obtain us vs zs where uv: "rw_written w = us @ vs @ zs" "accounts (rw_out w) us" "accounts (it # rt_queue ?st) vs"
    "accounts (ring_items (rt_ring ?st)) zs"
    unfolding accounts_append by blast
  have "length vs \<le> U64_MAX" using a uv(1) by (simp add: locked_def)
  from done_ledger(1) [OF assms(3) uv(3) this]
  have "accounts (rw_out w @ ((if ok then [it] else []) @ rt_queue st') @ ring_items (rt_ring ?st)) (us @ vs @ zs)"
    by (intro accounts_appendI uv)
  then show "accounts (ledger ?t) (rw_written ?t)"
    using uv(1) ring by (cases ok) (simp_all add: locked_def ledger_def pending_def)
qed

lemma flush_balanced:
  assumes "router_inv w" "balanced w" "flush_to_normal (rw_state w) = (lost, st')"
  shows "balanced (locked w st')"
  unfolding balanced_def
proof
  let ?st = "rw_state w" and ?t = "locked w st'" and ?xs = "rw_out w @ writing_items (rw_writer w)"
  have ok: "ring_ok (rt_ring ?st)" using assms(1) by (simp add: router_inv_def ring_part_def)
  have ring: "lr_capacity (rt_ring st') = lr_capacity (rt_ring ?st)" "ring_items (rt_ring st') = []"
    by (simp_all add: flush_ring [OF assms(3)] ring_items_empty)
  assume a: "length (rw_written ?t) \<le> U64_MAX \<and>
    (\<forall>m \<in> set (rw_written ?t). length m \<le> lr_capacity (rt_ring (rw_state ?t)))"
  then have "accounts (?xs @ rt_queue ?st @ ring_items (rt_ring ?st)) (rw_written w)"
    using assms(2) ring(1) by (simp add: locked_def balanced_def ledger_def pending_def)
  from flush_ledger [OF assms(3) ok _ this] a show "accounts (ledger ?t) (rw_written ?t)"
    by (simp add: locked_def ledger_def pending_def ring(2))
qed

lemma balanced_start: "rw_start w \<Longrightarrow> balanced w"
  by (auto simp: rw_start_def balanced_def ledger_def pending_def router_build_def ring_with_capacity_def ring_items_def)

lemma balanced_step: "rw_step w t \<Longrightarrow> router_inv w \<Longrightarrow> balanced w \<Longrightarrow> balanced t"
proof (induction w t rule: rw_step.induct)
  case (rs_start w spawn st)
  have idle: "writing_items (rw_writer w) = []" if "\<not> rt_started (rw_state w)"
    using rs_start that by (simp add: router_inv_def thread_part_def)
  show ?case
    by (rule balanced_same [OF rs_start(3)])
      (use rs_start idle in \<open>auto simp: start_writer_def ledger_def pending_def split: if_splits\<close>)
next
  case (rs_take w f)
  show ?case by (rule balanced_same [OF rs_take(4)]) (use rs_take take_ledger in \<open>simp_all add: writer_take_def\<close>)
qed (simp_all add: write_balanced flush_balanced done_balanced,
    simp_all add: balanced_def ledger_def pending_def locked_def enter_ring_def spawn_failed_def alive_drop_def writer_leave_def)

section \<open>Wake-ups\<close>

definition awake :: "rworld \<Rightarrow> bool" where
  "awake w \<longleftrightarrow> (\<forall>f. rw_writer w = WParked f \<and> rw_notices w = 0 \<longrightarrow> writer_choice f (rw_state w) = Wait)"

lemma unpark_not_parked [simp]: "unpark wr \<noteq> WParked f"
  by (cases wr) (simp_all add: unpark_def)

lemma start_writer_choice: "start_writer st = (b, st') \<Longrightarrow> writer_choice f st' = writer_choice f st"
  by (auto simp: start_writer_def writer_choice_def split: if_splits)

lemma awake_step: "rw_step w t \<Longrightarrow> awake w \<Longrightarrow> awake t"
  by (induction w t rule: rw_step.induct) (auto simp: awake_def locked_def start_writer_choice split: if_splits)

lemma awake_start: "rw_start w \<Longrightarrow> awake w"
  by (auto simp: rw_start_def awake_def)

definition router_sound :: "rworld \<Rightarrow> bool" where
  "router_sound w \<longleftrightarrow> router_inv w \<and> balanced w \<and> awake w"

interpretation rws: inductive_invariant rw_start rw_step router_sound
  by unfold_locales
    (auto simp: router_sound_def intro: router_inv_start router_inv_step balanced_start balanced_step awake_start awake_step)

section \<open>Deliveries\<close>

lemma deliver_one:
  assumes "rw_writer w = WReady f" "rt_mode (rw_state w) = Normal" "\<not> rt_exited (rw_state w)"
    "f \<noteq> Some (rt_pushes (rw_state w))" "rt_queue (rw_state w) = it # q"
  obtains t where "(rw_step ^^ 2) w t" "rw_writer t = WReady None" "rt_mode (rw_state t) = Normal"
    "\<not> rt_exited (rw_state t)" "rt_queue (rw_state t) = q" "rw_out t = rw_out w @ [it]"
    "rw_written t = rw_written w"
proof -
  let ?m = "w\<lparr>rw_state := writer_take (rw_state w), rw_writer := WWriting f it\<rparr>"
  obtain st where d: "writer_done it True (rw_state ?m) = (None, st)" and st: "rt_queue st = q" "rt_mode st = Normal"
      "\<not> rt_exited st"
    using assms by (auto simp: writer_done_def Let_def writer_take_def)
  let ?t = "locked (?m\<lparr>rw_writer := WReady None, rw_out := (if True then rw_out ?m @ [it] else rw_out ?m)\<rparr>) st"
  have "rw_step w ?m" using rs_take [OF assms(1)] assms by (simp add: writer_choice_def)
  moreover have "rw_step ?m ?t" using rs_done [OF _ d, of f] by simp
  ultimately have "(rw_step ^^ 2) w ?t" by (auto simp: numeral_2_eq_2)
  then show ?thesis using that st by (simp add: locked_def)
qed

lemma deliver_all:
  "rw_writer w = WReady f \<Longrightarrow> rt_mode (rw_state w) = Normal \<Longrightarrow> \<not> rt_exited (rw_state w) \<Longrightarrow>
    f \<noteq> Some (rt_pushes (rw_state w)) \<Longrightarrow> rt_queue (rw_state w) = q \<Longrightarrow>
    \<exists>t. (rw_step ^^ (2 * length q)) w t \<and> rt_queue (rw_state t) = [] \<and> writing_items (rw_writer t) = [] \<and>
        rw_out t = rw_out w @ q \<and> rw_written t = rw_written w"
proof (induction q arbitrary: w f)
  case (Cons it q)
  obtain m where m: "(rw_step ^^ 2) w m" "rw_writer m = WReady None" "rt_mode (rw_state m) = Normal"
    "\<not> rt_exited (rw_state m)" "rt_queue (rw_state m) = q" "rw_out m = rw_out w @ [it]" "rw_written m = rw_written w"
    by (rule deliver_one [OF Cons.prems])
  obtain t where t: "(rw_step ^^ (2 * length q)) m t" "rt_queue (rw_state t) = []" "writing_items (rw_writer t) = []"
    "rw_out t = rw_out m @ q" "rw_written t = rw_written m"
    using Cons.IH [OF m(2-4) _ m(5)] by auto
  have "(rw_step ^^ (2 + 2 * length q)) w t" unfolding relpowp_add using m(1) t(1) by blast
  with t m show ?case by (intro exI [of _ t]) simp
qed auto

section \<open>Bounds\<close>

lemma separated_length: "separated q \<Longrightarrow> length q \<le> 2 * length (filter (\<lambda>it. \<not> is_lost it) q) + (if q \<noteq> [] \<and> is_lost (hd q) then 1 else 0)"
proof (induction q)
  case (Cons it q)
  then show ?case by (auto simp: separated_Cons split: if_splits)
qed simp

section \<open>Properties\<close>

definition window_step :: "rworld \<Rightarrow> rworld \<Rightarrow> bool" where
  "window_step w t \<longleftrightarrow> rw_step w t \<and> rt_mode (rw_state w) = Ring \<and> rt_mode (rw_state t) = Ring"

lemma ring_mode_waits: "rt_mode st = Ring \<Longrightarrow> writer_choice f st \<noteq> Take"
  by (simp add: writer_choice_def)

lemma window_one:
  assumes "window_step w t"
  shows "writing_items (rw_writer t) = writing_items (rw_writer w) \<and> rw_out t = rw_out w \<and>
          (\<forall>f it. rw_writer t = WWriting f it \<longrightarrow> rw_writer w = WWriting f it) \<or>
        writing_items (rw_writer t) = [] \<and> rw_out t \<in> {rw_out w, rw_out w @ writing_items (rw_writer w)}"
proof -
  from assms have "rw_step w t" "rt_mode (rw_state w) = Ring" by (simp_all add: window_step_def)
  then show ?thesis
proof (induction w t rule: rw_step.induct)
  case (rs_notify w n)
  then show ?case by (cases "rw_writer w") (auto simp: unpark_def)
next
  case (rs_spurious w)
  then show ?case by (cases "rw_writer w") (auto simp: unpark_def)
qed (auto simp: locked_def ring_mode_waits)
qed

lemma window_run:
  assumes "window_step\<^sup>*\<^sup>* w t"
  shows "writing_items (rw_writer t) = writing_items (rw_writer w) \<and> rw_out t = rw_out w \<and>
          (\<forall>f it. rw_writer t = WWriting f it \<longrightarrow> rw_writer w = WWriting f it) \<or>
        writing_items (rw_writer t) = [] \<and> rw_out t \<in> {rw_out w, rw_out w @ writing_items (rw_writer w)}"
  using assms
proof (induction rule: rtranclp_induct)
  case (step u t)
  from window_one [OF step(2)] step(3) show ?case by auto
qed auto

text \<open>
  No sink write starts during a freeze window: as long as the router stays in ring mode, the writer is
  in the sink only with the item it was already writing when the window opened, and the sink accepts
  nothing but that item.
\<close>

theorem window_is_quiet:
  assumes "window_step\<^sup>*\<^sup>* w t"
  shows "(\<forall>f it. rw_writer t = WWriting f it \<longrightarrow> rw_writer w = WWriting f it \<and> rw_out t = rw_out w) \<and>
    (rw_out t = rw_out w \<or> (\<exists>f it. rw_writer w = WWriting f it \<and> rw_out t = rw_out w @ [it]))"
  using window_run [OF assms] by (cases "rw_writer w") (auto simp: writing_items_def)

text \<open>
  C19. Every line is accounted for where it belongs: what the sink accepted, then the item being written,
  the queue and the ring, read in order, stand for exactly the lines written to the router, in order, each
  line delivered or held as it was written and each gap counting exactly the lines lost at its place. This
  holds as long as no line is longer than the ring and fewer than \<open>2\<^sup>6\<^sup>4\<close> lines were written.
\<close>

theorem lines_accounted:
  assumes "reachable rw_start rw_step w" "length (rw_written w) \<le> U64_MAX"
    "\<forall>l \<in> set (rw_written w). length l \<le> lr_capacity (rt_ring (rw_state w))"
  shows "accounts (rw_out w @ pending w @ ring_items (rt_ring (rw_state w))) (rw_written w)"
  using rws.inv_reachable [OF assms(1)] assms(2,3) by (simp add: router_sound_def balanced_def ledger_def)

text \<open>
  C21. The router's memory is bounded: the ring holds at most its capacity, the bytes counted as queued are
  those of the lines queued or being written and exceed the queue's capacity by no more than one over-long
  line held alone, and losses add at most one entry between two lines.
\<close>

theorem router_memory_bounded:
  assumes "reachable rw_start rw_step w"
  shows "bytes_of (lr_lines (rt_ring (rw_state w))) \<le> lr_capacity (rt_ring (rw_state w)) \<and>
    rt_queued (rw_state w) = sum_list (map item_len (pending w)) \<and>
    (\<forall>m. rt_capacity (rw_state w) \<le> m \<longrightarrow> (\<forall>l \<in> set (rw_written w). length l \<le> m) \<longrightarrow> rt_queued (rw_state w) \<le> m) \<and>
    length (rt_queue (rw_state w)) \<le> 2 * length (filter (\<lambda>it. \<not> is_lost it) (rt_queue (rw_state w))) + 1"
proof -
  have "router_inv w" using rws.inv_reachable [OF assms] by (simp add: router_sound_def)
  then have "ring_ok (rt_ring (rw_state w))" "queue_part (rw_written w) (rw_writer w) (rw_state w)"
    by (simp_all add: router_inv_def ring_part_def)
  then show ?thesis
    using separated_length [of "rt_queue (rw_state w)"]
    by (auto simp: ring_ok_def queue_part_def queue_ok_def pending_def split: if_splits)
qed

text \<open>
  C20. No wake-up is lost: when the writer is parked and no notification is under way, a look at the state
  would make it park again. In particular, in normal mode everything queued then was queued before the
  sink's last refusal.
\<close>

theorem no_lost_wakeup:
  assumes "reachable rw_start rw_step w" "rw_writer w = WParked failed_at" "rw_notices w = 0"
  shows "\<not> rt_exited (rw_state w) \<and>
    (rt_mode (rw_state w) = Ring \<or> rt_queue (rw_state w) = [] \<or> failed_at = Some (rt_pushes (rw_state w))) \<and>
    (rt_shutdown (rw_state w) \<longrightarrow> rt_mode (rw_state w) = Normal \<and> rt_queue (rw_state w) \<noteq> [])"
proof -
  have "writer_choice failed_at (rw_state w) = Wait"
    using rws.inv_reachable [OF assms(1)] assms(2,3) by (simp add: router_sound_def awake_def)
  then show ?thesis by (cases "rt_mode (rw_state w)") (auto simp: writer_choice_def split: if_splits)
qed

text \<open>
  A working sink is given everything: outside a freeze window a writer that is ready and has something
  new to try hands the whole queue over, in order, in two steps an item.
\<close>

theorem queue_is_delivered:
  assumes "rw_writer w = WReady failed_at" "rt_mode (rw_state w) = Normal" "\<not> rt_exited (rw_state w)"
    "failed_at \<noteq> Some (rt_pushes (rw_state w))"
  shows "\<exists>t. (rw_step ^^ (2 * length (rt_queue (rw_state w)))) w t \<and> rt_queue (rw_state t) = [] \<and>
    rw_out t = rw_out w @ rt_queue (rw_state w) \<and> rw_written t = rw_written w"
  using deliver_all [OF assms refl] by blast

section \<open>Witnesses\<close>

definition example_world :: rworld where
  "example_world =
     \<lparr>rw_state = router_build 8 8, rw_writer = WNone, rw_notices = 0, rw_written = [], rw_out = []\<rparr>"

text \<open>A line queued, another lost to the full queue, and the writer started.\<close>

definition example_ready :: rworld where
  "example_ready =
     \<lparr>rw_state = (router_build 8 8)\<lparr>rt_queue := [Line ''first'', Lost (gap_of 1 SinkBackpressure)], rt_queued := 5,
                  rt_started := True, rt_sink := False, rt_pushes := 2\<rparr>,
      rw_writer = WReady None, rw_notices = 2, rw_written = [''first'', ''second''], rw_out = []\<rparr>"

text \<open>The first line in flight when a window opens, and delivered in it.\<close>

definition example_busy :: rworld where
  "example_busy =
     example_ready\<lparr>rw_state := (rw_state example_ready)\<lparr>rt_mode := Ring, rt_writing := True,
                     rt_queue := [Lost (gap_of 1 SinkBackpressure)]\<rparr>,
                   rw_writer := WWriting None (Line ''first''), rw_notices := 3\<rparr>"

definition example_done :: rworld where
  "example_done = (case writer_done (Line ''first'') True (rw_state example_busy) of
     (f, st) \<Rightarrow> locked (example_busy\<lparr>rw_writer := WReady f, rw_out := [Line ''first'']\<rparr>) st)"

text \<open>A writer with nothing to do.\<close>

definition example_parked :: rworld where
  "example_parked =
     \<lparr>rw_state = (router_build 8 8)\<lparr>rt_started := True, rt_sink := False\<rparr>, rw_writer = WParked None,
      rw_notices = 0, rw_written = [], rw_out = []\<rparr>"

lemma example_world_start: "rw_start example_world"
proof -
  have "(8::nat) < U64_MAX" by (simp add: U64_MAX_def)
  then show ?thesis by (auto simp: rw_start_def example_world_def)
qed

lemma example_reached: "reachable rw_start rw_step example_world"
  by (rule reach_start) (rule example_world_start)

lemma example_writes:
  "rw_step\<^sup>*\<^sup>* example_world (example_ready\<lparr>rw_state := (rw_state example_ready)\<lparr>rt_started := False, rt_sink := True\<rparr>,
     rw_writer := WNone\<rparr>)"
proof (rule converse_rtranclp_into_rtranclp)
  have five: "(5::nat) = Suc (Suc (Suc (Suc (Suc 0))))" by simp
  let ?m = "locked (example_world\<lparr>rw_written := [''first'']\<rparr>) (write_record ''first'' (rw_state example_world))"
  show "rw_step example_world ?m"
    using rs_write [of "''first''" example_world] by (simp add: example_world_def U64_MAX_def)
  show "rw_step\<^sup>*\<^sup>* ?m (example_ready\<lparr>rw_state := (rw_state example_ready)\<lparr>rt_started := False, rt_sink := True\<rparr>,
     rw_writer := WNone\<rparr>)"
    using rs_write [of "''second''" ?m]
    by (intro r_into_rtranclp)
      (simp add: example_world_def example_ready_def U64_MAX_def locked_def write_record_def router_build_def
        enqueue_def lose_def sat_add_def wrapping_incr_def gap_of_def numeral_2_eq_2 five)
qed

lemma start_and_spawn:
  assumes "\<not> rt_started (rw_state w)" "rt_sink (rw_state w)"
  shows "rw_step\<^sup>*\<^sup>* w (w\<lparr>rw_state := (rw_state w)\<lparr>rt_started := True, rt_sink := False\<rparr>, rw_writer := WReady None\<rparr>)"
proof (rule converse_rtranclp_into_rtranclp)
  let ?m = "w\<lparr>rw_state := (rw_state w)\<lparr>rt_started := True, rt_sink := False\<rparr>, rw_writer := WSpawning\<rparr>"
  show "rw_step w ?m"
    using rs_start [of w True "(rw_state w)\<lparr>rt_started := True, rt_sink := False\<rparr>"] assms by (simp add: start_writer_def)
  show "rw_step\<^sup>*\<^sup>* ?m (w\<lparr>rw_state := (rw_state w)\<lparr>rt_started := True, rt_sink := False\<rparr>, rw_writer := WReady None\<rparr>)"
    using rs_spawned [of ?m] by (intro r_into_rtranclp) simp
qed

lemma example_ready_reached: "rw_step\<^sup>*\<^sup>* example_world example_ready"
  using rtranclp_trans [OF example_writes start_and_spawn] by (simp add: example_ready_def router_build_def)

lemma example_busy_reached: "reachable rw_start rw_step example_busy"
proof -
  let ?m = "example_ready\<lparr>rw_state := writer_take (rw_state example_ready), rw_writer := WWriting None (Line ''first'')\<rparr>"
  have "reachable rw_start rw_step example_ready"
    by (rule reachable_run [OF example_ready_reached example_reached])
  moreover have "rw_step example_ready ?m"
    using rs_take [of example_ready None] by (simp add: example_ready_def router_build_def writer_choice_def)
  moreover have "rw_step ?m example_busy"
    using rs_enter [of ?m] by (simp add: example_busy_def example_ready_def locked_def enter_ring_def writer_take_def
      router_build_def)
  ultimately show ?thesis by (blast intro: reach_step)
qed

lemma example_parked_reached: "reachable rw_start rw_step example_parked"
proof -
  let ?m = "example_world\<lparr>rw_state := (rw_state example_world)\<lparr>rt_started := True, rt_sink := False\<rparr>, rw_writer := WReady None\<rparr>"
  have "rw_step\<^sup>*\<^sup>* example_world ?m" by (rule start_and_spawn) (simp_all add: example_world_def router_build_def)
  from reachable_run [OF this example_reached] have "reachable rw_start rw_step ?m" .
  moreover have "rw_step ?m example_parked"
    using rs_wait [of ?m None] by (simp add: example_world_def example_parked_def router_build_def writer_choice_def)
  ultimately show ?thesis by (rule reach_step)
qed

lemma example_window: "window_step example_busy example_done"
  using rs_done [of example_busy None "Line ''first''" True]
  by (simp add: window_step_def example_done_def writer_done_def Let_def locked_def)
    (simp add: example_busy_def example_ready_def)

lemma example_window_run: "window_step\<^sup>*\<^sup>* example_busy example_done"
  by (rule r_into_rtranclp) (rule example_window)

theorem window_is_quiet_witness:
  "window_step\<^sup>*\<^sup>* example_busy example_done \<and> rw_out example_done = rw_out example_busy @ [Line ''first''] \<and>
   (\<exists>f. rw_writer example_busy = WWriting f (Line ''first''))"
  using window_is_quiet [OF example_window_run] example_window_run
  by (auto simp: example_done_def example_busy_def example_ready_def writer_done_def Let_def locked_def)

theorem lines_accounted_witness:
  "accounts [Line ''first'', Lost (gap_of 1 SinkBackpressure)] [''first'', ''second'']"
  using lines_accounted [OF example_busy_reached]
  by (simp add: example_busy_def example_ready_def router_build_def ring_with_capacity_def pending_def ring_items_def U64_MAX_def)

theorem router_memory_bounded_witness:
  "rt_queued (rw_state example_busy) = 5 \<and> rt_queued (rw_state example_busy) \<le> 8 \<and>
   sum_list (map item_len (pending example_busy)) = 5"
  using router_memory_bounded [OF example_busy_reached]
  by (simp add: example_busy_def example_ready_def router_build_def pending_def)

theorem no_lost_wakeup_witness:
  "rw_writer example_parked = WParked None \<and> rw_notices example_parked = 0 \<and> rt_queue (rw_state example_parked) = []"
  using no_lost_wakeup [OF example_parked_reached, of None] by (simp add: example_parked_def router_build_def)

theorem queue_is_delivered_witness:
  "\<exists>t. (rw_step ^^ 4) example_ready t \<and> rw_out t = [Line ''first'', Lost (gap_of 1 SinkBackpressure)]"
  using queue_is_delivered [of example_ready None] by (auto simp: example_ready_def router_build_def)

end
