(* ===== verification/AuditSafety.thy ===== *)
theory AuditSafety
  imports LifecycleSafety Router
begin

text \<open>
  The freeze life cycle and the log router together: the hooks \<^verbatim>\<open>on_freezing\<close> and \<^verbatim>\<open>on_thawed\<close> of
  \<^verbatim>\<open>src/handlers/fsfreeze.rs\<close> call \<^verbatim>\<open>Router::enter_ring\<close> and \<^verbatim>\<open>Router::flush_to_normal\<close> of
  \<^verbatim>\<open>src/audit.rs\<close>, and so does \<^verbatim>\<open>run_with\<close> of \<^verbatim>\<open>src/daemon.rs\<close> around serving. \<open>au_step\<close> runs the process, from
  the start of its logging to its way out, beside the router of \<open>Router\<close>, whose mode follows the process.

  Shown: the audit mode is the ring's exactly while the state is not \<^verbatim>\<open>Thawed\<close> (a drain started from
  \<^verbatim>\<open>Thawed\<close> apart); no sink write starts while anything the agent froze is frozen, unless the process is one
  that refused to start and says so on its way out.
\<close>

section \<open>The audit mode of the daemon\<close>

definition ringed :: "('k, 'd) ctx \<Rightarrow> bool" where
  "ringed cx \<longleftrightarrow> cx_audit_ring cx = (fsm_state (cx_state cx) \<noteq> Thawed)"

interpretation hr: hook_property ringed
  by unfold_locales (auto simp: ringed_def same_hooks_def same_watch_def frame_simps on_thawed_def)

fun sys_ringed :: "('k, 'd) sys \<Rightarrow> bool" where
  "sys_ringed (SysIdle cx) \<longleftrightarrow> ringed cx"
| "sys_ringed (SysOp dv q) \<longleftrightarrow> ringed (dv_ctx dv)"
| "sys_ringed (SysThaw cx token t) \<longleftrightarrow> cx_audit_ring cx = (\<not> is_recovery_drain token)"

lemma ringed_start: "sys_start E cx s \<Longrightarrow> sys_ringed s"
  by (auto simp: sys_start_def boot_def start_recovery_def current_state_def ringed_def on_freezing_def frame_simps
      split: if_splits)

lemma ringed_ticks: "ticks (sys_ctx s) cx \<Longrightarrow> sys_ringed (put_ctx cx s) = sys_ringed s"
  by (cases s) (auto simp: ticks_def ringed_def)

lemma finish_ringed:
  assumes "cx_audit_ring cx = (\<not> is_recovery_drain token)"
  shows "ringed (fst (thaw_finish tx token res cx))"
  using assms by (cases res; cases "is_recovery_drain token")
    (auto simp: thaw_finish_def Let_def settle_ops frame_simps ringed_def on_thawed_def slot_defs split: sum.splits)

lemma watchdog_ringed:
  assumes "watchdog_step s s'" "sys_ringed s"
  shows "sys_ringed s'"
  using assms(1)
proof cases
  case (wd_poll h w ev)
  then show ?thesis using assms(2) ringed_ticks [OF ticks_polled] by metis
next
  case (wd_lost m)
  then show ?thesis using assms(2) ringed_ticks [OF ticks_expired] by metis
next
  case (wd_claim cx m token)
  then show ?thesis using assms(2) by (auto simp: expires ringed_def is_recovery_drain_def)
qed

lemma serve_ringed_step:
  assumes "serve_step E s s'" "sys_watch s" "sys_ringed s"
  shows "sys_ringed s'"
  using assms(1)
proof cases
  case (sy_time n)
  then show ?thesis using assms(3) ringed_ticks [OF ticks_now] by metis
next
  case (sy_status rq)
  then show ?thesis using assms(3) ringed_ticks [OF ticks_status] by metis
next
  case sy_arm
  then show ?thesis using assms(3) ringed_ticks [OF ticks_armed] by metis
next
  case sy_watchdog
  then show ?thesis using watchdog_ringed assms(3) by blast
next
  case (sy_freeze i restrict cx cx' dv q)
  from begins [OF sy_freeze(3)] show ?thesis
    using sy_freeze(2) by (simp add: start_op_def ringed_def on_freezing_def slot_defs)
next
  case (sy_op dv q dv' q')
  then have "control_inv (dv, q)" using assms(2) by (simp add: sys_watch_def)
  from hr.op_step_keeps [OF sy_op(3) this] show ?thesis using assms(3) sy_op(1,2) by simp
next
  case (sy_thaw cx cx' token)
  note c = claims [OF sy_thaw(3)]
  then show ?thesis
    using assms(2,3) sy_thaw(1,2) by (auto simp: ringed_def is_recovery_drain_def sys_watch_def)
next
  case (sy_begin token cx cx' held discover)
  then show ?thesis using assms(3) by (auto simp: begin_ctx frame_simps)
next
  case (sy_work entries discover held cx cx' r held' token)
  then show ?thesis
    using assms(3) by (auto simp: thaw_work_def Let_def split: prod.splits if_splits)
next
  case (sy_work_lost_late entries discover held cx cx' r held' token err)
  then show ?thesis
    using assms(3) by (auto simp: thaw_work_def Let_def split: prod.splits if_splits)
next
  case (sy_finish token res cx cx' r)
  then show ?thesis using finish_ringed [of cx token "en_tx E" res] assms(3) by simp
qed (use assms(3) in auto)

lemma sys_ringed_step: "sys_step E s s' \<Longrightarrow> sys_watch s \<Longrightarrow> sys_ringed s \<Longrightarrow> sys_ringed s'"
  by (erule sys_step.cases) (auto intro: serve_ringed_step ringed_start)

definition sys_audit :: "('k, 'd) sys \<Rightarrow> bool" where
  "sys_audit s \<longleftrightarrow> sys_watch s \<and> sys_ringed s"

interpretation sysr: inductive_invariant "\<lambda>s. \<exists>cx. sys_start E cx s" "sys_step E" sys_audit
  by unfold_locales (auto simp: sys_audit_def intro: watch_start ringed_start sys_watch_step sys_ringed_step)

section \<open>The process and its router\<close>

text \<open>
  A process that has its logging up is starting, serving, or on its way out: refused before it served, or
  stopped after. What it leaves in the kernel and in the marker's directory stays.
\<close>

datatype ('k, 'd) process =
    Starting 'k 'd
  | Serving "('k, 'd) sys"
  | Refused 'k 'd
  | Stopped 'k 'd

fun pr_kernel :: "('k, 'd) process \<Rightarrow> 'k" where
  "pr_kernel (Starting k d) = k"
| "pr_kernel (Serving s) = cx_kernel (sys_ctx s)"
| "pr_kernel (Refused k d) = k"
| "pr_kernel (Stopped k d) = k"

fun pr_dir :: "('k, 'd) process \<Rightarrow> 'd" where
  "pr_dir (Starting k d) = d"
| "pr_dir (Serving s) = cx_dir (sys_ctx s)"
| "pr_dir (Refused k d) = d"
| "pr_dir (Stopped k d) = d"

definition is_refused :: "('k, 'd) process \<Rightarrow> bool" where
  "is_refused p = (case p of Refused _ _ \<Rightarrow> True | _ \<Rightarrow> False)"

text \<open>A step of the daemon calls the router when it changes the audit mode; nothing else does.\<close>

definition router_follows :: "bool \<Rightarrow> bool \<Rightarrow> rworld \<Rightarrow> rworld" where
  "router_follows before after w =
     (if after \<and> \<not> before then locked w (enter_ring (rw_state w))
      else if before \<and> \<not> after then locked w (snd (flush_to_normal (rw_state w)))
      else w)"

text \<open>
  Logging starts in the ring when the marker is there, and \<^verbatim>\<open>start_recovery\<close> enters it once more. Every way out
  flushes the ring: a refusal while starting, and the end of serving, which comes in \<^verbatim>\<open>Thawed\<close> only
  (\<^verbatim>\<open>serve_until_signal\<close>).
\<close>

definition entered :: "bool \<Rightarrow> rworld \<Rightarrow> rworld" where
  "entered ring w = (if ring then locked w (enter_ring (rw_state w)) else w)"

definition flushed :: "rworld \<Rightarrow> rworld" where
  "flushed w = locked w (snd (flush_to_normal (rw_state w)))"

definition au_boot :: "('k, 'd) freeze_env \<Rightarrow> 'k \<Rightarrow> 'd \<Rightarrow> ('k, 'd) process \<times> rworld \<Rightarrow> bool" where
  "au_boot E k d x \<longleftrightarrow> (\<exists>w. rw_start w \<and> x = (Starting k d, entered (marker_exists (en_dir E) d (en_marker E)) w))"

inductive au_step :: "('k, 'd) freeze_env \<Rightarrow> ('k, 'd) process \<times> rworld \<Rightarrow> ('k, 'd) process \<times> rworld \<Rightarrow> bool"
  for E :: "('k, 'd) freeze_env" where
  au_log: "rw_step w w' \<Longrightarrow> rt_mode (rw_state w') = rt_mode (rw_state w) \<Longrightarrow> au_step E (p, w) (p, w')"
| au_serve: "sys_start E cx s \<Longrightarrow> cx_kernel cx = k \<Longrightarrow> cx_dir cx = d \<Longrightarrow>
    au_step E (Starting k d, w) (Serving s, entered (cx_audit_ring (sys_ctx s)) w)"
| au_sys: "serve_step E s s' \<Longrightarrow>
    au_step E (Serving s, w) (Serving s', router_follows (cx_audit_ring (sys_ctx s)) (cx_audit_ring (sys_ctx s')) w)"
| au_refused: "au_step E (Starting k d, w) (Refused k d, flushed w)"
| au_stopped: "fsm_state (cx_state (sys_ctx s)) = Thawed \<Longrightarrow>
    au_step E (Serving s, w) (Stopped (cx_kernel (sys_ctx s)) (cx_dir (sys_ctx s)), flushed w)"
| au_restart: "au_boot E (pr_kernel p) (pr_dir p) x \<Longrightarrow> au_step E (p, w) x"

text \<open>The first start of all finds no marker.\<close>

definition au_start :: "('k, 'd) freeze_env \<Rightarrow> 'k \<Rightarrow> 'd \<Rightarrow> ('k, 'd) process \<times> rworld \<Rightarrow> bool" where
  "au_start E k d x \<longleftrightarrow> \<not> marker_exists (en_dir E) d (en_marker E) \<and> au_boot E k d x"

lemma flush_mode: "rt_mode (snd (flush_to_normal st)) = Normal"
  by (simp add: flush_to_normal_def ring_drain_def Let_def)

lemma follows_mode:
  "(rt_mode (rw_state w) = Ring) = before \<Longrightarrow> (rt_mode (rw_state (router_follows before after w)) = Ring) = after"
  by (auto simp: router_follows_def locked_def enter_ring_def flush_mode)

lemma follows_writer [simp]:
  "rw_writer (router_follows before after w) = rw_writer w" "rw_writer (entered ring w) = rw_writer w"
  "rw_writer (flushed w) = rw_writer w"
  by (simp_all add: router_follows_def entered_def flushed_def locked_def)

lemma entered_mode:
  "(rt_mode (rw_state w) = Ring) \<longrightarrow> ring \<Longrightarrow> (rt_mode (rw_state (entered ring w)) = Ring) = ring"
  "rt_mode (rw_state (flushed w)) = Normal"
  by (auto simp: entered_def flushed_def locked_def enter_ring_def flush_mode)

lemma start_mode: "rw_start w \<Longrightarrow> rt_mode (rw_state w) = Normal \<and> rw_writer w = WNone"
  by (auto simp: rw_start_def router_build_def)

text \<open>The mode of the router is that of the process.\<close>

fun ring_of :: "('k, 'd) freeze_env \<Rightarrow> ('k, 'd) process \<Rightarrow> bool" where
  "ring_of E (Starting k d) = marker_exists (en_dir E) d (en_marker E)"
| "ring_of E (Serving s) = cx_audit_ring (sys_ctx s)"
| "ring_of E (Refused k d) = False"
| "ring_of E (Stopped k d) = False"

lemma boot_mode: "au_boot E k d x \<Longrightarrow> \<exists>w. x = (Starting k d, w) \<and> rw_writer w = WNone \<and>
    (rt_mode (rw_state w) = Ring) = marker_exists (en_dir E) d (en_marker E)"
  using start_mode entered_mode(1) by (fastforce simp: au_boot_def)

lemma start_ring: "sys_start E cx s \<Longrightarrow> cx_audit_ring (sys_ctx s) = marker_exists (en_dir E) (cx_dir cx) (en_marker E)"
  by (auto simp: sys_start_def boot_def start_recovery_def current_state_def on_freezing_def frame_simps split: if_splits)

lemma au_mode_step:
  assumes "au_step E (p, w) (p', w')" "(rt_mode (rw_state w) = Ring) = ring_of E p"
  shows "(rt_mode (rw_state w') = Ring) = ring_of E p'"
  using assms(1)
proof cases
  case (au_serve cx s k d)
  then have "ring_of E p = cx_audit_ring (sys_ctx s)" using start_ring by auto
  then show ?thesis using au_serve assms(2) entered_mode(1) [of w] by simp
next
  case (au_sys s s')
  then show ?thesis using assms(2) follows_mode [of w] by simp
next
  case au_restart
  from boot_mode [OF this] show ?thesis by auto
qed (use assms(2) entered_mode(2) [of w] in auto)

lemma au_mode:
  "reachable (au_start E k d) (au_step E) x \<Longrightarrow> (rt_mode (rw_state (snd x)) = Ring) = ring_of E (fst x)"
proof (induction rule: reachable.induct)
  case (reach_start x)
  then have "au_boot E k d x" by (simp add: au_start_def)
  from boot_mode [OF this] show ?case by auto
next
  case (reach_step x y)
  then show ?case using au_mode_step [of E "fst x" "snd x" "fst y" "snd y"] by simp
qed

text \<open>Every process that serves is a run of the life cycle; what others leave behind is what one left.\<close>

definition sys_run :: "('k, 'd) freeze_env \<Rightarrow> 'k \<Rightarrow> 'd \<Rightarrow> ('k, 'd) sys \<Rightarrow> bool" where
  "sys_run E k d s \<longleftrightarrow> (\<exists>cx. cx_kernel cx = k \<and> cx_dir cx = d \<and> reachable (\<lambda>s. first_start E cx s) (sys_step E) s)"

definition left_by :: "('k, 'd) freeze_env \<Rightarrow> 'k \<Rightarrow> 'd \<Rightarrow> (('k, 'd) sys \<Rightarrow> bool) \<Rightarrow> 'k \<Rightarrow> 'd \<Rightarrow> bool" where
  "left_by E k d P k' d' \<longleftrightarrow> (\<exists>s. sys_run E k d s \<and> P s \<and> k' = cx_kernel (sys_ctx s) \<and> d' = cx_dir (sys_ctx s))"

fun au_run_inv :: "('k, 'd) freeze_env \<Rightarrow> 'k \<Rightarrow> 'd \<Rightarrow> ('k, 'd) process \<Rightarrow> bool" where
  "au_run_inv E k d (Starting k' d') \<longleftrightarrow> k' = k \<and> d' = d \<or> left_by E k d (\<lambda>s. True) k' d'"
| "au_run_inv E k d (Serving s) \<longleftrightarrow> sys_run E k d s"
| "au_run_inv E k d (Refused k' d') \<longleftrightarrow> k' = k \<and> d' = d \<or> left_by E k d (\<lambda>s. True) k' d'"
| "au_run_inv E k d (Stopped k' d') \<longleftrightarrow> left_by E k d (\<lambda>s. fsm_state (cx_state (sys_ctx s)) = Thawed) k' d'"

lemma sys_run_step: "sys_run E k d s \<Longrightarrow> sys_step E s s' \<Longrightarrow> sys_run E k d s'"
  unfolding sys_run_def by (blast intro: reachable.reach_step)

lemma au_run_step:
  assumes "au_step E (p, w) (p', w')" "au_run_inv E k d p" "\<not> marker_exists (en_dir E) d (en_marker E)"
  shows "au_run_inv E k d p'"
  using assms(1)
proof cases
  case (au_serve cx s k' d')
  show ?thesis
  proof (cases "k' = k \<and> d' = d")
    case True
    then have "first_start E cx s" using au_serve assms(3) by (simp add: first_start_def)
    then have "sys_run E k d s" using au_serve True unfolding sys_run_def by (blast intro: reachable.reach_start)
    then show ?thesis using au_serve by simp
  next
    case False
    then obtain s0 where s0: "sys_run E k d s0" "k' = cx_kernel (sys_ctx s0)" "d' = cx_dir (sys_ctx s0)"
      using assms(2) au_serve by (auto simp: left_by_def)
    then have "sys_step E s0 s" using au_serve by (intro sy_restart [of E cx]) auto
    then show ?thesis using sys_run_step [OF s0(1)] au_serve by simp
  qed
next
  case (au_sys s s')
  then show ?thesis using assms(2) sys_run_step sy_serve by fastforce
next
  case (au_stopped s)
  then show ?thesis using assms(2) by (auto simp: left_by_def)
next
  case au_restart
  have "au_run_inv E k d (Starting (pr_kernel p) (pr_dir p))"
    using assms(2) by (cases p) (auto simp: left_by_def)
  then show ?thesis using boot_mode [OF au_restart] by auto
qed (use assms(2) in auto)

lemma au_run:
  "reachable (au_start E k d) (au_step E) x \<Longrightarrow> au_run_inv E k d (fst x)"
proof -
  assume r: "reachable (au_start E k d) (au_step E) x"
  have "\<not> marker_exists (en_dir E) d (en_marker E)" using r by (induction rule: reachable.induct) (auto simp: au_start_def)
  with r show ?thesis
  proof (induction rule: reachable.induct)
    case (reach_start x)
    then show ?case using boot_mode [of E k d x] by (auto simp: au_start_def)
  next
    case (reach_step x y)
    then show ?case using au_run_step [of E "fst x" "snd x" "fst y" "snd y"] by simp
  qed
qed

lemma au_step_quiet:
  assumes "au_step E (p, w) (p', w')" "rt_mode (rw_state w) = Ring" "rw_writer w' = WWriting f it"
  shows "rw_writer w = WWriting f it"
  using assms(1)
proof cases
  case au_log
  then have "window_step w w'" using assms(2) by (simp add: window_step_def)
  from window_one [OF this] assms(3) show ?thesis by auto
next
  case au_restart
  then show ?thesis using boot_mode [OF au_restart] assms(3) by auto
qed (use assms(3) in simp_all)

section \<open>Properties\<close>

text \<open>
  The audit mode follows the state: in every reachable state of the daemon the log goes to the ring
  exactly while the state is not \<^verbatim>\<open>Thawed\<close>, except during a drain that a thaw request started from
  \<^verbatim>\<open>Thawed\<close>, when the ring is not in use.
\<close>

theorem audit_mode_follows_state:
  assumes "reachable (\<lambda>s. \<exists>cx. sys_start E cx s) (sys_step E) s"
  shows "cx_audit_ring (sys_ctx s) = (fsm_state (cx_state (sys_ctx s)) \<noteq> Thawed \<and>
    \<not> (\<exists>cx token t. s = SysThaw cx token t \<and> is_recovery_drain token))"
proof -
  have "sys_ringed s" "sys_control s"
    using sysr.inv_reachable [OF assms] by (simp_all add: sys_audit_def sys_watch_def)
  then show ?thesis by (cases s) (auto simp: ringed_def)
qed

text \<open>
  C4. No log output while frozen. Whatever processes ran since a first start, over any number of starts,
  refused starts, stops and kills: whenever some filesystem is frozen that was not before, the router is in
  ring mode and no step from there starts a write to the log's sink. The one exception is a process that
  refused to start and is on its way out, whose flush reports the refusal. Proved for the repository's
  kernel double, a POSIX directory and a mount table that lists the same eligible superblocks whenever it is
  read.
\<close>

theorem no_sink_write_while_frozen:
  assumes "reachable (au_start E k d) (au_step E) (p, w)" and "fake_tracking k"
    and "en_kernel E = fake_kernel" and "posix_dir (en_dir E)" and "stable_mounts E D"
    and "0 < fake_depth (pr_kernel p) dev" and "fake_depth k dev = 0" and "\<not> is_refused p"
  shows "rt_mode (rw_state w) = Ring \<and>
    (\<forall>p' w' f it. au_step E (p, w) (p', w') \<and> rw_writer w' = WWriting f it \<longrightarrow> rw_writer w = WWriting f it)"
proof -
  have inv: "au_run_inv E k d p" using au_run [OF assms(1)] by simp
  have "ring_of E p"
  proof (cases p)
    case (Starting k' d')
    with inv assms(6,7) obtain s cx where s: "cx_kernel cx = k" "reachable (\<lambda>s. first_start E cx s) (sys_step E) s"
      "k' = cx_kernel (sys_ctx s)" "d' = cx_dir (sys_ctx s)" by (auto simp: left_by_def sys_run_def)
    then have "fake.sys_safe E {d. 0 < fake_depth k d} D s" using fake.sys_safe_reachable assms(2-5) by metis
    then have "marker_exists (en_dir E) d' (en_marker E) \<or> fake_depth k' dev = 0"
      using s(3,4) assms(7) accountedD [of fake_depth "{d. 0 < fake_depth k d}" k' "[]" dev]
      by (auto simp: fake.sys_safe_def fake.marked_def)
    then show ?thesis using Starting assms(6) by simp
  next
    case (Serving s)
    with inv obtain cx where s: "cx_kernel cx = k" "reachable (\<lambda>s. first_start E cx s) (sys_step E) s"
      by (auto simp: sys_run_def)
    have "\<not> (fsm_state (cx_state (sys_ctx s)) = Thawed \<or> (\<exists>cx token t. s = SysThaw cx token t \<and> is_recovery_drain token))"
      using released [OF s(2), of D dev] s(1) assms(2-7) Serving by auto
    moreover have "sys_ringed s" using sysr.inv_reachable [OF any_start [OF s(2)]] by (simp add: sys_audit_def)
    ultimately show ?thesis using Serving by (cases s) (auto simp: ringed_def)
  next
    case (Stopped k' d')
    with inv obtain s cx where s: "cx_kernel cx = k" "reachable (\<lambda>s. first_start E cx s) (sys_step E) s"
      "fsm_state (cx_state (sys_ctx s)) = Thawed" "k' = cx_kernel (sys_ctx s)" by (auto simp: left_by_def sys_run_def)
    then show ?thesis using released [OF s(2), of D dev] assms(2-7) Stopped by auto
  qed (use assms(8) in \<open>simp add: is_refused_def\<close>)
  then have "rt_mode (rw_state w) = Ring" using au_mode [OF assms(1)] by simp
  then show ?thesis using au_step_quiet by blast
qed

text \<open>A refused start is not silent: its router is in normal mode, whatever is frozen.\<close>

lemma refused_reports:
  assumes "reachable (au_start E k d) (au_step E) (Refused k' d', w)"
  shows "rt_mode (rw_state w) = Normal"
  using au_mode [OF assms] by (cases "rt_mode (rw_state w)") auto

section \<open>Witnesses\<close>

theorem audit_mode_follows_state_witness: "cx_audit_ring recovery_ctx \<and> \<not> cx_audit_ring thawed_ctx"
proof -
  have "fsm_state (cx_state thawed_ctx) = Thawed" by code_simp
  then show ?thesis
    using audit_mode_follows_state [OF any_start [OF recovery_reachable]]
      audit_mode_follows_state [OF any_start [OF thawed_reachable]] recovery_watched(1)
    by simp
qed

lemma au_sys_run:
  assumes "reachable (\<lambda>s. first_start E cx s) (sys_step E) s" "rw_start w0"
  shows "\<exists>w. reachable (au_start E (cx_kernel cx) (cx_dir cx)) (au_step E) (Serving s, w)"
  using assms(1)
proof (induction rule: reachable.induct)
  case (reach_start s)
  then have f: "\<not> marker_exists (en_dir E) (cx_dir cx) (en_marker E)" "sys_start E cx s" by (simp_all add: first_start_def)
  then have "au_start E (cx_kernel cx) (cx_dir cx) (Starting (cx_kernel cx) (cx_dir cx), w0)"
    using assms(2) by (auto simp: au_start_def au_boot_def entered_def)
  then show ?case using au_serve [OF f(2) refl refl] by (blast intro: reachable.intros)
next
  case (reach_step s t)
  then obtain w where w: "reachable (au_start E (cx_kernel cx) (cx_dir cx)) (au_step E) (Serving s, w)" by blast
  from reach_step(2) show ?case
  proof cases
    case sy_serve
    then show ?thesis using w au_sys by (blast intro: reachable.reach_step)
  next
    case (sy_restart cx')
    have "au_boot E (pr_kernel (Serving s)) (pr_dir (Serving s)) (Starting (pr_kernel (Serving s)) (pr_dir (Serving s)),
        entered (marker_exists (en_dir E) (pr_dir (Serving s)) (en_marker E)) w0)"
      using assms(2) by (auto simp: au_boot_def)
    from reachable.reach_step [OF w au_restart [OF this]] show ?thesis
      using au_serve [OF sy_restart] by (auto intro: reachable.reach_step)
  qed
qed

theorem no_sink_write_while_frozen_witness:
  "\<exists>w. reachable (au_start example_env (cx_kernel clean_ctx) (cx_dir clean_ctx)) (au_step example_env)
     (Serving (SysIdle recovery_ctx), w) \<and> rt_mode (rw_state w) = Ring"
proof -
  obtain w where w: "reachable (au_start example_env (cx_kernel clean_ctx) (cx_dir clean_ctx)) (au_step example_env)
      (Serving (SysIdle recovery_ctx), w)"
    using au_sys_run [OF recovery_reachable example_world_start] by blast
  have "fake_depth (cx_kernel recovery_ctx) (8, 1) = 1" by code_simp
  then show ?thesis
    using no_sink_write_while_frozen [OF w clean_fixtures(1-4), of "(8, 1)"] clean_fixtures(5) w
    by (auto simp: is_refused_def)
qed

end
