(* ===== verification/Channel.thy ===== *)
theory Channel
  imports Dispatch "HOL-Library.Sublist"
begin

text \<open>
  \<^verbatim>\<open>src/channel.rs\<close>: opening the device, the lanes and the admission of commands, the outbox, and the
  session loop.

  The session is a step relation. \<open>session_top\<close> is the synchronous part of one iteration of
  \<^verbatim>\<open>run_session_until\<close>, from the top of the loop to its \<^verbatim>\<open>select!\<close>; a rule per branch of the
  \<^verbatim>\<open>select!\<close> follows. The handler is the trait \<^verbatim>\<open>Handle\<close>: \<open>classify\<close> is a parameter, every call of
  \<^verbatim>\<open>may_stop\<close> answers as it likes (the state it reads is changed by other tasks), and a running command
  finishes whenever and with whatever reply it likes. The biased order of the branches is not used: any
  branch that is ready may be taken. Histories record the bytes read, the events decoded, the reply each
  command gave, the replies that left the queue and the bytes the host accepted.

  Shown: the bytes the host accepts are those of the replies in request order; the lanes exclude each
  other as documented and serial commands run in request order; the queue is bounded; a session ends
  with no command running, and after the end of its input with every command handled; the \<^verbatim>\<open>else\<close> branch
  is never taken; how the pause between sessions is bounded.
\<close>

section \<open>Opening the device\<close>

text \<open>Delays in milliseconds.\<close>

definition INITIAL_BACKOFF :: nat where
  "INITIAL_BACKOFF = 1000"

definition MAX_BACKOFF :: nat where
  "MAX_BACKOFF = 30000"

definition READ_CHUNK :: nat where
  "READ_CHUNK = 4096"

text \<open>\<^verbatim>\<open>io::Error\<close>: its raw error number, if it has one, and its text.\<close>

type_synonym io_error = "errno option \<times> string"

datatype open_error =
    AlreadyOpen path
  | NotFound path
  | OpenIo path io_error

definition open_error_text :: "open_error \<Rightarrow> string" where
  "open_error_text e =
     (case e of
        AlreadyOpen p \<Rightarrow> ''channel_already_open: '' @ p @ '' is held by another process''
      | NotFound p \<Rightarrow> ''channel '' @ p @ '' not found''
      | OpenIo p src \<Rightarrow> ''cannot open channel '' @ p @ '': '' @ snd src)"

definition open_error_from_io :: "path \<Rightarrow> io_error \<Rightarrow> open_error" where
  "open_error_from_io p src =
     (if fst src = Some EBUSY then AlreadyOpen p
      else if fst src = Some ENOENT then NotFound p
      else OpenIo p src)"

definition is_terminal :: "open_error \<Rightarrow> bool" where
  "is_terminal e = (case e of AlreadyOpen _ \<Rightarrow> True | _ \<Rightarrow> False)"

text \<open>
  The descriptor calls: \<^verbatim>\<open>open\<close>, and \<^verbatim>\<open>from_fd\<close>'s \<^verbatim>\<open>F_GETFL\<close>, \<^verbatim>\<open>F_SETFL\<close> and registration with the
  reactor, each of which may fail.
\<close>

record fd_answers =
  fa_open :: "(io_error, fd) result"
  fa_getfl :: "(io_error, unit) result"
  fa_setfl :: "(io_error, unit) result"
  fa_register :: "(io_error, unit) result"

definition from_fd :: "fd_answers \<Rightarrow> fd \<Rightarrow> (io_error, fd) result" where
  "from_fd fa f =
     (case fa_getfl fa of
        Err e \<Rightarrow> Err e
      | Ok _ \<Rightarrow> (case fa_setfl fa of
                  Err e \<Rightarrow> Err e
                | Ok _ \<Rightarrow> (case fa_register fa of Err e \<Rightarrow> Err e | Ok _ \<Rightarrow> Ok f)))"

definition open_with :: "path \<Rightarrow> fd_answers \<Rightarrow> (open_error, fd) result" where
  "open_with p fa =
     (case fa_open fa of
        Err e \<Rightarrow> Err (open_error_from_io p e)
      | Ok f \<Rightarrow> (case from_fd fa f of Err e \<Rightarrow> Err (open_error_from_io p e) | Ok c \<Rightarrow> Ok c))"

section \<open>Lanes\<close>

definition MAX_CONTROLS :: nat where
  "MAX_CONTROLS = 3"

definition MAX_QUEUED :: nat where
  "MAX_QUEUED = 8"

definition MAX_REPLY_BYTES :: nat where
  "MAX_REPLY_BYTES = 64 * 1024"

datatype session_end =
    Cancelled
  | Eof
  | ReadError io_error
  | WriteError io_error

definition session_end_text :: "session_end \<Rightarrow> string" where
  "session_end_text e =
     (case e of
        Eof \<Rightarrow> ''eof'' | Cancelled \<Rightarrow> ''cancelled''
      | ReadError err \<Rightarrow> ''read error: '' @ snd err | WriteError err \<Rightarrow> ''write error: '' @ snd err)"

text \<open>A running command keeps its event in the model; its future is otherwise opaque.\<close>

datatype slot =
    Waiting kind decode_event
  | Pending kind decode_event
  | Done "bytes option"

definition drive_any :: "(nat \<Rightarrow> bytes option option) \<Rightarrow> slot list \<Rightarrow> slot list" where
  "drive_any ready slots =
     map (\<lambda>(i, s). case s of
            Pending k ev \<Rightarrow> (case ready i of Some reply \<Rightarrow> Done reply | None \<Rightarrow> s)
          | _ \<Rightarrow> s) (enumerate 0 slots)"

record lanes =
  ln_controls :: nat
  ln_freeze :: bool
  ln_thaw_or_ordinary :: bool

definition lanes_default :: lanes where
  "lanes_default = \<lparr>ln_controls = 0, ln_freeze = False, ln_thaw_or_ordinary = False\<rparr>"

definition lanes_take :: "kind \<Rightarrow> lanes \<Rightarrow> lanes" where
  "lanes_take k l =
     (case k of
        Control \<Rightarrow> l\<lparr>ln_controls := ln_controls l + 1\<rparr>
      | Freeze \<Rightarrow> l\<lparr>ln_freeze := True\<rparr>
      | Thaw \<Rightarrow> l\<lparr>ln_thaw_or_ordinary := True\<rparr>
      | Ordinary \<Rightarrow> l\<lparr>ln_thaw_or_ordinary := True\<rparr>)"

definition lanes_of :: "slot list \<Rightarrow> lanes" where
  "lanes_of slots = fold (\<lambda>s l. case s of Pending k _ \<Rightarrow> lanes_take k l | _ \<Rightarrow> l) slots lanes_default"

definition lanes_exclusive :: "lanes \<Rightarrow> bool" where
  "lanes_exclusive l \<longleftrightarrow> ln_freeze l \<or> ln_thaw_or_ordinary l"

definition lane_free :: "lanes \<Rightarrow> bool \<Rightarrow> kind \<Rightarrow> bool" where
  "lane_free l serial_waiting k =
     (case k of
        Control \<Rightarrow> ln_controls l < MAX_CONTROLS
      | Thaw \<Rightarrow> \<not> ln_thaw_or_ordinary l
      | Freeze \<Rightarrow> \<not> lanes_exclusive l \<and> \<not> serial_waiting
      | Ordinary \<Rightarrow> \<not> lanes_exclusive l \<and> \<not> serial_waiting)"

fun admit_loop :: "lanes \<Rightarrow> bool \<Rightarrow> nat \<Rightarrow> slot list \<Rightarrow> slot list" where
  "admit_loop l serial_waiting 0 slots = slots"
| "admit_loop l serial_waiting (Suc n) [] = []"
| "admit_loop l serial_waiting (Suc n) (Waiting k ev # slots) =
     (if lane_free l serial_waiting k
      then Pending k ev # admit_loop (lanes_take k l) serial_waiting n slots
      else Waiting k ev # admit_loop l (serial_waiting \<or> k \<noteq> Control) n slots)"
| "admit_loop l serial_waiting (Suc n) (s # slots) = s # admit_loop l serial_waiting n slots"

definition admit :: "nat \<Rightarrow> slot list \<Rightarrow> slot list" where
  "admit window slots = admit_loop (lanes_of slots) False window slots"

section \<open>The outbox\<close>

record outbox =
  ob_replies :: "bytes list"
  ob_written :: nat
  ob_pending :: nat

definition outbox_new :: outbox where
  "outbox_new = \<lparr>ob_replies = [], ob_written = 0, ob_pending = 0\<rparr>"

definition outbox_push :: "bytes \<Rightarrow> outbox \<Rightarrow> outbox" where
  "outbox_push reply ob = ob\<lparr>ob_pending := ob_pending ob + length reply, ob_replies := ob_replies ob @ [reply]\<rparr>"

definition outbox_abandon :: "outbox \<Rightarrow> outbox" where
  "outbox_abandon ob = ob\<lparr>ob_replies := [], ob_written := 0, ob_pending := 0\<rparr>"

text \<open>
  One poll of \<^verbatim>\<open>drain\<close>. The answers of \<^verbatim>\<open>poll_write\<close> are a list, which ends where the writer is not ready;
  \<^verbatim>\<open>Channel\<close>'s \<^verbatim>\<open>poll_flush\<close> is always ready. Beside the outbox the result has the bytes accepted and the
  poll's own result, \<open>None\<close> when it is pending.
\<close>

datatype write_answer = Accept nat | Refuse io_error

definition WRITE_ZERO :: io_error where
  "WRITE_ZERO = (None, ''write zero'')"

definition outbox_accept :: "nat \<Rightarrow> outbox \<Rightarrow> outbox" where
  "outbox_accept n ob =
     (let written = ob_written ob + n; ob = ob\<lparr>ob_written := written, ob_pending := ob_pending ob - n\<rparr>
      in if written = length (hd (ob_replies ob)) then ob\<lparr>ob_replies := tl (ob_replies ob), ob_written := 0\<rparr> else ob)"

fun outbox_drain :: "write_answer list \<Rightarrow> outbox \<Rightarrow> bytes \<times> outbox \<times> (io_error, unit) result option" where
  "outbox_drain [] ob = ([], ob, if ob_replies ob = [] then Some (Ok ()) else None)"
| "outbox_drain (Refuse e # answers) ob = ([], ob, if ob_replies ob = [] then Some (Ok ()) else Some (Err e))"
| "outbox_drain (Accept n # answers) ob =
     (if ob_replies ob = [] then ([], ob, Some (Ok ()))
      else if n = 0 then ([], ob, Some (Err WRITE_ZERO))
      else let taken = take n (drop (ob_written ob) (hd (ob_replies ob)));
               (more, ob, r) = outbox_drain answers (outbox_accept n ob)
           in (taken @ more, ob, r))"

text \<open>\<^verbatim>\<open>poll_write\<close> accepts at most what it is given.\<close>

fun valid_writes :: "write_answer list \<Rightarrow> outbox \<Rightarrow> bool" where
  "valid_writes [] ob = True"
| "valid_writes (Refuse e # answers) ob = True"
| "valid_writes (Accept n # answers) ob \<longleftrightarrow> ob_replies ob = [] \<or>
     n \<le> length (hd (ob_replies ob)) - ob_written ob \<and> valid_writes answers (outbox_accept n ob)"

section \<open>The session\<close>

text \<open>A \<^verbatim>\<open>watch\<close> receiver: the value, whether it was seen, whether the sender is gone.\<close>

record cancel =
  cn_value :: bool
  cn_seen :: bool
  cn_closed :: bool

record session =
  ss_slots :: "slot list"
  ss_outbox :: outbox
  ss_decoder :: frame_decoder
  ss_received :: nat
  ss_input_end :: "session_end option"
  ss_write_failed :: bool
  ss_draining :: bool
  ss_cancel_live :: bool
  ss_cancel :: cancel

definition session_new :: "cancel \<Rightarrow> session" where
  "session_new cn =
     \<lparr>ss_slots = [], ss_outbox = outbox_new, ss_decoder = new_decoder, ss_received = 0, ss_input_end = None,
      ss_write_failed = False, ss_draining = False, ss_cancel_live = True, ss_cancel = cn\<rparr>"

definition is_pending :: "slot \<Rightarrow> bool" where
  "is_pending s = (case s of Pending _ _ \<Rightarrow> True | _ \<Rightarrow> False)"

definition running :: "slot list \<Rightarrow> bool" where
  "running slots = list_ex is_pending slots"

text \<open>The finished commands at the front leave; a reply goes to the outbox unless the writer failed.\<close>

fun pop_done :: "bool \<Rightarrow> slot list \<Rightarrow> outbox \<Rightarrow> slot list \<times> outbox \<times> bytes option list" where
  "pop_done failed (Done r # slots) ob =
     (let ob = (case r of Some reply \<Rightarrow> if failed then ob else outbox_push reply ob | None \<Rightarrow> ob);
          (slots, ob, popped) = pop_done failed slots ob
      in (slots, ob, r # popped))"
| "pop_done failed slots ob = (slots, ob, [])"

definition finished_bytes :: "slot list \<Rightarrow> nat" where
  "finished_bytes slots = sum_list (map (\<lambda>s. case s of Done (Some reply) \<Rightarrow> length reply | _ \<Rightarrow> 0) slots)"

definition can_read :: "session \<Rightarrow> bool" where
  "can_read s \<longleftrightarrow> ss_input_end s = None \<and> \<not> ss_draining s \<and>
     length (ss_slots s) + length (ob_replies (ss_outbox s)) < MAX_QUEUED \<and>
     ob_pending (ss_outbox s) + finished_bytes (ss_slots s) < MAX_REPLY_BYTES"

definition can_write :: "session \<Rightarrow> bool" where
  "can_write s \<longleftrightarrow> ob_replies (ss_outbox s) \<noteq> [] \<and> \<not> ss_write_failed s"

datatype flow = Return session_end | Select bool bool bool

text \<open>
  From the top of the loop to the \<^verbatim>\<open>select!\<close>: what to return, or which branches are enabled (running,
  writing, reading). \<open>stop1\<close> and \<open>stop2\<close> are the answers of the two calls of \<^verbatim>\<open>may_stop\<close>.
\<close>

definition pop_stage :: "session \<Rightarrow> session \<times> bytes option list" where
  "pop_stage s =
     (let (slots, ob, popped) = pop_done (ss_write_failed s) (ss_slots s) (ss_outbox s)
      in (s\<lparr>ss_slots := slots, ss_outbox := ob\<rparr>, popped))"

definition stop_stage :: "bool \<Rightarrow> session \<Rightarrow> session" where
  "stop_stage stop1 s =
     (if \<not> ss_draining s \<and> \<not> running (ss_slots s)
      then s\<lparr>ss_cancel := (ss_cancel s)\<lparr>cn_seen := True\<rparr>, ss_draining := cn_value (ss_cancel s) \<and> stop1\<rparr>
      else s)"

definition admit_stage :: "session \<Rightarrow> session" where
  "admit_stage s =
     (if \<not> ss_draining s \<and> ob_pending (ss_outbox s) < MAX_REPLY_BYTES
      then s\<lparr>ss_slots := admit (MAX_QUEUED - length (ob_replies (ss_outbox s))) (ss_slots s)\<rparr> else s)"

definition select_stage :: "session \<Rightarrow> session \<times> flow" where
  "select_stage s =
     (case ss_input_end s of
        Some e \<Rightarrow>
          if \<not> running (ss_slots s) \<and> ss_slots s = [] \<and> (ob_replies (ss_outbox s) = [] \<or> ss_write_failed s)
          then (s\<lparr>ss_input_end := None\<rparr>, Return e)
          else (s, Select (running (ss_slots s)) (can_write s) (can_read s))
      | None \<Rightarrow> (s, Select (running (ss_slots s)) (can_write s) (can_read s)))"

definition session_top :: "bool \<Rightarrow> bool \<Rightarrow> session \<Rightarrow> session \<times> bytes option list \<times> flow" where
  "session_top stop1 stop2 s0 =
     (let (s, popped) = pop_stage s0;
          s = stop_stage stop1 s
      in if ss_draining s \<and> \<not> running (ss_slots s)
         then if stop2 then (s, popped, Return Cancelled)
              else let (s, fl) = select_stage (admit_stage (s\<lparr>ss_draining := False\<rparr>)) in (s, popped, fl)
         else let (s, fl) = select_stage (admit_stage s) in (s, popped, fl))"

text \<open>\<^verbatim>\<open>stop_now\<close>, on the cancellation's value and the handler's answer.\<close>

definition stop_now :: "bool \<Rightarrow> bool \<Rightarrow> bool" where
  "stop_now cancelled may_stop \<longleftrightarrow> cancelled \<and> may_stop"

definition changed_branch :: "bool \<Rightarrow> session \<Rightarrow> session" where
  "changed_branch stop s =
     s\<lparr>ss_cancel_live := \<not> cn_seen (ss_cancel s),
       ss_draining := ss_draining s \<or> stop_now (cn_value (ss_cancel s)) stop,
       ss_cancel := (ss_cancel s)\<lparr>cn_seen := True\<rparr>\<rparr>"

definition written_branch :: "outbox \<Rightarrow> (io_error, unit) result \<Rightarrow> session \<Rightarrow> session" where
  "written_branch ob r s =
     (case r of
        Ok _ \<Rightarrow> s\<lparr>ss_outbox := ob\<rparr>
      | Err e \<Rightarrow> s\<lparr>ss_write_failed := True, ss_outbox := outbox_abandon ob,
                   ss_input_end := get_or_insert (ss_input_end s) (WriteError e)\<rparr>)"

definition read_branch :: "(decode_event \<Rightarrow> kind) \<Rightarrow> (io_error, bytes) result \<Rightarrow> session \<Rightarrow> session \<times> decode_event list" where
  "read_branch cls r s =
     (case r of
        Err e \<Rightarrow> (s\<lparr>ss_input_end := Some (ReadError e)\<rparr>, [])
      | Ok bs \<Rightarrow>
          if bs = [] then (s\<lparr>ss_input_end := Some Eof\<rparr>, [])
          else (let (d, evs) = push (ss_decoder s) bs
                in (s\<lparr>ss_received := ss_received s + length bs, ss_decoder := d,
                      ss_slots := ss_slots s @ map (\<lambda>ev. Waiting (cls ev) ev) evs\<rparr>, evs)))"

datatype session_pc = AtTop | AtSelect bool bool bool | Ended session_end

record sworld =
  sw_session :: session
  sw_pc :: session_pc
  sw_input :: bytes
  sw_events :: "decode_event list"
  sw_answers :: "nat \<Rightarrow> bytes option option"
  sw_popped :: "bytes option list"
  sw_sent :: bytes

definition sw_start :: "sworld \<Rightarrow> bool" where
  "sw_start w \<longleftrightarrow>
     (\<exists>cn. w = \<lparr>sw_session = session_new cn, sw_pc = AtTop, sw_input = [], sw_events = [], sw_answers = (\<lambda>_. None),
               sw_popped = [], sw_sent = []\<rparr>)"

text \<open>The replies given in one poll, by request number.\<close>

definition record_answers :: "nat \<Rightarrow> (nat \<Rightarrow> bytes option option) \<Rightarrow> slot list \<Rightarrow> (nat \<Rightarrow> bytes option option)
    \<Rightarrow> (nat \<Rightarrow> bytes option option)" where
  "record_answers base ready slots answers =
     (\<lambda>i. if base \<le> i \<and> i < base + length slots \<and> is_pending (slots ! (i - base)) \<and> ready (i - base) \<noteq> None
          then ready (i - base) else answers i)"

inductive sw_step :: "(decode_event \<Rightarrow> kind) \<Rightarrow> sworld \<Rightarrow> sworld \<Rightarrow> bool" for cls :: "decode_event \<Rightarrow> kind" where
  st_top: "sw_pc w = AtTop \<Longrightarrow> session_top stop1 stop2 (sw_session w) = (s, popped, Select r cw cr) \<Longrightarrow>
    sw_step cls w (w\<lparr>sw_session := s, sw_popped := sw_popped w @ popped, sw_pc := AtSelect r cw cr\<rparr>)"
| st_return: "sw_pc w = AtTop \<Longrightarrow> session_top stop1 stop2 (sw_session w) = (s, popped, Return e) \<Longrightarrow> e \<noteq> Cancelled \<Longrightarrow>
    sw_step cls w (w\<lparr>sw_session := s, sw_popped := sw_popped w @ popped, sw_pc := Ended e\<rparr>)"
| st_cancelled: "sw_pc w = AtTop \<Longrightarrow> session_top stop1 stop2 (sw_session w) = (s, popped, Return Cancelled) \<Longrightarrow>
    valid_writes answers (ss_outbox s) \<Longrightarrow>
    (sent, ob, r) = (if can_write s then outbox_drain answers (ss_outbox s) else ([], ss_outbox s, None)) \<Longrightarrow>
    sw_step cls w (w\<lparr>sw_session := s\<lparr>ss_outbox := ob\<rparr>, sw_popped := sw_popped w @ popped,
                     sw_sent := sw_sent w @ sent, sw_pc := Ended Cancelled\<rparr>)"
| st_changed: "sw_pc w = AtSelect r cw cr \<Longrightarrow> ss_cancel_live (sw_session w) \<Longrightarrow>
    \<not> cn_seen (ss_cancel (sw_session w)) \<or> cn_closed (ss_cancel (sw_session w)) \<Longrightarrow>
    sw_step cls w (w\<lparr>sw_session := changed_branch stop (sw_session w), sw_pc := AtTop\<rparr>)"
| st_drive: "sw_pc w = AtSelect True cw cr \<Longrightarrow> slots = ss_slots (sw_session w) \<Longrightarrow>
    \<exists>i < length slots. is_pending (slots ! i) \<and> ready i \<noteq> None \<Longrightarrow>
    sw_step cls w (w\<lparr>sw_session := (sw_session w)\<lparr>ss_slots := drive_any ready slots\<rparr>,
                     sw_answers := record_answers (length (sw_popped w)) ready slots (sw_answers w), sw_pc := AtTop\<rparr>)"
| st_written: "sw_pc w = AtSelect r True cr \<Longrightarrow> valid_writes answers (ss_outbox (sw_session w)) \<Longrightarrow>
    outbox_drain answers (ss_outbox (sw_session w)) = (sent, ob, Some res) \<Longrightarrow>
    sw_step cls w (w\<lparr>sw_session := written_branch ob res (sw_session w), sw_sent := sw_sent w @ sent, sw_pc := AtTop\<rparr>)"
| st_partial: "sw_pc w = AtSelect r True cr \<Longrightarrow> valid_writes answers (ss_outbox (sw_session w)) \<Longrightarrow>
    outbox_drain answers (ss_outbox (sw_session w)) = (sent, ob, None) \<Longrightarrow>
    sw_step cls w (w\<lparr>sw_session := (sw_session w)\<lparr>ss_outbox := ob\<rparr>, sw_sent := sw_sent w @ sent\<rparr>)"
| st_read: "sw_pc w = AtSelect r cw True \<Longrightarrow> (\<forall>bs. res = Inr bs \<longrightarrow> length bs \<le> READ_CHUNK) \<Longrightarrow>
    read_branch cls res (sw_session w) = (s, evs) \<Longrightarrow>
    sw_step cls w (w\<lparr>sw_session := s, sw_events := sw_events w @ evs,
                     sw_input := sw_input w @ (case res of Inr bs \<Rightarrow> bs | Inl _ \<Rightarrow> []), sw_pc := AtTop\<rparr>)"
| st_else: "sw_pc w = AtSelect False False False \<Longrightarrow> \<not> ss_cancel_live (sw_session w) \<Longrightarrow>
    sw_step cls w (w\<lparr>sw_pc := Ended (case ss_input_end (sw_session w) of Some e \<Rightarrow> e | None \<Rightarrow> Eof)\<rparr>)"
| st_signal: "sw_step cls w (w\<lparr>sw_session := (sw_session w)\<lparr>ss_cancel :=
    (ss_cancel (sw_session w))\<lparr>cn_value := v, cn_seen := False\<rparr>\<rparr>\<rparr>)"
| st_close: "sw_step cls w (w\<lparr>sw_session := (sw_session w)\<lparr>ss_cancel := (ss_cancel (sw_session w))\<lparr>cn_closed := True\<rparr>\<rparr>\<rparr>)"

section \<open>Between sessions\<close>

text \<open>
  \<^verbatim>\<open>open_with_retry\<close> against a list of what the outside does: per attempt the answers to the open, whether the
  sleep that follows was cut short by \<^verbatim>\<open>changed()\<close> (and whether that failed), and the cancellation's value
  afterwards. \<open>None\<close> means that it is still trying when the list ends; the second component is the delays
  slept.
\<close>

record attempt =
  at_open :: fd_answers
  at_changed :: "bool option"
  at_cancel :: bool

fun retry_loop :: "path \<Rightarrow> nat \<Rightarrow> attempt list \<Rightarrow> (open_error, fd option) result option \<times> nat list" where
  "retry_loop p delay [] = (None, [])"
| "retry_loop p delay (a # as) =
     (case open_with p (at_open a) of
        Inr c \<Rightarrow> (Some (Ok (Some c)), [])
      | Inl e \<Rightarrow>
          if is_terminal e then (Some (Err e), [])
          else if at_changed a = Some False \<or> at_cancel a then (Some (Ok None), [delay])
          else (let (r, ds) = retry_loop p (min (delay * 2) MAX_BACKOFF) as in (r, delay # ds)))"

definition open_with_retry :: "path \<Rightarrow> attempt list \<Rightarrow> (open_error, fd option) result option \<times> nat list" where
  "open_with_retry p as = retry_loop p INITIAL_BACKOFF as"

record backoff =
  bo_initial :: nat
  bo_max :: nat

definition backoff_default :: backoff where
  "backoff_default = \<lparr>bo_initial = INITIAL_BACKOFF, bo_max = MAX_BACKOFF\<rparr>"

text \<open>\<^verbatim>\<open>(reopen_delay * 2).clamp(initial, max)\<close> unless the session carried data.\<close>

definition next_delay :: "backoff \<Rightarrow> nat \<Rightarrow> nat \<Rightarrow> nat" where
  "next_delay bo received delay =
     (if received > 0 then bo_initial bo else min (max (delay * 2) (bo_initial bo)) (bo_max bo))"

text \<open>
  One iteration of \<^verbatim>\<open>serve_inner\<close>: the descriptor of the first session, if it is still there, the pause
  before the next open and whether the sender lives; then what the outside does, the value of the cancellation
  and the handler's answer each time they are read.
\<close>

record serve =
  sv_initial :: "fd option"
  sv_delay :: nat
  sv_cancel_live :: bool

record serve_answers =
  sa_cancel_top :: bool
  sa_may_stop_top :: bool
  sa_changed :: "bool option"
  sa_cancel_changed :: bool
  sa_may_stop_changed :: bool
  sa_from_fd :: "(io_error, fd) result"
  sa_retry :: "(open_error, fd option) result"
  sa_may_stop :: bool
  sa_end :: session_end
  sa_received :: nat

datatype serve_flow = Again serve | Stopped "(open_error, unit) result"

definition serve_session :: "backoff \<Rightarrow> serve_answers \<Rightarrow> serve \<Rightarrow> serve_flow" where
  "serve_session bo sa sv =
     (if sa_end sa = Cancelled then Stopped (Ok ())
      else Again (sv\<lparr>sv_delay := next_delay bo (sa_received sa) (sv_delay sv)\<rparr>))"

definition serve_iteration :: "backoff \<Rightarrow> serve_answers \<Rightarrow> serve \<Rightarrow> serve_flow" where
  "serve_iteration bo sa sv0 =
     (if stop_now (sa_cancel_top sa) (sa_may_stop_top sa) then Stopped (Ok ())
      else
        let woken = sv_delay sv0 \<noteq> 0 \<and> sv_cancel_live sv0 \<and> sa_changed sa \<noteq> None;
            sv = (if woken then sv0\<lparr>sv_cancel_live := (sa_changed sa = Some True)\<rparr> else sv0)
        in if woken \<and> stop_now (sa_cancel_changed sa) (sa_may_stop_changed sa) then Stopped (Ok ())
           else case sv_initial sv of
             Some f \<Rightarrow>
               (let sv = sv\<lparr>sv_initial := None\<rparr> in
                case sa_from_fd sa of
                  Inl _ \<Rightarrow> Again sv
                | Inr _ \<Rightarrow> serve_session bo sa sv)
           | None \<Rightarrow>
               (case sa_retry sa of
                  Inl e \<Rightarrow> Stopped (Err e)
                | Inr None \<Rightarrow> if sa_may_stop sa then Stopped (Ok ()) else Again sv
                | Inr (Some _) \<Rightarrow> serve_session bo sa sv))"

section \<open>The outbox delivers in order\<close>

definition reply_bytes :: "bytes option \<Rightarrow> bytes" where
  "reply_bytes r = (case r of Some b \<Rightarrow> b | None \<Rightarrow> [])"

definition ob_ok :: "outbox \<Rightarrow> bool" where
  "ob_ok ob \<longleftrightarrow> ob_pending ob + ob_written ob = length (concat (ob_replies ob)) \<and>
     ob_written ob \<le> (case ob_replies ob of [] \<Rightarrow> 0 | front # _ \<Rightarrow> length front)"

definition ob_rest :: "outbox \<Rightarrow> bytes" where
  "ob_rest ob = drop (ob_written ob) (concat (ob_replies ob))"

lemma outbox_accept_ok:
  assumes "ob_ok ob" "ob_replies ob = front # rest" "n \<le> length front - ob_written ob"
  shows "ob_ok (outbox_accept n ob)"
    and "take n (drop (ob_written ob) front) @ ob_rest (outbox_accept n ob) = ob_rest ob"
    and "length (ob_replies (outbox_accept n ob)) \<le> length (ob_replies ob)"
proof -
  have le: "ob_written ob + n \<le> length front" using assms by (auto simp: ob_ok_def)
  then show "ob_ok (outbox_accept n ob)"
    using assms by (auto simp: ob_ok_def outbox_accept_def Let_def split: list.splits)
  have "take n (drop (ob_written ob) front) @ drop (ob_written ob + n) front = drop (ob_written ob) front"
    by (metis add.commute append_take_drop_id drop_drop)
  then show "take n (drop (ob_written ob) front) @ ob_rest (outbox_accept n ob) = ob_rest ob"
    using le assms(2) by (auto simp: ob_rest_def outbox_accept_def Let_def)
  show "length (ob_replies (outbox_accept n ob)) \<le> length (ob_replies ob)"
    using assms(2) by (simp add: outbox_accept_def Let_def)
qed

lemma outbox_drain_ok:
  "outbox_drain answers ob = (sent, ob', r) \<Longrightarrow> valid_writes answers ob \<Longrightarrow> ob_ok ob \<Longrightarrow>
    ob_ok ob' \<and> sent @ ob_rest ob' = ob_rest ob \<and> length (ob_replies ob') \<le> length (ob_replies ob)"
proof (induction answers ob arbitrary: sent rule: outbox_drain.induct)
  case (3 n answers ob)
  show ?case
  proof (cases "ob_replies ob = [] \<or> n = 0")
    case False
    then obtain front rest where f: "ob_replies ob = front # rest" by (cases "ob_replies ob") auto
    with False 3 obtain more where more: "outbox_drain answers (outbox_accept n ob) = (more, ob', r)"
      and sent: "sent = take n (drop (ob_written ob) front) @ more"
      by (auto split: prod.splits)
    have v: "n \<le> length front - ob_written ob" "valid_writes answers (outbox_accept n ob)"
      using "3.prems"(2) f by auto
    note acc = outbox_accept_ok [OF "3.prems"(3) f v(1)]
    have "\<not> ob_replies ob = []" "n \<noteq> 0" using False by auto
    from "3.IH" [OF this refl more v(2) acc(1)] show ?thesis using acc(2,3) sent by auto
  qed (use "3.prems" in \<open>auto split: if_splits\<close>)
qed auto

lemma outbox_push_ok: "ob_ok ob \<Longrightarrow> ob_ok (outbox_push b ob)"
  by (cases "ob_replies ob") (auto simp: ob_ok_def outbox_push_def)

lemma outbox_push_rest: "ob_ok ob \<Longrightarrow> ob_rest (outbox_push b ob) = ob_rest ob @ b"
  by (simp add: ob_rest_def outbox_push_def ob_ok_def)

lemma pop_done_split:
  "pop_done failed slots ob = (slots', ob', popped) \<Longrightarrow>
    slots = map Done popped @ slots' \<and> (\<forall>r rest. slots' \<noteq> Done r # rest)"
proof (induction failed slots ob arbitrary: popped rule: pop_done.induct)
  case (1 failed r slots ob)
  then show ?case by (auto simp: Let_def split: prod.splits)
qed auto

lemma pop_done_outbox:
  "pop_done failed slots ob = (slots', ob', popped) \<Longrightarrow> ob_ok ob \<Longrightarrow>
    ob_ok ob' \<and> ob_rest ob' = ob_rest ob @ (if failed then [] else concat (map reply_bytes popped)) \<and>
    length (ob_replies ob') \<le> length (ob_replies ob) + length popped \<and>
    (failed \<longrightarrow> ob' = ob)"
proof (induction failed slots ob arbitrary: popped rule: pop_done.induct)
  case (1 failed r slots ob)
  define ob1 where "ob1 = (case r of Some reply \<Rightarrow> if failed then ob else outbox_push reply ob | None \<Rightarrow> ob)"
  from "1.prems"(1) obtain more where more: "pop_done failed slots ob1 = (slots', ob', more)" "popped = r # more"
    by (auto simp: ob1_def Let_def split: prod.splits)
  have ob1: "ob_ok ob1" "ob_rest ob1 = ob_rest ob @ (if failed then [] else reply_bytes r)"
    "length (ob_replies ob1) \<le> Suc (length (ob_replies ob))" "failed \<longrightarrow> ob1 = ob"
    using "1.prems"(2) outbox_push_ok outbox_push_rest
    by (auto simp: ob1_def reply_bytes_def outbox_push_def split: option.splits)
  from "1.IH" [OF ob1_def more(1) ob1(1)] show ?case using ob1 more(2) by auto
qed auto

section \<open>Admission\<close>

definition waits :: "slot \<Rightarrow> bool" where
  "waits s = (case s of Waiting k _ \<Rightarrow> k \<noteq> Control | _ \<Rightarrow> False)"

definition pending_kinds :: "slot list \<Rightarrow> kind list" where
  "pending_kinds slots = concat (map (\<lambda>s. case s of Pending k _ \<Rightarrow> [k] | _ \<Rightarrow> []) slots)"

lemma pending_kinds_simps [simp]:
  "pending_kinds [] = []" "pending_kinds (Pending k ev # slots) = k # pending_kinds slots"
  "pending_kinds (Waiting k ev # slots) = pending_kinds slots" "pending_kinds (Done r # slots) = pending_kinds slots"
  "pending_kinds (xs @ ys) = pending_kinds xs @ pending_kinds ys"
  by (simp_all add: pending_kinds_def)

lemma lanes_of_kinds: "lanes_of slots = fold lanes_take (pending_kinds slots) lanes_default"
proof -
  have "fold (\<lambda>s l. case s of Pending k _ \<Rightarrow> lanes_take k l | _ \<Rightarrow> l) slots l = fold lanes_take (pending_kinds slots) l" for l
  proof (induction slots arbitrary: l)
    case (Cons s slots)
    then show ?case by (cases s) simp_all
  qed simp
  then show ?thesis by (simp add: lanes_of_def)
qed

lemma fold_lanes_take:
  "fold lanes_take ks l =
     \<lparr>ln_controls = ln_controls l + count_list ks Control, ln_freeze = (ln_freeze l \<or> Freeze \<in> set ks),
      ln_thaw_or_ordinary = (ln_thaw_or_ordinary l \<or> Thaw \<in> set ks \<or> Ordinary \<in> set ks)\<rparr>"
proof (induction ks arbitrary: l)
  case (Cons k ks)
  then show ?case by (cases k) (auto simp: lanes_take_def)
qed simp

lemma lanes_of_counts:
  "ln_controls (lanes_of slots) = count_list (pending_kinds slots) Control"
  "ln_freeze (lanes_of slots) \<longleftrightarrow> Freeze \<in> set (pending_kinds slots)"
  "ln_thaw_or_ordinary (lanes_of slots) \<longleftrightarrow> Thaw \<in> set (pending_kinds slots) \<or> Ordinary \<in> set (pending_kinds slots)"
  by (simp_all add: lanes_of_kinds fold_lanes_take lanes_default_def)

lemma lanes_of_admitted:
  "lanes_take k (lanes_of (pre @ Waiting k ev # post)) = lanes_of (pre @ Pending k ev # post)"
  by (cases k) (auto simp: lanes_of_kinds fold_lanes_take lanes_take_def lanes_default_def)

text \<open>A property of the queue that every single admission keeps is kept by \<^verbatim>\<open>admit\<close>.\<close>

lemma admit_loop_keeps:
  assumes step: "\<And>pre k ev post sw. P (pre @ Waiting k ev # post) \<Longrightarrow> lane_free (lanes_of (pre @ Waiting k ev # post)) sw k \<Longrightarrow>
      (\<not> sw \<longrightarrow> (\<forall>s \<in> set pre. \<not> waits s)) \<Longrightarrow> length pre < window \<Longrightarrow> P (pre @ Pending k ev # post)"
  shows "P (pre @ slots) \<Longrightarrow> l = lanes_of (pre @ slots) \<Longrightarrow> (\<not> sw \<longrightarrow> (\<forall>s \<in> set pre. \<not> waits s)) \<Longrightarrow>
    length pre + n \<le> window \<Longrightarrow> P (pre @ admit_loop l sw n slots)"
proof (induction l sw n slots arbitrary: pre rule: admit_loop.induct)
  case (3 l sw n k ev slots)
  show ?case
  proof (cases "lane_free l sw k")
    case True
    have "P ((pre @ [Pending k ev]) @ slots)" using step [of pre k ev slots sw] 3 True by simp
    then show ?thesis
      using "3.IH"(1) [OF True, of "pre @ [Pending k ev]"] "3.prems" True
      by (simp add: lanes_of_admitted waits_def)
  next
    case False
    then show ?thesis
      using "3.IH"(2) [OF False, of "pre @ [Waiting k ev]"] "3.prems" by (auto simp: waits_def)
  qed
next
  case "4_1"
  then show ?case using "4_1.IH" [of "pre @ [s]" for s] by (simp add: waits_def)
next
  case "4_2"
  then show ?case using "4_2.IH" [of "pre @ [s]" for s] by (simp add: waits_def)
qed simp_all

lemma admit_keeps:
  assumes "\<And>pre k ev post sw. P (pre @ Waiting k ev # post) \<Longrightarrow> lane_free (lanes_of (pre @ Waiting k ev # post)) sw k \<Longrightarrow>
      (\<not> sw \<longrightarrow> (\<forall>s \<in> set pre. \<not> waits s)) \<Longrightarrow> length pre < window \<Longrightarrow> P (pre @ Pending k ev # post)"
    and "P slots"
  shows "P (admit window slots)"
  using admit_loop_keeps [of P window "[]" slots "lanes_of slots" False window] assms by (simp add: admit_def)

text \<open>The exclusions between the lanes.\<close>

definition lanes_ok :: "slot list \<Rightarrow> bool" where
  "lanes_ok slots \<longleftrightarrow> (let c = count_list (pending_kinds slots) in
     c Control \<le> MAX_CONTROLS \<and> c Freeze + c Ordinary \<le> 1 \<and> c Thaw + c Ordinary \<le> 1)"

lemma admit_lanes: "lanes_ok slots \<Longrightarrow> lanes_ok (admit window slots)"
proof (rule admit_keeps [of lanes_ok])
  fix pre k ev post sw
  assume "lanes_ok (pre @ Waiting k ev # post)" "lane_free (lanes_of (pre @ Waiting k ev # post)) sw k"
  then show "lanes_ok (pre @ Pending k ev # post)"
    by (cases k) (auto simp: lanes_ok_def Let_def lane_free_def lanes_exclusive_def lanes_of_counts count_list_0_iff)
qed

text \<open>Serial commands run in request order.\<close>

definition past :: "slot \<Rightarrow> bool" where
  "past s = (case s of Waiting k _ \<Rightarrow> k = Control | Pending k _ \<Rightarrow> k = Control | Done _ \<Rightarrow> True)"

definition serial :: "slot \<Rightarrow> bool" where
  "serial s = (case s of Pending k _ \<Rightarrow> k = Freeze \<or> k = Ordinary | _ \<Rightarrow> False)"

definition serial_ok :: "slot list \<Rightarrow> bool" where
  "serial_ok = sorted_wrt (\<lambda>a b. serial b \<longrightarrow> past a)"

lemma slot_class_simps [simp]:
  "past (Waiting k ev) \<longleftrightarrow> k = Control" "past (Pending k ev) \<longleftrightarrow> k = Control" "past (Done r)"
  "serial (Pending k ev) \<longleftrightarrow> k = Freeze \<or> k = Ordinary" "\<not> serial (Waiting k ev)" "\<not> serial (Done r)"
  "waits (Waiting k ev) \<longleftrightarrow> k \<noteq> Control" "\<not> waits (Pending k ev)" "\<not> waits (Done r)"
  "is_pending (Pending k ev)" "\<not> is_pending (Waiting k ev)" "\<not> is_pending (Done r)"
  by (auto simp: past_def serial_def waits_def is_pending_def)

lemma pending_kindI: "Pending k ev \<in> set slots \<Longrightarrow> k \<in> set (pending_kinds slots)"
  by (force simp: pending_kinds_def)

lemma not_exclusive_past:
  assumes "\<not> lanes_exclusive (lanes_of slots)" "x \<in> set slots" "\<not> waits x"
  shows "past x"
proof (cases x)
  case (Pending k ev)
  then have "k \<in> set (pending_kinds slots)" using assms(2) by (simp add: pending_kindI)
  then have "k \<notin> {Freeze, Thaw, Ordinary}" using assms(1) by (auto simp: lanes_exclusive_def lanes_of_counts)
  then show ?thesis using Pending by (cases k) simp_all
qed (use assms in auto)

lemma admit_serial: "serial_ok slots \<Longrightarrow> serial_ok (admit window slots)"
proof (rule admit_keeps [of serial_ok])
  fix pre k ev post sw
  assume ok: "serial_ok (pre @ Waiting k ev # post)" and free: "lane_free (lanes_of (pre @ Waiting k ev # post)) sw k"
    and sw: "\<not> sw \<longrightarrow> (\<forall>s \<in> set pre. \<not> waits s)"
  have "past x" if "serial (Pending k ev)" "x \<in> set pre" for x
    using that free sw by (intro not_exclusive_past [of "pre @ Waiting k ev # post"]) (auto simp: lane_free_def)
  then show "serial_ok (pre @ Pending k ev # post)"
    using ok unfolding serial_ok_def sorted_wrt_append by (cases k) auto
qed

text \<open>Only the oldest commands, as many as there are places, have started.\<close>

definition is_waiting :: "slot \<Rightarrow> bool" where
  "is_waiting s = (case s of Waiting _ _ \<Rightarrow> True | _ \<Rightarrow> False)"

definition places_ok :: "nat \<Rightarrow> slot list \<Rightarrow> bool" where
  "places_ok n slots \<longleftrightarrow> list_all is_waiting (drop n slots)"

lemma admit_places: "places_ok window slots \<Longrightarrow> places_ok window (admit window slots)"
  by (rule admit_keeps [of "places_ok window"]) (auto simp: places_ok_def drop_Cons')

text \<open>What is where: each slot belongs to the event with its number.\<close>

definition slot_ok :: "(decode_event \<Rightarrow> kind) \<Rightarrow> decode_event \<Rightarrow> bytes option option \<Rightarrow> slot \<Rightarrow> bool" where
  "slot_ok cls ev answer s =
     (case s of
        Waiting k e \<Rightarrow> e = ev \<and> k = cls ev
      | Pending k e \<Rightarrow> e = ev \<and> k = cls ev
      | Done r \<Rightarrow> answer = Some r)"

definition aligned :: "(decode_event \<Rightarrow> kind) \<Rightarrow> decode_event list \<Rightarrow> (nat \<Rightarrow> bytes option option) \<Rightarrow> nat \<Rightarrow> slot list \<Rightarrow> bool" where
  "aligned cls evs answers base slots \<longleftrightarrow> base + length slots = length evs \<and>
     (\<forall>i < length slots. slot_ok cls (evs ! (base + i)) (answers (base + i)) (slots ! i))"

lemma admit_aligned: "aligned cls evs answers base slots \<Longrightarrow> aligned cls evs answers base (admit window slots)"
proof (rule admit_keeps [of "aligned cls evs answers base"])
  fix pre k ev post
  let ?a = "pre @ Waiting k ev # post"
  assume a: "aligned cls evs answers base ?a"
  have "slot_ok cls (evs ! (base + length pre)) (answers (base + length pre)) (?a ! length pre)"
    using a by (simp add: aligned_def del: nth_append_length)
  then have "slot_ok cls (evs ! (base + length pre)) (answers (base + length pre)) (Pending k ev)"
    by (simp add: slot_ok_def)
  then have "aligned cls evs answers base (?a[length pre := Pending k ev])"
    using a by (simp add: aligned_def nth_list_update del: list_update_length)
  then show "aligned cls evs answers base (pre @ Pending k ev # post)" by simp
qed

lemma length_admit [simp]: "length (admit window slots) = length slots"
  using admit_keeps [of "\<lambda>xs. length xs = length slots"] by simp

text \<open>With nothing running the oldest command always starts.\<close>

lemma admit_first:
  assumes "\<not> running (admit (Suc n) slots)"
  shows "slots = [] \<or> (\<exists>r rest. slots = Done r # rest)"
proof (rule ccontr)
  assume "\<not> ?thesis"
  then obtain s rest where s: "slots = s # rest" "\<not> (\<exists>r. s = Done r)" by (cases slots) auto
  have "running slots \<Longrightarrow> running (admit (Suc n) slots)"
    by (rule admit_keeps [of running]) (auto simp: running_def)
  with assms have idle: "\<not> running slots" by blast
  then obtain k ev where w: "s = Waiting k ev" using s by (cases s) (auto simp: running_def)
  have "pending_kinds slots = []"
    using idle by (auto simp: running_def pending_kinds_def list_ex_iff split: slot.splits)
  then have "lane_free (lanes_of slots) False k"
    by (cases k) (simp_all add: lane_free_def lanes_exclusive_def lanes_of_counts MAX_CONTROLS_def)
  then show False using assms s(1) w by (simp add: admit_def running_def)
qed

section \<open>The end of a poll\<close>

lemma drive_any_nth: "i < length slots \<Longrightarrow> drive_any ready slots ! i =
    (case slots ! i of Pending k ev \<Rightarrow> (case ready i of Some r \<Rightarrow> Done r | None \<Rightarrow> slots ! i) | _ \<Rightarrow> slots ! i)"
  by (simp add: drive_any_def nth_enumerate_eq)

lemma length_drive_any [simp]: "length (drive_any ready slots) = length slots"
  by (simp add: drive_any_def)

lemma drive_aligned:
  assumes "aligned cls evs answers base slots"
  shows "aligned cls evs (record_answers base ready slots answers) base (drive_any ready slots)"
  using assms unfolding aligned_def
  by (auto simp: drive_any_nth record_answers_def slot_ok_def is_pending_def split: slot.splits option.splits)

lemma drive_classes:
  assumes "i < length slots"
  shows "serial (drive_any ready slots ! i) \<Longrightarrow> serial (slots ! i)"
    and "past (slots ! i) \<Longrightarrow> past (drive_any ready slots ! i)"
  using assms by (auto simp: drive_any_nth split: slot.splits option.splits)

lemma drive_serial: "serial_ok slots \<Longrightarrow> serial_ok (drive_any ready slots)"
  unfolding serial_ok_def sorted_wrt_iff_nth_less by (auto intro!: drive_classes(2) dest: drive_classes(1) [rotated])

lemma drive_places: "places_ok n slots \<Longrightarrow> places_ok n (drive_any ready slots)"
  unfolding places_ok_def list_all_length by (auto simp: drive_any_nth is_waiting_def split: slot.splits)

lemma drive_counts: "count_list (pending_kinds (drive_any ready slots)) k \<le> count_list (pending_kinds slots) k"
proof -
  have "count_list (pending_kinds (map (\<lambda>(i, s). case s of
            Pending k ev \<Rightarrow> (case ready i of Some reply \<Rightarrow> Done reply | None \<Rightarrow> s)
          | _ \<Rightarrow> s) (enumerate n slots))) k \<le> count_list (pending_kinds slots) k" for n
  proof (induction slots arbitrary: n)
    case (Cons s slots)
    from Cons [of "Suc n"] show ?case by (cases s; cases "ready n") simp_all
  qed simp
  then show ?thesis by (simp add: drive_any_def)
qed

lemma drive_lanes: "lanes_ok slots \<Longrightarrow> lanes_ok (drive_any ready slots)"
  using drive_counts [of ready slots Control] drive_counts [of ready slots Freeze]
    drive_counts [of ready slots Thaw] drive_counts [of ready slots Ordinary]
  by (simp add: lanes_ok_def Let_def)

section \<open>The top of the loop\<close>

lemma places_mono: "places_ok m slots \<Longrightarrow> m \<le> n \<Longrightarrow> places_ok n slots"
  unfolding places_ok_def list_all_iff by (meson set_drop_subset_set_drop subsetD)

lemma places_pop:
  assumes "places_ok (MAX_QUEUED - c) (map Done popped @ slots)" "c \<le> MAX_QUEUED" "c' \<le> c + length popped"
  shows "places_ok (MAX_QUEUED - c') slots" "c + length popped \<le> MAX_QUEUED"
proof -
  have le: "length popped \<le> MAX_QUEUED - c"
  proof (rule ccontr)
    assume "\<not> ?thesis"
    then obtain r rest where "drop (MAX_QUEUED - c) (map Done popped) = Done r # rest"
      by (cases "drop (MAX_QUEUED - c) popped") (auto simp: drop_map)
    then show False using assms(1) by (simp add: places_ok_def is_waiting_def)
  qed
  then show "c + length popped \<le> MAX_QUEUED" using assms(2) by simp
  have "places_ok (MAX_QUEUED - c - length popped) slots" using assms(1) le by (simp add: places_ok_def)
  then show "places_ok (MAX_QUEUED - c') slots" by (rule places_mono) (use assms(3) in simp)
qed

lemma pending_kinds_Done [simp]: "pending_kinds (map Done rs) = []"
  by (induction rs) simp_all

lemma lanes_pop: "lanes_ok (map Done popped @ slots) \<longleftrightarrow> lanes_ok slots"
  by (simp add: lanes_ok_def)

lemma serial_pop: "serial_ok (map Done popped @ slots) \<Longrightarrow> serial_ok slots"
  by (simp add: serial_ok_def sorted_wrt_append)

lemma aligned_pop:
  assumes "aligned cls evs answers base (map Done popped @ slots)"
  shows "aligned cls evs answers (base + length popped) slots" "map Some popped = map answers [base ..< base + length popped]"
proof -
  have all: "slot_ok cls (evs ! (base + i)) (answers (base + i)) ((map Done popped @ slots) ! i)"
    if "i < length popped + length slots" for i
    using assms that by (simp add: aligned_def)
  show "aligned cls evs answers (base + length popped) slots"
    unfolding aligned_def
  proof (intro conjI allI impI)
    fix i assume "i < length slots"
    with all [of "length popped + i"] show "slot_ok cls (evs ! (base + length popped + i)) (answers (base + length popped + i)) (slots ! i)"
      by (simp add: nth_append add.assoc)
  qed (use assms in \<open>simp add: aligned_def\<close>)
  have "answers (base + i) = Some (popped ! i)" if "i < length popped" for i
    using all [of i] that by (simp add: nth_append slot_ok_def)
  then show "map Some popped = map answers [base ..< base + length popped]"
    by (intro nth_equalityI) simp_all
qed

lemma stop_stage_frame [frame_simps]:
  "ss_slots (stop_stage b s) = ss_slots s" "ss_outbox (stop_stage b s) = ss_outbox s"
  "ss_write_failed (stop_stage b s) = ss_write_failed s" "ss_decoder (stop_stage b s) = ss_decoder s"
  "ss_input_end (stop_stage b s) = ss_input_end s"
  by (simp_all add: stop_stage_def)

lemma admit_stage_frame [frame_simps]:
  "ss_outbox (admit_stage s) = ss_outbox s" "ss_write_failed (admit_stage s) = ss_write_failed s"
  "ss_decoder (admit_stage s) = ss_decoder s" "ss_draining (admit_stage s) = ss_draining s"
  "ss_input_end (admit_stage s) = ss_input_end s"
  by (simp_all add: admit_stage_def)

lemma select_stage_frame [frame_simps]:
  "ss_slots (fst (select_stage s)) = ss_slots s" "ss_outbox (fst (select_stage s)) = ss_outbox s"
  "ss_write_failed (fst (select_stage s)) = ss_write_failed s" "ss_decoder (fst (select_stage s)) = ss_decoder s"
  "ss_draining (fst (select_stage s)) = ss_draining s"
  by (simp_all add: select_stage_def split: option.splits)

text \<open>An iteration stops, or goes on to its end with the stop withdrawn unless a command runs.\<close>

lemma session_top_cases:
  assumes "session_top stop1 stop2 s0 = (s, popped, fl)"
  obtains (stop) "s = stop_stage stop1 (fst (pop_stage s0))" "popped = snd (pop_stage s0)" "fl = Return Cancelled"
      "\<not> running (ss_slots s)" "stop2"
  | (go) s1 where "(s, fl) = select_stage (admit_stage s1)" "popped = snd (pop_stage s0)"
      "ss_slots s1 = ss_slots (fst (pop_stage s0))" "ss_outbox s1 = ss_outbox (fst (pop_stage s0))"
      "ss_write_failed s1 = ss_write_failed s0" "ss_decoder s1 = ss_decoder s0"
      "ss_draining s1 \<longrightarrow> running (ss_slots s1)"
proof -
  obtain s2 popped2 where p: "pop_stage s0 = (s2, popped2)" by fastforce
  have frame: "ss_write_failed s2 = ss_write_failed s0" "ss_decoder s2 = ss_decoder s0"
    using p by (auto simp: pop_stage_def split: prod.splits)
  let ?s3 = "stop_stage stop1 s2"
  show thesis
  proof (cases "ss_draining ?s3 \<and> \<not> running (ss_slots ?s3)")
    case True
    show thesis
    proof (cases stop2)
      case s2: True
      then show ?thesis using assms True p by (intro stop) (auto simp: session_top_def)
    next
      case False
      then show ?thesis using assms True p frame
        by (intro go [of "?s3\<lparr>ss_draining := False\<rparr>"]) (auto simp: session_top_def frame_simps split: prod.splits)
    qed
  next
    case False
    then show thesis using assms p frame
      by (intro go [of ?s3]) (auto simp: session_top_def frame_simps split: prod.splits)
  qed
qed

section \<open>The invariant of a session\<close>

definition queue_inv :: "(decode_event \<Rightarrow> kind) \<Rightarrow> decode_event list \<Rightarrow> (nat \<Rightarrow> bytes option option) \<Rightarrow> nat \<Rightarrow> session \<Rightarrow> bool" where
  "queue_inv cls evs answers base s \<longleftrightarrow>
     lanes_ok (ss_slots s) \<and> serial_ok (ss_slots s) \<and> aligned cls evs answers base (ss_slots s) \<and>
     places_ok (MAX_QUEUED - length (ob_replies (ss_outbox s))) (ss_slots s) \<and>
     length (ob_replies (ss_outbox s)) \<le> MAX_QUEUED \<and> length (ss_slots s) < MAX_QUEUED + READ_CHUNK \<and>
     ob_ok (ss_outbox s) \<and> (ss_write_failed s \<longrightarrow> ob_replies (ss_outbox s) = [])"

lemma queue_inv_cong:
  "ss_slots t = ss_slots s \<Longrightarrow> ss_outbox t = ss_outbox s \<Longrightarrow> ss_write_failed t = ss_write_failed s \<Longrightarrow>
    queue_inv cls evs answers base t = queue_inv cls evs answers base s"
  by (simp add: queue_inv_def)

definition all_replies :: "bytes option list \<Rightarrow> bytes" where
  "all_replies popped = concat (map reply_bytes popped)"

definition delivered :: "bytes \<Rightarrow> bytes option list \<Rightarrow> session \<Rightarrow> bool" where
  "delivered sent popped s \<longleftrightarrow>
     (if ss_write_failed s then prefix sent (all_replies popped) else sent @ ob_rest (ss_outbox s) = all_replies popped)"

lemma pop_stage_inv:
  assumes "queue_inv cls evs answers base s" "pop_stage s = (s', popped)"
  shows "queue_inv cls evs answers (base + length popped) s'" "map Some popped = map answers [base ..< base + length popped]"
    "delivered sent before s \<Longrightarrow> delivered sent (before @ popped) s'"
    "\<forall>r rest. ss_slots s' \<noteq> Done r # rest" "ss_write_failed s' = ss_write_failed s"
proof -
  obtain slots ob where p: "pop_done (ss_write_failed s) (ss_slots s) (ss_outbox s) = (slots, ob, popped)"
    and s': "s' = s\<lparr>ss_slots := slots, ss_outbox := ob\<rparr>"
    using assms(2) by (auto simp: pop_stage_def split: prod.splits)
  note split = pop_done_split [OF p]
  have inv: "lanes_ok (map Done popped @ slots)" "serial_ok (map Done popped @ slots)"
    "aligned cls evs answers base (map Done popped @ slots)" "ob_ok (ss_outbox s)"
    "places_ok (MAX_QUEUED - length (ob_replies (ss_outbox s))) (map Done popped @ slots)"
    "length (ob_replies (ss_outbox s)) \<le> MAX_QUEUED" "length slots < MAX_QUEUED + READ_CHUNK"
    "ss_write_failed s \<longrightarrow> ob_replies (ss_outbox s) = []"
    using assms(1) split by (auto simp: queue_inv_def)
  note out = pop_done_outbox [OF p inv(4)]
  have places: "places_ok (MAX_QUEUED - length (ob_replies ob)) slots"
    by (rule places_pop(1) [OF inv(5,6)]) (use out in blast)
  have "length (ob_replies (ss_outbox s)) + length popped \<le> MAX_QUEUED" by (rule places_pop(2) [OF inv(5,6) le_refl])
  then have "length (ob_replies ob) \<le> MAX_QUEUED" using out by linarith
  then show "queue_inv cls evs answers (base + length popped) s'"
    using inv(1,7,8) serial_pop [OF inv(2)] aligned_pop(1) [OF inv(3)] places out
    by (simp add: queue_inv_def s' lanes_pop)
  show "map Some popped = map answers [base ..< base + length popped]" by (rule aligned_pop(2) [OF inv(3)])
  show "delivered sent (before @ popped) s'" if "delivered sent before s"
    using that out by (auto simp: delivered_def s' all_replies_def split: if_splits simp flip: append_assoc)
  show "\<forall>r rest. ss_slots s' \<noteq> Done r # rest" using split s' by simp
  show "ss_write_failed s' = ss_write_failed s" by (simp add: s')
qed

lemma admit_stage_inv: "queue_inv cls evs answers base s \<Longrightarrow> queue_inv cls evs answers base (admit_stage s)"
  by (simp add: queue_inv_def admit_stage_def admit_lanes admit_serial admit_aligned admit_places)

text \<open>The \<^verbatim>\<open>select!\<close> always has a branch to wait for.\<close>

lemma select_progress:
  assumes "queue_inv cls evs answers base s1" "\<forall>r rest. ss_slots s1 \<noteq> Done r # rest"
    "ss_draining s1 \<longrightarrow> running (ss_slots s1)" "select_stage (admit_stage s1) = (s, Select r cw cr)"
  shows "r \<or> cw \<or> cr"
proof (rule ccontr)
  assume no: "\<not> (r \<or> cw \<or> cr)"
  let ?a = "admit_stage s1"
  have s: "r = running (ss_slots ?a)" "cw = can_write ?a" "cr = can_read ?a"
    "ss_input_end ?a \<noteq> None \<longrightarrow> \<not> (\<not> running (ss_slots ?a) \<and> ss_slots ?a = [] \<and> (ob_replies (ss_outbox ?a) = [] \<or> ss_write_failed ?a))"
    using assms(4) by (auto simp: select_stage_def split: option.splits if_splits)
  have empty: "ob_replies (ss_outbox s1) = []"
    using no s(2) assms(1) by (auto simp: can_write_def queue_inv_def frame_simps)
  then have pending: "ob_pending (ss_outbox s1) = 0" using assms(1) by (simp add: queue_inv_def ob_ok_def)
  have idle: "\<not> ss_draining s1"
  proof
    assume d: "ss_draining s1"
    then have "?a = s1" by (simp add: admit_stage_def)
    then show False using d assms(3) no s(1) by simp
  qed
  then have a: "ss_slots ?a = admit MAX_QUEUED (ss_slots s1)"
    using pending empty by (simp add: admit_stage_def MAX_REPLY_BYTES_def)
  then have "ss_slots s1 = []"
    using admit_first [of 7 "ss_slots s1"] no s(1) assms(2) by (auto simp: MAX_QUEUED_def)
  then have "length (ss_slots ?a) = 0" unfolding a length_admit by simp
  then show False
    using no s empty pending idle
    by (auto simp: can_read_def frame_simps running_def finished_bytes_def MAX_QUEUED_def MAX_REPLY_BYTES_def)
qed

definition pc_ok :: "session \<Rightarrow> session_pc \<Rightarrow> bool" where
  "pc_ok s pc =
     (case pc of
        AtTop \<Rightarrow> True
      | AtSelect r cw cr \<Rightarrow> r = running (ss_slots s) \<and> (r \<or> cw \<or> cr) \<and> (cr \<longrightarrow> length (ss_slots s) < MAX_QUEUED) \<and>
          (cw \<longrightarrow> \<not> ss_write_failed s)
      | Ended e \<Rightarrow> \<not> running (ss_slots s) \<and> (e = Cancelled \<or> ss_slots s = []))"

definition session_inv :: "(decode_event \<Rightarrow> kind) \<Rightarrow> sworld \<Rightarrow> bool" where
  "session_inv cls w \<longleftrightarrow>
     queue_inv cls (sw_events w) (sw_answers w) (length (sw_popped w)) (sw_session w) \<and>
     delivered (sw_sent w) (sw_popped w) (sw_session w) \<and>
     map Some (sw_popped w) = map (sw_answers w) [0 ..< length (sw_popped w)] \<and>
     push new_decoder (sw_input w) = (ss_decoder (sw_session w), sw_events w) \<and>
     pc_ok (sw_session w) (sw_pc w)"

lemma session_inv_start: "sw_start w \<Longrightarrow> session_inv cls w"
  by (auto simp: sw_start_def session_inv_def session_new_def queue_inv_def lanes_ok_def serial_ok_def places_ok_def
      aligned_def outbox_new_def ob_ok_def delivered_def ob_rest_def all_replies_def pc_ok_def MAX_QUEUED_def)

lemma popped_answers:
  assumes "map Some xs = map f [0 ..< length xs]" "map Some ys = map f [length xs ..< length xs + length ys]"
  shows "map Some (xs @ ys) = map f [0 ..< length (xs @ ys)]"
  using assms upt_add_eq_append [of 0 "length xs" "length ys"] by simp

lemma delivered_cong:
  "ss_outbox t = ss_outbox s \<Longrightarrow> ss_write_failed t = ss_write_failed s \<Longrightarrow> delivered sent popped t = delivered sent popped s"
  by (simp add: delivered_def)

lemma top_inv:
  assumes "session_inv cls w" "session_top stop1 stop2 (sw_session w) = (s, popped, fl)"
  shows "queue_inv cls (sw_events w) (sw_answers w) (length (sw_popped w @ popped)) s"
    and "delivered (sw_sent w) (sw_popped w @ popped) s"
    and "map Some (sw_popped w @ popped) = map (sw_answers w) [0 ..< length (sw_popped w @ popped)]"
    and "ss_decoder s = ss_decoder (sw_session w)"
    and "fl = Return e \<Longrightarrow> pc_ok s (Ended e)" "fl = Select r cw cr \<Longrightarrow> pc_ok s (AtSelect r cw cr)"
proof -
  obtain s1 popped1 where p: "pop_stage (sw_session w) = (s1, popped1)" by fastforce
  have q: "queue_inv cls (sw_events w) (sw_answers w) (length (sw_popped w)) (sw_session w)"
    and d: "delivered (sw_sent w) (sw_popped w) (sw_session w)"
    and a: "map Some (sw_popped w) = map (sw_answers w) [0 ..< length (sw_popped w)]"
    using assms(1) by (simp_all add: session_inv_def)
  note pop = pop_stage_inv [OF q p]
  have "popped = popped1" using session_top_cases [OF assms(2)] p by (metis snd_conv)
  then show "map Some (sw_popped w @ popped) = map (sw_answers w) [0 ..< length (sw_popped w @ popped)]"
    using popped_answers [OF a] pop(2) by simp
  have "queue_inv cls (sw_events w) (sw_answers w) (length (sw_popped w @ popped)) s \<and>
    delivered (sw_sent w) (sw_popped w @ popped) s \<and> ss_decoder s = ss_decoder (sw_session w) \<and>
    (\<forall>e. fl = Return e \<longrightarrow> pc_ok s (Ended e)) \<and> (\<forall>r cw cr. fl = Select r cw cr \<longrightarrow> pc_ok s (AtSelect r cw cr))"
    using assms(2)
  proof (cases rule: session_top_cases)
    case stop
    have s: "ss_slots s = ss_slots s1" "ss_outbox s = ss_outbox s1" "ss_write_failed s = ss_write_failed s1"
      using stop(1) p by (simp_all add: frame_simps)
    have "ss_decoder s = ss_decoder (sw_session w)"
      using stop(1) p by (auto simp: frame_simps pop_stage_def split: prod.splits)
    then show ?thesis
      using pop(1) pop(3) [OF d] stop queue_inv_cong [OF s] delivered_cong [OF s(2,3)] \<open>popped = popped1\<close>
      by (simp add: pc_ok_def)
  next
    case (go s2)
    have s2: "ss_slots s2 = ss_slots s1" "ss_outbox s2 = ss_outbox s1" "ss_write_failed s2 = ss_write_failed s1"
      using go p pop(5) by simp_all
    have q2: "queue_inv cls (sw_events w) (sw_answers w) (length (sw_popped w) + length popped1) s2"
      using pop(1) queue_inv_cong [OF s2] by simp
    have s: "s = fst (select_stage (admit_stage s2))" "fl = snd (select_stage (admit_stage s2))"
      using go(1) by (metis fst_conv, metis snd_conv)
    have "queue_inv cls (sw_events w) (sw_answers w) (length (sw_popped w) + length popped1) s"
      using admit_stage_inv [OF q2] by (subst queue_inv_cong [of s "admit_stage s2"]) (simp_all add: s frame_simps)
    moreover have "delivered (sw_sent w) (sw_popped w @ popped1) s"
      using pop(3) [OF d] by (subst delivered_cong [of s s1]) (simp_all add: s frame_simps s2)
    moreover have "pc_ok s (Ended e)" if "fl = Return e" for e
      using that go(1) by (auto simp: select_stage_def pc_ok_def running_def split: option.splits if_splits)
    moreover have "pc_ok s (AtSelect r cw cr)" if "fl = Select r cw cr" for r cw cr
    proof -
      have "select_stage (admit_stage s2) = (s, Select r cw cr)" using go(1) that by simp
      from select_progress [OF q2 _ go(7) this] have "r \<or> cw \<or> cr" using pop(4) s2(1) by simp
      moreover have "s = admit_stage s2" "r = running (ss_slots s)" "cw = can_write s" "cr = can_read s"
        using go(1) that by (auto simp: select_stage_def split: option.splits if_splits)
      ultimately show ?thesis by (auto simp: pc_ok_def can_read_def can_write_def)
    qed
    ultimately show ?thesis using go(6) \<open>popped = popped1\<close> by (simp add: s frame_simps)
  qed
  then show "queue_inv cls (sw_events w) (sw_answers w) (length (sw_popped w @ popped)) s"
    "delivered (sw_sent w) (sw_popped w @ popped) s" "ss_decoder s = ss_decoder (sw_session w)"
    "fl = Return e \<Longrightarrow> pc_ok s (Ended e)" "fl = Select r cw cr \<Longrightarrow> pc_ok s (AtSelect r cw cr)"
    by blast+
qed

lemma push_events_bound: "length (snd (push d bs)) \<le> length bs"
proof -
  have "length (snd (foldl byte_step st bs)) \<le> length (snd st) + length bs" for st
  proof (induction bs arbitrary: st)
    case (Cons b bs)
    have "length (snd (byte_step st b)) \<le> Suc (length (snd st))"
      by (simp add: byte_step_def end_of_frame_def on_sentinel_def split: prod.splits)
    then show ?case using Cons [of "byte_step st b"] by simp
  qed simp
  from this [of "(d, [])"] show ?thesis by (simp add: push_byte_step)
qed

lemma arrivals_inv:
  assumes "queue_inv cls evs answers base s" "length (ss_slots s) < MAX_QUEUED" "length new \<le> READ_CHUNK"
  shows "queue_inv cls (evs @ new) answers base (s\<lparr>ss_slots := ss_slots s @ map (\<lambda>ev. Waiting (cls ev) ev) new\<rparr>)"
proof -
  let ?new = "map (\<lambda>ev. Waiting (cls ev) ev) new"
  have "pending_kinds ?new = []" by (simp add: pending_kinds_def)
  moreover have "serial_ok (ss_slots s @ ?new)"
  proof -
    have "sorted_wrt (\<lambda>a b. serial b \<longrightarrow> past a) ?new" by (simp add: sorted_wrt_iff_nth_less)
    then show ?thesis using assms(1) by (auto simp: queue_inv_def serial_ok_def sorted_wrt_append)
  qed
  moreover have "list_all is_waiting (drop n ?new)" for n
    by (auto simp: drop_map list_all_iff is_waiting_def)
  moreover have "aligned cls (evs @ new) answers base (ss_slots s @ ?new)"
  proof -
    have a: "aligned cls evs answers base (ss_slots s)" using assms(1) by (simp add: queue_inv_def)
    then have "length evs = base + length (ss_slots s)" by (simp add: aligned_def)
    then show ?thesis using a by (auto simp: aligned_def nth_append slot_ok_def)
  qed
  ultimately show ?thesis
    using assms by (simp add: queue_inv_def lanes_ok_def places_ok_def)
qed

lemma read_inv:
  assumes "session_inv cls w" "sw_pc w = AtSelect r cw True" "\<forall>bs. res = Inr bs \<longrightarrow> length bs \<le> READ_CHUNK"
    "read_branch cls res (sw_session w) = (s, evs)"
  shows "session_inv cls (w\<lparr>sw_session := s, sw_events := sw_events w @ evs,
           sw_input := sw_input w @ (case res of Inr bs \<Rightarrow> bs | Inl _ \<Rightarrow> []), sw_pc := AtTop\<rparr>)"
proof (cases "\<exists>bs. res = Inr bs \<and> bs \<noteq> []")
  case True
  then obtain bs d where bs: "res = Inr bs" "bs \<noteq> []" and d: "push (ss_decoder (sw_session w)) bs = (d, evs)"
    and s: "s = (sw_session w)\<lparr>ss_received := ss_received (sw_session w) + length bs, ss_decoder := d,
              ss_slots := ss_slots (sw_session w) @ map (\<lambda>ev. Waiting (cls ev) ev) evs\<rparr>"
    using assms(4) by (auto simp: read_branch_def split: prod.splits)
  have evs: "length evs \<le> READ_CHUNK" using push_events_bound [of "ss_decoder (sw_session w)" bs] assms(3) bs d by simp
  have few: "length (ss_slots (sw_session w)) < MAX_QUEUED" using assms(1,2) by (simp add: session_inv_def pc_ok_def)
  have "queue_inv cls (sw_events w) (sw_answers w) (length (sw_popped w)) (sw_session w)"
    using assms(1) by (simp add: session_inv_def)
  from arrivals_inv [OF this few evs]
  have "queue_inv cls (sw_events w @ evs) (sw_answers w) (length (sw_popped w)) s"
    by (subst queue_inv_cong [of s]) (simp_all add: s)
  moreover have "push new_decoder (sw_input w @ bs) = (d, sw_events w @ evs)"
    using assms(1) d by (simp add: session_inv_def push_append)
  ultimately show ?thesis
    using assms(1) bs by (simp add: session_inv_def s delivered_def pc_ok_def)
next
  case False
  then have "evs = []" "(case res of Inr bs \<Rightarrow> bs | Inl _ \<Rightarrow> []) = []"
    "ss_slots s = ss_slots (sw_session w)" "ss_outbox s = ss_outbox (sw_session w)"
    "ss_write_failed s = ss_write_failed (sw_session w)" "ss_decoder s = ss_decoder (sw_session w)"
    using assms(4) by (auto simp: read_branch_def split: sum.splits if_splits)
  then show ?thesis
    using assms(1) queue_inv_cong [of s "sw_session w"] delivered_cong [of s "sw_session w"]
    by (simp add: session_inv_def pc_ok_def)
qed

lemma drive_inv:
  assumes "session_inv cls w" "slots = ss_slots (sw_session w)"
  shows "session_inv cls (w\<lparr>sw_session := (sw_session w)\<lparr>ss_slots := drive_any ready slots\<rparr>,
           sw_answers := record_answers (length (sw_popped w)) ready slots (sw_answers w), sw_pc := AtTop\<rparr>)"
proof -
  have "map (record_answers (length (sw_popped w)) ready slots (sw_answers w)) [0 ..< length (sw_popped w)] =
      map (sw_answers w) [0 ..< length (sw_popped w)]"
    by (simp add: record_answers_def)
  then show ?thesis
    using assms by (simp add: session_inv_def queue_inv_def drive_lanes drive_serial drive_places drive_aligned delivered_def pc_ok_def)
qed

lemma outbox_drain_inv:
  assumes "queue_inv cls evs answers base s" "delivered sent popped s" "\<not> ss_write_failed s"
    "valid_writes ans (ss_outbox s)" "outbox_drain ans (ss_outbox s) = (took, ob, res)"
  shows "queue_inv cls evs answers base (s\<lparr>ss_outbox := ob\<rparr>)" "delivered (sent @ took) popped (s\<lparr>ss_outbox := ob\<rparr>)"
proof -
  have ok: "ob_ok ob" "took @ ob_rest ob = ob_rest (ss_outbox s)" "length (ob_replies ob) \<le> length (ob_replies (ss_outbox s))"
    using outbox_drain_ok [OF assms(5,4)] assms(1) by (auto simp: queue_inv_def)
  then have "places_ok (MAX_QUEUED - length (ob_replies ob)) (ss_slots s)"
    using assms(1) unfolding queue_inv_def by (meson places_mono diff_le_mono2)
  then show "queue_inv cls evs answers base (s\<lparr>ss_outbox := ob\<rparr>)"
    using assms(1,3) ok by (simp add: queue_inv_def)
  show "delivered (sent @ took) popped (s\<lparr>ss_outbox := ob\<rparr>)"
    using assms(2,3) ok by (simp add: delivered_def)
qed

lemma abandon_inv:
  assumes "queue_inv cls evs answers base s" "delivered sent popped s" "\<not> ss_write_failed s"
  shows "queue_inv cls evs answers base (s\<lparr>ss_write_failed := True, ss_outbox := outbox_abandon ob, ss_input_end := e\<rparr>)"
    "delivered sent popped (s\<lparr>ss_write_failed := True, ss_outbox := outbox_abandon ob, ss_input_end := e\<rparr>)"
proof -
  have "places_ok MAX_QUEUED (ss_slots s)"
    using assms(1) unfolding queue_inv_def by (meson places_mono diff_le_self)
  then show "queue_inv cls evs answers base (s\<lparr>ss_write_failed := True, ss_outbox := outbox_abandon ob, ss_input_end := e\<rparr>)"
    using assms(1) by (simp add: queue_inv_def outbox_abandon_def ob_ok_def)
  show "delivered sent popped (s\<lparr>ss_write_failed := True, ss_outbox := outbox_abandon ob, ss_input_end := e\<rparr>)"
    using assms(2,3) by (simp add: delivered_def) (metis prefixI)
qed

lemma session_inv_step: "sw_step cls w t \<Longrightarrow> session_inv cls w \<Longrightarrow> session_inv cls t"
proof (induction w t rule: sw_step.induct)
  case (st_top w stop1 stop2 s popped r cw cr)
  note t = top_inv [OF st_top(3,2)]
  show ?case using t(1-4) t(6) [OF refl] st_top(3) by (simp add: session_inv_def)
next
  case (st_return w stop1 stop2 s popped e)
  note t = top_inv [OF st_return(4,2)]
  show ?case using t(1-4) t(5) [OF refl] st_return(4) by (simp add: session_inv_def)
next
  case (st_cancelled w stop1 stop2 s popped answers sent ob r)
  note t = top_inv [OF st_cancelled(5,2)]
  have "queue_inv cls (sw_events w) (sw_answers w) (length (sw_popped w @ popped)) (s\<lparr>ss_outbox := ob\<rparr>) \<and>
      delivered (sw_sent w @ sent) (sw_popped w @ popped) (s\<lparr>ss_outbox := ob\<rparr>)"
  proof (cases "can_write s")
    case True
    then show ?thesis
      using outbox_drain_inv [OF t(1,2) _ st_cancelled(3), of sent ob r] st_cancelled(4) by (simp add: can_write_def)
  next
    case False
    then have "s\<lparr>ss_outbox := ob\<rparr> = s" "sent = []" using st_cancelled(4) by simp_all
    then show ?thesis using t(1,2) by simp
  qed
  then show ?case using t(3,4) t(5) [OF refl] st_cancelled(5) by (simp add: session_inv_def pc_ok_def)
next
  case (st_changed w r cw cr stop)
  then show ?case
    using queue_inv_cong [of "changed_branch stop (sw_session w)" "sw_session w"]
    by (simp add: session_inv_def changed_branch_def delivered_def pc_ok_def)
next
  case (st_drive w cw cr slots ready)
  then show ?case by (intro drive_inv)
next
  case (st_written w r cr answers sent ob res)
  let ?s = "sw_session w"
  have q: "queue_inv cls (sw_events w) (sw_answers w) (length (sw_popped w)) ?s"
    and d: "delivered (sw_sent w) (sw_popped w) ?s" and wf: "\<not> ss_write_failed ?s"
    using st_written by (simp_all add: session_inv_def pc_ok_def)
  note dr = outbox_drain_inv [OF q d wf st_written(2,3)]
  show ?case
  proof (cases res)
    case (Inl e)
    then show ?thesis using abandon_inv [OF dr] wf st_written(4)
      by (simp add: session_inv_def written_branch_def pc_ok_def)
  next
    case (Inr u)
    then show ?thesis using dr st_written(4) by (simp add: session_inv_def written_branch_def pc_ok_def)
  qed
next
  case (st_partial w r cr answers sent ob)
  then have q: "queue_inv cls (sw_events w) (sw_answers w) (length (sw_popped w)) (sw_session w)"
    "delivered (sw_sent w) (sw_popped w) (sw_session w)" "\<not> ss_write_failed (sw_session w)"
    by (simp_all add: session_inv_def pc_ok_def)
  show ?case using outbox_drain_inv [OF q st_partial(2,3)] st_partial(1,4) by (simp add: session_inv_def pc_ok_def)
next
  case (st_read w r cw res s evs)
  then show ?case by (intro read_inv)
next
  case (st_else w)
  then show ?case by (simp add: session_inv_def pc_ok_def)
next
  case (st_signal w v)
  then show ?case
    using queue_inv_cong [of "(sw_session w)\<lparr>ss_cancel := (ss_cancel (sw_session w))\<lparr>cn_value := v, cn_seen := False\<rparr>\<rparr>" "sw_session w"]
    by (cases "sw_pc w") (simp_all add: session_inv_def delivered_def pc_ok_def)
next
  case (st_close w)
  then show ?case
    using queue_inv_cong [of "(sw_session w)\<lparr>ss_cancel := (ss_cancel (sw_session w))\<lparr>cn_closed := True\<rparr>\<rparr>" "sw_session w"]
    by (cases "sw_pc w") (simp_all add: session_inv_def delivered_def pc_ok_def)
qed

interpretation swi: inductive_invariant sw_start "sw_step cls" "session_inv cls" for cls
  by unfold_locales (auto intro: session_inv_start session_inv_step)

section \<open>A session no one cancelled\<close>

text \<open>The steps of a session while the cancellation reads \<open>v\<close> at most.\<close>

definition sw_start_upto :: "bool \<Rightarrow> sworld \<Rightarrow> bool" where
  "sw_start_upto v w \<longleftrightarrow> sw_start w \<and> (cn_value (ss_cancel (sw_session w)) \<longrightarrow> v)"

definition sw_step_upto :: "bool \<Rightarrow> (decode_event \<Rightarrow> kind) \<Rightarrow> sworld \<Rightarrow> sworld \<Rightarrow> bool" where
  "sw_step_upto v cls w w' \<longleftrightarrow> sw_step cls w w' \<and> (cn_value (ss_cancel (sw_session w')) \<longrightarrow> v)"

lemma sw_upto_True: "sw_start_upto True = sw_start" "sw_step_upto True cls = sw_step cls"
  by (simp_all add: fun_eq_iff sw_start_upto_def sw_step_upto_def)

definition uncancelled :: "session \<Rightarrow> bool" where
  "uncancelled s \<longleftrightarrow> \<not> cn_value (ss_cancel s) \<and> \<not> ss_draining s \<and> ss_input_end s \<noteq> Some Cancelled"

lemma uncancelled_top:
  assumes "uncancelled s" "session_top stop1 stop2 s = (s', popped, fl)"
  shows "uncancelled s' \<and> fl \<noteq> Return Cancelled"
proof -
  obtain s1 popped1 where p: "pop_stage s = (s1, popped1)" by fastforce
  then have "uncancelled s1" using assms(1) by (auto simp: pop_stage_def uncancelled_def split: prod.splits)
  then have s2: "uncancelled (admit_stage (stop_stage stop1 s1))" "\<not> ss_draining (stop_stage stop1 s1)"
    by (auto simp: admit_stage_def stop_stage_def uncancelled_def)
  then have "select_stage (admit_stage (stop_stage stop1 s1)) = (s', fl)" using assms(2) p by (simp add: session_top_def split: prod.splits)
  then show ?thesis using s2(1) by (auto simp: select_stage_def uncancelled_def split: option.splits if_splits)
qed

lemma uncancelled_written: "uncancelled s \<Longrightarrow> uncancelled (written_branch ob r s)"
  by (cases r; cases "ss_input_end s") (simp_all add: uncancelled_def written_branch_def get_or_insert_def)

lemma uncancelled_read: "uncancelled s \<Longrightarrow> read_branch cls r s = (s', evs) \<Longrightarrow> uncancelled s'"
  by (auto simp: uncancelled_def read_branch_def Let_def split: sum.splits if_splits prod.splits)

interpretation uncancelled: inductive_invariant "sw_start_upto False" "sw_step_upto False cls"
  "\<lambda>w. uncancelled (sw_session w) \<and> sw_pc w \<noteq> Ended Cancelled" for cls
proof
  fix w assume "sw_start_upto False w"
  then show "uncancelled (sw_session w) \<and> sw_pc w \<noteq> Ended Cancelled"
    by (auto simp: sw_start_upto_def sw_start_def uncancelled_def session_new_def)
next
  fix w w' assume w: "uncancelled (sw_session w) \<and> sw_pc w \<noteq> Ended Cancelled" and "sw_step_upto False cls w w'"
  then have "sw_step cls w w'" "\<not> cn_value (ss_cancel (sw_session w'))" by (simp_all add: sw_step_upto_def)
  then show "uncancelled (sw_session w') \<and> sw_pc w' \<noteq> Ended Cancelled"
  proof cases
    case st_top
    then show ?thesis using uncancelled_top w by fastforce
  next
    case st_return
    then show ?thesis using uncancelled_top w by fastforce
  next
    case st_cancelled
    then show ?thesis using uncancelled_top w by fastforce
  next
    case st_written
    then show ?thesis using uncancelled_written w by simp
  next
    case st_read
    then show ?thesis using uncancelled_read w by auto
  qed (use w in \<open>auto simp: uncancelled_def changed_branch_def stop_now_def split: option.splits\<close>)
qed

section \<open>A thaw beside a freeze\<close>

lemma admit_loop_thaw:
  "ln_freeze l \<Longrightarrow> \<not> ln_thaw_or_ordinary l \<Longrightarrow> (\<forall>e. Waiting Thaw e \<notin> set pre) \<Longrightarrow> length pre < n \<Longrightarrow>
    admit_loop l sw n (pre @ Waiting Thaw ev # post) ! length pre = Pending Thaw ev"
proof (induction pre arbitrary: l sw n)
  case Nil
  then obtain m where "n = Suc m" by (cases n) auto
  with Nil show ?case by (simp add: lane_free_def)
next
  case (Cons s pre)
  then obtain m where n: "n = Suc m" "length pre < m" by (cases n) auto
  show ?case
  proof (cases s)
    case (Waiting k e)
    then have "k \<noteq> Thaw" using Cons.prems(3) by auto
    then have "ln_freeze (lanes_take k l)" "\<not> ln_thaw_or_ordinary (lanes_take k l)" if "lane_free l sw k"
      using that Cons.prems by (cases k; simp add: lanes_take_def lane_free_def lanes_exclusive_def)+
    then show ?thesis using Cons.IH [OF _ _ _ n(2)] Cons.prems n(1) Waiting by simp
  qed (use Cons.IH [OF _ _ _ n(2)] Cons.prems n(1) in simp_all)
qed

text \<open>What leaves at the front was finished; a running command stays running.\<close>

lemma popped_before:
  "map Done popped @ rest = before @ Waiting k ev # behind \<Longrightarrow> \<exists>mid. before = map Done popped @ mid \<and> rest = mid @ Waiting k ev # behind"
proof (induction popped arbitrary: before)
  case (Cons r popped)
  then obtain b where "before = Done r # b" "map Done popped @ rest = b @ Waiting k ev # behind"
    by (cases before) auto
  then show ?case using Cons.IH by auto
qed simp

lemma running_kinds: "running slots \<longleftrightarrow> pending_kinds slots \<noteq> []"
  by (induction slots) (auto simp: running_def is_pending_def pending_kinds_def split: slot.splits)

lemma admit_loop_running: "running slots \<Longrightarrow> running (admit_loop l sw n slots)"
  by (induction l sw n slots rule: admit_loop.induct) (auto simp: running_def is_pending_def)

lemma admit_running: "running slots \<Longrightarrow> running (admit n slots)"
  by (simp add: admit_def admit_loop_running)

lemma select_running: "running (ss_slots s) \<Longrightarrow> \<exists>cw cr. select_stage s = (s, Select True cw cr)"
  by (simp add: select_stage_def split: option.splits)

lemma pop_stage_split:
  assumes "pop_stage s = (s2, popped)"
  shows "ss_slots s = map Done popped @ ss_slots s2" "ss_draining s2 = ss_draining s"
proof -
  obtain slots ob where "pop_done (ss_write_failed s) (ss_slots s) (ss_outbox s) = (slots, ob, popped)"
    "s2 = s\<lparr>ss_slots := slots, ss_outbox := ob\<rparr>"
    using assms by (auto simp: pop_stage_def split: prod.splits)
  then show "ss_slots s = map Done popped @ ss_slots s2" "ss_draining s2 = ss_draining s"
    using pop_done_split [of "ss_write_failed s" "ss_slots s" "ss_outbox s"] by simp_all
qed

section \<open>Pauses\<close>

lemma retry_delays:
  "delay = min (INITIAL_BACKOFF * 2 ^ n) MAX_BACKOFF \<Longrightarrow>
    snd (retry_loop p delay as) =
      map (\<lambda>i. min (INITIAL_BACKOFF * 2 ^ i) MAX_BACKOFF) [n ..< n + length (snd (retry_loop p delay as))]"
proof (induction p delay as arbitrary: n rule: retry_loop.induct)
  case (2 p delay a as)
  show ?case
  proof (cases "\<exists>e. open_with p (at_open a) = Inl e \<and> \<not> is_terminal e \<and> \<not> (at_changed a = Some False \<or> at_cancel a)")
    case True
    then obtain e where e: "open_with p (at_open a) = Inl e" "\<not> is_terminal e" "\<not> (at_changed a = Some False \<or> at_cancel a)"
      by blast
    have "min (delay * 2) MAX_BACKOFF = min (INITIAL_BACKOFF * 2 ^ Suc n) MAX_BACKOFF" using 2(2) by (simp add: min_def)
    note IH = "2.IH" [OF e this]
    let ?ds = "snd (retry_loop p (min (delay * 2) MAX_BACKOFF) as)"
    have ds: "snd (retry_loop p delay (a # as)) = delay # ?ds" using e by (simp add: case_prod_beta)
    have "[n ..< n + length (delay # ?ds)] = n # [Suc n ..< Suc n + length ?ds]" by (simp add: upt_conv_Cons del: upt_Suc)
    then show ?thesis unfolding ds using IH 2(2) by (simp del: upt_Suc)
  next
    case False
    then show ?thesis using 2(2) by (auto split: sum.splits)
  qed
qed simp

lemma next_delay_bounds: "bo_initial bo \<le> bo_max bo \<Longrightarrow> next_delay bo n d \<in> {bo_initial bo .. bo_max bo}"
  by (auto simp: next_delay_def)

section \<open>Properties\<close>

lemma places_started: "places_ok n slots \<Longrightarrow> length (filter (\<lambda>s. \<not> is_waiting s) slots) \<le> n"
proof -
  assume "places_ok n slots"
  then have "filter (\<lambda>s. \<not> is_waiting s) (drop n slots) = []"
    by (auto simp: places_ok_def list_all_iff filter_empty_conv)
  then have "filter (\<lambda>s. \<not> is_waiting s) slots = filter (\<lambda>s. \<not> is_waiting s) (take n slots)"
    by (metis append_Nil2 append_take_drop_id filter_append)
  then show ?thesis using length_filter_le [of "\<lambda>s. \<not> is_waiting s" "take n slots"] by simp
qed

lemma map_answers:
  assumes "map Some xs = map f [0 ..< length xs]"
  shows "xs = map (\<lambda>i. the (f i)) [0 ..< length xs]" "\<forall>i < length xs. f i \<noteq> None"
proof -
  have f: "f i = Some (xs ! i)" if "i < length xs" for i
    using arg_cong [OF assms, of "\<lambda>ys. ys ! i"] that by simp
  then show "xs = map (\<lambda>i. the (f i)) [0 ..< length xs]" by (intro nth_equalityI) simp_all
  show "\<forall>i < length xs. f i \<noteq> None" using f by simp
qed

text \<open>
  C14. Replies leave in request order: the events are those of the bytes read, the commands still in the
  queue are the latest ones, each in its place, the earlier ones have all given their reply, and what the
  host has accepted is a prefix of those replies one after the other, in the order of the requests
  whatever the order in which the commands finished.
\<close>

theorem replies_in_request_order:
  assumes "reachable sw_start (sw_step cls) w"
  shows "\<exists>k. sw_events w = snd (push new_decoder (sw_input w)) \<and> k + length (ss_slots (sw_session w)) = length (sw_events w) \<and>
    (\<forall>i < length (ss_slots (sw_session w)).
       slot_ok cls (sw_events w ! (k + i)) (sw_answers w (k + i)) (ss_slots (sw_session w) ! i)) \<and>
    (\<forall>i < k. sw_answers w i \<noteq> None) \<and>
    prefix (sw_sent w) (concat (map (\<lambda>i. reply_bytes (the (sw_answers w i))) [0 ..< k]))"
proof -
  have inv: "session_inv cls w" by (rule swi.inv_reachable [OF assms])
  let ?k = "length (sw_popped w)"
  have a: "map Some (sw_popped w) = map (sw_answers w) [0 ..< ?k]" using inv by (simp add: session_inv_def)
  have "all_replies (sw_popped w) = concat (map (\<lambda>i. reply_bytes (the (sw_answers w i))) [0 ..< ?k])"
    unfolding all_replies_def using arg_cong [OF map_answers(1) [OF a], of "\<lambda>xs. concat (map reply_bytes xs)"]
    by (simp add: comp_def)
  moreover have "prefix (sw_sent w) (all_replies (sw_popped w))"
    using inv by (auto simp: session_inv_def delivered_def split: if_splits) (metis prefixI)
  moreover have "aligned cls (sw_events w) (sw_answers w) ?k (ss_slots (sw_session w))"
    "sw_events w = snd (push new_decoder (sw_input w))"
    using inv by (simp_all add: session_inv_def queue_inv_def)
  ultimately show ?thesis using map_answers(2) [OF a] by (intro exI [of _ ?k]) (simp add: aligned_def)
qed

text \<open>
  C15. The lanes: at most three controls run, at most one command that changes the guest runs, except that
  a thaw may run beside a freeze; and a freeze or an ordinary command runs only when every earlier command
  that is not a control has finished.
\<close>

theorem lanes_exclude:
  assumes "reachable sw_start (sw_step cls) w"
  shows "count_list (pending_kinds (ss_slots (sw_session w))) Control \<le> MAX_CONTROLS \<and>
    count_list (pending_kinds (ss_slots (sw_session w))) Freeze + count_list (pending_kinds (ss_slots (sw_session w))) Ordinary \<le> 1 \<and>
    count_list (pending_kinds (ss_slots (sw_session w))) Thaw + count_list (pending_kinds (ss_slots (sw_session w))) Ordinary \<le> 1 \<and>
    (\<forall>i j. i < j \<and> j < length (ss_slots (sw_session w)) \<and> serial (ss_slots (sw_session w) ! j) \<longrightarrow> past (ss_slots (sw_session w) ! i))"
proof -
  have "lanes_ok (ss_slots (sw_session w))" "serial_ok (ss_slots (sw_session w))"
    using swi.inv_reachable [OF assms] by (simp_all add: session_inv_def queue_inv_def)
  then show ?thesis unfolding lanes_ok_def Let_def serial_ok_def sorted_wrt_iff_nth_less by blast
qed

text \<open>
  The queue is bounded: the commands that have started and whose replies the host has not taken are
  at most \<^verbatim>\<open>MAX_QUEUED\<close>, and what one read decodes beyond them is bounded by the read.
\<close>

theorem session_queue_bounded:
  assumes "reachable sw_start (sw_step cls) w"
  shows "length (filter (\<lambda>s. \<not> is_waiting s) (ss_slots (sw_session w))) + length (ob_replies (ss_outbox (sw_session w))) \<le> MAX_QUEUED \<and>
    length (ss_slots (sw_session w)) < MAX_QUEUED + READ_CHUNK"
proof -
  have "queue_inv cls (sw_events w) (sw_answers w) (length (sw_popped w)) (sw_session w)"
    using swi.inv_reachable [OF assms] by (simp add: session_inv_def)
  then show ?thesis
    using places_started [of "MAX_QUEUED - length (ob_replies (ss_outbox (sw_session w)))" "ss_slots (sw_session w)"]
    unfolding queue_inv_def by linarith
qed

text \<open>
  C16. No command is abandoned: a session ends only with no command running, and unless it was stopped,
  with every command it received handled and its reply given.
\<close>

theorem session_ends_settled:
  assumes "reachable sw_start (sw_step cls) w" "sw_pc w = Ended e"
  shows "\<not> running (ss_slots (sw_session w)) \<and>
    (e \<noteq> Cancelled \<longrightarrow> (\<forall>i < length (snd (push new_decoder (sw_input w))). sw_answers w i \<noteq> None))"
proof -
  have inv: "session_inv cls w" by (rule swi.inv_reachable [OF assms(1)])
  have "map Some (sw_popped w) = map (sw_answers w) [0 ..< length (sw_popped w)]" using inv by (simp add: session_inv_def)
  from map_answers(2) [OF this] show ?thesis
    using inv assms(2) by (auto simp: session_inv_def pc_ok_def queue_inv_def aligned_def)
qed

text \<open>
  C17. A session never waits for nothing: whenever it waits, a command is running, a reply is being written
  or the channel is being read, so the branch for none of these is never taken.
\<close>

theorem session_never_idle:
  assumes "reachable sw_start (sw_step cls) w" "sw_pc w = AtSelect busy writes reads"
  shows "(busy \<or> writes \<or> reads) \<and> busy = running (ss_slots (sw_session w))"
  using swi.inv_reachable [OF assms(1)] assms(2) by (auto simp: session_inv_def pc_ok_def)

text \<open>
  C18. A thaw overtakes what waits behind a running freeze. Each time the session goes through the top of its
  loop with a freeze running, no thaw and no ordinary command running beside it and no stop accepted, and
  with fewer than \<^verbatim>\<open>MAX_REPLY_BYTES\<close> undelivered, the first thaw that waits is started, if it has one of the
  \<^verbatim>\<open>MAX_QUEUED\<close> places, whatever ordinary commands, freezes and controls wait before it; and the session goes on
  to wait for the commands that run.
\<close>

theorem thaw_starts_beside_freeze:
  assumes "session_top stop1 stop2 s = (s', popped, fl)" and "\<not> ss_draining s"
    and "Freeze \<in> set (pending_kinds (ss_slots s))" and "Thaw \<notin> set (pending_kinds (ss_slots s))"
    and "Ordinary \<notin> set (pending_kinds (ss_slots s))"
    and "ss_slots s = before @ Waiting Thaw ev # behind" and "\<forall>e. Waiting Thaw e \<notin> set before"
    and "ob_pending (ss_outbox s') < MAX_REPLY_BYTES"
    and "length before - length popped + length (ob_replies (ss_outbox s')) < MAX_QUEUED"
  shows "ss_slots s' ! (length before - length popped) = Pending Thaw ev \<and> (\<exists>cw cr. fl = Select True cw cr)"
proof -
  obtain s2 popped2 where p: "pop_stage s = (s2, popped2)" by fastforce
  note s2 = pop_stage_split [OF p]
  obtain mid where mid: "before = map Done popped2 @ mid" "ss_slots s2 = mid @ Waiting Thaw ev # behind"
    using popped_before [OF s2(1) [symmetric, unfolded assms(6)]] by blast
  have kinds: "pending_kinds (ss_slots s) = pending_kinds (ss_slots s2)" unfolding s2(1) by (induction popped2) simp_all
  have run: "running (ss_slots s2)" using assms(3) unfolding kinds running_kinds by auto
  then have run': "running (admit n (ss_slots s2))" for n by (rule admit_running)
  then have "running (ss_slots (admit_stage s2))" using run by (simp add: admit_stage_def)
  from select_running [OF this] obtain cw cr where "select_stage (admit_stage s2) = (admit_stage s2, Select True cw cr)" by blast
  moreover have "stop_stage stop1 s2 = s2" using run by (simp add: stop_stage_def)
  ultimately have "session_top stop1 stop2 s = (admit_stage s2, popped2, Select True cw cr)"
    using p run by (simp add: session_top_def)
  then have top: "s' = admit_stage s2 \<and> popped = popped2 \<and> (\<exists>cw cr. fl = Select True cw cr)" using assms(1) by simp
  let ?n = "MAX_QUEUED - length (ob_replies (ss_outbox s2))"
  have ob: "ss_outbox s' = ss_outbox s2" using top by (simp add: admit_stage_def)
  have n: "length mid < ?n" using assms(9) top mid(1) unfolding ob by simp
  have "ss_slots (admit_stage s2) = admit ?n (ss_slots s2)" using assms(2,8) s2(2) unfolding ob by (simp add: admit_stage_def)
  then have admits: "ss_slots s' = admit_loop (lanes_of (ss_slots s2)) False ?n (mid @ Waiting Thaw ev # behind)"
    using top mid(2) by (simp add: admit_def)
  have "ln_freeze (lanes_of (ss_slots s2))" "\<not> ln_thaw_or_ordinary (lanes_of (ss_slots s2))"
    using assms(3-5) unfolding kinds lanes_of_counts by simp_all
  moreover have "\<forall>e. Waiting Thaw e \<notin> set mid" using assms(7) mid(1) by simp
  ultimately have "ss_slots s' ! length mid = Pending Thaw ev" unfolding admits by (rule admit_loop_thaw) (rule n)
  then show ?thesis using top mid(1) by simp
qed

text \<open>
  Failed opens are retried after 1, 2, 4, 8, 16 and then always 30 seconds.
\<close>

theorem open_retry_delays:
  "snd (open_with_retry p as) = map (\<lambda>i. min (1000 * 2 ^ i) 30000) [0 ..< length (snd (open_with_retry p as))]"
  using retry_delays [of INITIAL_BACKOFF 0 p as] by (simp add: open_with_retry_def INITIAL_BACKOFF_def MAX_BACKOFF_def)

section \<open>Witnesses\<close>

text \<open>A session that reads one control, runs it, writes its reply in two parts and then meets the end of the input.\<close>

definition ex_cls :: "decode_event \<Rightarrow> kind" where
  "ex_cls ev = Control"

definition ex_event :: decode_event where
  "ex_event = Frame ''{}'' False"

definition ex_cancel :: cancel where
  "ex_cancel = \<lparr>cn_value = False, cn_seen = True, cn_closed = False\<rparr>"

definition ex_start :: sworld where
  "ex_start = \<lparr>sw_session = session_new ex_cancel, sw_pc = AtTop, sw_input = [], sw_events = [],
     sw_answers = (\<lambda>_. None), sw_popped = [], sw_sent = []\<rparr>"

definition ex_read :: sworld where
  "ex_read = ex_start\<lparr>sw_session := (session_new ex_cancel)\<lparr>ss_slots := [Waiting Control ex_event],
       ss_received := length (encode ''{}'' False)\<rparr>,
     sw_input := encode ''{}'' False, sw_events := [ex_event]\<rparr>"

definition ex_running :: sworld where
  "ex_running = ex_read\<lparr>sw_session := (sw_session ex_read)\<lparr>ss_slots := [Pending Control ex_event]\<rparr>,
     sw_pc := AtSelect True False True\<rparr>"

definition ex_done :: sworld where
  "ex_done = ex_running\<lparr>sw_session := (sw_session ex_read)\<lparr>ss_slots := [Done (Some ''ok'')]\<rparr>,
     sw_answers := record_answers 0 (\<lambda>_. Some (Some ''ok'')) [Pending Control ex_event] (\<lambda>_. None), sw_pc := AtTop\<rparr>"

definition ex_replying :: sworld where
  "ex_replying = ex_done\<lparr>sw_session := (sw_session ex_read)\<lparr>ss_slots := [],
       ss_outbox := \<lparr>ob_replies = [''ok''], ob_written = 0, ob_pending = 2\<rparr>\<rparr>,
     sw_popped := [Some ''ok''], sw_pc := AtSelect False True True\<rparr>"

definition ex_partial :: sworld where
  "ex_partial = ex_replying\<lparr>sw_session := (sw_session ex_replying)\<lparr>
       ss_outbox := \<lparr>ob_replies = [''ok''], ob_written = 1, ob_pending = 1\<rparr>\<rparr>, sw_sent := ''o''\<rparr>"

definition ex_sent :: sworld where
  "ex_sent = ex_partial\<lparr>sw_session := (sw_session ex_replying)\<lparr>ss_outbox := outbox_new\<rparr>, sw_sent := ''ok'', sw_pc := AtTop\<rparr>"

definition ex_eof :: sworld where
  "ex_eof = ex_sent\<lparr>sw_session := (sw_session ex_sent)\<lparr>ss_input_end := Some Eof\<rparr>\<rparr>"

definition ex_ended :: sworld where
  "ex_ended = ex_sent\<lparr>sw_pc := Ended Eof\<rparr>"

lemmas ex_defs = ex_cls_def ex_event_def ex_cancel_def ex_start_def ex_read_def ex_running_def ex_done_def ex_replying_def
  ex_partial_def ex_sent_def ex_eof_def ex_ended_def session_new_def outbox_new_def

lemmas top_defs = session_top_def pop_stage_def stop_stage_def admit_stage_def select_stage_def running_def can_write_def
  can_read_def finished_bytes_def MAX_QUEUED_def MAX_REPLY_BYTES_def

lemma admit_Nil [simp]: "admit n [] = []"
  by (cases n) (simp_all add: admit_def)

lemma admit_one: "admit (Suc n) [Waiting Control ev] = [Pending Control ev]"
  by (cases n) (simp_all add: admit_def lane_free_def lanes_of_def lanes_default_def MAX_CONTROLS_def)

lemma admit_control: "admit 8 [Waiting Control ev] = [Pending Control ev]"
  using admit_one [of 7] by simp

lemma ex_step1: "sw_step ex_cls ex_start (ex_start\<lparr>sw_pc := AtSelect False False True\<rparr>)"
  using st_top [of ex_start False False "session_new ex_cancel" "[]" False False True ex_cls]
  by (simp add: ex_defs top_defs)

lemma ex_push: "push new_decoder (encode ''{}'' False) = (new_decoder, [ex_event])"
  unfolding ex_event_def
  by (rule push_encode) (simp add: frame_payload_def MAX_FRAME_LEN_def is_ascii_whitespace_def SENTINEL_def)

lemma ex_step2: "sw_step ex_cls (ex_start\<lparr>sw_pc := AtSelect False False True\<rparr>) ex_read"
  using ex_push st_read [of "ex_start\<lparr>sw_pc := AtSelect False False True\<rparr>" False False "Inr (encode ''{}'' False)" ex_cls]
  by (simp add: ex_defs read_branch_def encode_def READ_CHUNK_def)

lemma ex_step3: "sw_step ex_cls ex_read ex_running"
  using st_top [of ex_read False False "sw_session ex_running" "[]" True False True ex_cls]
  by (simp add: ex_defs top_defs admit_control)

lemma ex_step4: "sw_step ex_cls ex_running ex_done"
  using st_drive [of ex_running False True "[Pending Control ex_event]" "\<lambda>_. Some (Some ''ok'')" ex_cls]
  by (simp add: ex_defs drive_any_def)

lemma ex_step5: "sw_step ex_cls ex_done ex_replying"
  using st_top [of ex_done False False "sw_session ex_replying" "[Some ''ok'']" False True True ex_cls]
  by (simp add: ex_defs top_defs outbox_push_def)

lemma ex_step6: "sw_step ex_cls ex_replying ex_partial"
  using st_partial [of ex_replying False True "[Accept 1]" "''o''" _ ex_cls]
  by (simp add: ex_defs outbox_accept_def)

lemma ex_step7: "sw_step ex_cls ex_partial ex_sent"
  using st_written [of ex_partial False True "[Accept 1]" "''k''" _ "Inr ()" ex_cls]
  by (simp add: ex_defs outbox_accept_def written_branch_def)

lemma ex_step8: "sw_step ex_cls ex_sent (ex_sent\<lparr>sw_pc := AtSelect False False True\<rparr>)"
  using st_top [of ex_sent False False "sw_session ex_sent" "[]" False False True ex_cls] by (simp add: ex_defs top_defs)

lemma ex_step9: "sw_step ex_cls (ex_sent\<lparr>sw_pc := AtSelect False False True\<rparr>) ex_eof"
  using st_read [of "ex_sent\<lparr>sw_pc := AtSelect False False True\<rparr>" False False "Inr []" ex_cls]
  by (simp add: ex_defs read_branch_def)

lemma ex_step10: "sw_step ex_cls ex_eof ex_ended"
  using st_return [of ex_eof False False "sw_session ex_sent" "[]" Eof ex_cls] by (simp add: ex_defs top_defs)

lemma ex_started: "reachable sw_start (sw_step ex_cls) ex_start"
  by (rule reach_start) (auto simp: sw_start_def ex_start_def)

lemma ex_running_reached: "reachable sw_start (sw_step ex_cls) ex_running"
  using ex_started ex_step1 ex_step2 ex_step3 by (blast intro: reach_step)

lemma ex_partial_reached: "reachable sw_start (sw_step ex_cls) ex_partial"
  using ex_running_reached ex_step4 ex_step5 ex_step6 by (blast intro: reach_step)

lemma ex_ended_reached: "reachable sw_start (sw_step ex_cls) ex_ended"
  using ex_partial_reached ex_step7 ex_step8 ex_step9 ex_step10 by (blast intro: reach_step)

theorem replies_in_request_order_witness:
  "sw_answers ex_partial 0 \<noteq> None \<and> sw_sent ex_partial = ''o'' \<and> prefix ''o'' (reply_bytes (the (sw_answers ex_partial 0)))"
  using replies_in_request_order [OF ex_partial_reached] by (auto simp: ex_defs)

theorem lanes_exclude_witness: "count_list (pending_kinds [Pending Control ex_event]) Control \<le> MAX_CONTROLS"
  using lanes_exclude [OF ex_running_reached] by (simp add: ex_running_def)

theorem session_queue_bounded_witness:
  "length (filter (\<lambda>s. \<not> is_waiting s) [Pending Control ex_event]) + length (ob_replies outbox_new) \<le> MAX_QUEUED"
  using session_queue_bounded [OF ex_running_reached] by (simp add: ex_defs)

theorem session_ends_settled_witness:
  "\<not> running (ss_slots (sw_session ex_ended)) \<and> length (snd (push new_decoder (sw_input ex_ended))) = 1 \<and> sw_answers ex_ended 0 \<noteq> None"
proof -
  have "sw_input ex_ended = encode ''{}'' False"
    by (simp add: ex_ended_def ex_sent_def ex_partial_def ex_replying_def ex_done_def ex_running_def ex_read_def)
  then have "length (snd (push new_decoder (sw_input ex_ended))) = 1" by (simp add: ex_push)
  then show ?thesis using session_ends_settled [OF ex_ended_reached, of Eof] by (simp add: ex_ended_def)
qed

theorem session_never_idle_witness: "running (ss_slots (sw_session ex_running)) = True"
  using session_never_idle [OF ex_running_reached, of True False True] by (simp add: ex_running_def)

definition ex_waiting :: session where
  "ex_waiting = (session_new ex_cancel)\<lparr>ss_slots :=
     [Done None, Pending Freeze ex_event, Waiting Ordinary ex_event, Waiting Thaw ex_event]\<rparr>"

theorem thaw_starts_beside_freeze_witness: "ss_slots (fst (session_top False False ex_waiting)) ! 2 = Pending Thaw ex_event"
proof -
  obtain s' popped fl where t: "session_top False False ex_waiting = (s', popped, fl)" by (metis prod_cases3)
  then have p: "popped = [None]" "ss_outbox s' = outbox_new"
    by (auto simp: session_top_def pop_stage_def stop_stage_def select_stage_def admit_stage_def ex_waiting_def ex_cancel_def
        session_new_def running_def is_pending_def outbox_new_def Let_def split: prod.splits if_splits)
  have "ss_slots ex_waiting = [Done None, Pending Freeze ex_event, Waiting Ordinary ex_event] @ Waiting Thaw ex_event # []"
    by (simp add: ex_waiting_def)
  from thaw_starts_beside_freeze [OF t _ _ _ _ this] have "ss_slots s' ! 2 = Pending Thaw ex_event"
    using p by (simp add: ex_waiting_def session_new_def outbox_new_def MAX_REPLY_BYTES_def MAX_QUEUED_def numeral_2_eq_2)
  then show ?thesis using t by simp
qed

end
