(* ===== verification/Seccomp.thy ===== *)
theory Seccomp
  imports Config
begin

text \<open>
  \<^verbatim>\<open>src/seccomp.rs\<close>: the allow rules of a target under an authority, the document they are compiled from,
  and the build of a profile. The compiler and the installation (\<^verbatim>\<open>seccompiler\<close>) are parameters;
  \<open>filter_allows\<close> is what that crate documents of a filter: a call passes when some rule has its name
  and all of the rule's conditions hold, a \<^verbatim>\<open>dword\<close> condition on the low 32 bits of an argument.

  Shown: exactly which privileged calls pass, and that no others of the surface do.
\<close>

section \<open>Rules\<close>

datatype target_arch = X86_64 | Aarch64

record arg_eq =
  ae_index :: nat
  ae_value :: nat

record rule =
  ru_syscall :: string
  ru_conditions :: "arg_eq list"

definition FIFREEZE :: nat where
  "FIFREEZE = 0xC0045877"

definition FITHAW :: nat where
  "FITHAW = 0xC0045878"

definition FITRIM :: nat where
  "FITRIM = 0xC0185879"

definition IOCTL_REQUESTS :: "nat list" where
  "IOCTL_REQUESTS = [FIFREEZE, FITHAW, FITRIM]"

definition PR_SET_NAME :: nat where
  "PR_SET_NAME = 15"

definition AF_NETLINK :: nat where
  "AF_NETLINK = 16"

definition COMMON :: "string list" where
  "COMMON =
     [''read'', ''write'', ''readv'', ''writev'', ''close'', ''openat'', ''fcntl'', ''lseek'', ''pread64'',
      ''pwrite64'', ''newfstatat'', ''statx'', ''fstat'', ''getdents64'', ''readlinkat'', ''faccessat'',
      ''faccessat2'', ''fsync'', ''unlinkat'', ''brk'', ''mmap'', ''munmap'', ''mprotect'', ''mremap'',
      ''madvise'', ''membarrier'', ''clone'', ''clone3'', ''set_robust_list'', ''get_robust_list'',
      ''set_tid_address'', ''gettid'', ''getpid'', ''tgkill'', ''rseq'', ''futex'', ''futex_waitv'',
      ''sched_yield'', ''sched_getaffinity'', ''prlimit64'', ''getrlimit'', ''exit'', ''exit_group'',
      ''epoll_create1'', ''epoll_ctl'', ''epoll_pwait'', ''epoll_pwait2'', ''eventfd2'', ''ppoll'',
      ''pipe2'', ''socketpair'', ''sendto'', ''recvfrom'', ''rt_sigaction'', ''rt_sigprocmask'',
      ''rt_sigreturn'', ''sigaltstack'', ''restart_syscall'', ''clock_gettime'', ''clock_nanosleep'',
      ''nanosleep'', ''getuid'', ''geteuid'', ''getgid'', ''getegid'', ''getrandom'']"

definition INFORMATION :: "string list" where
  "INFORMATION =
     [''uname'', ''statfs'', ''fstatfs'', ''bind'', ''getsockname'', ''sendmsg'', ''recvmsg'',
      ''setsockopt'']"

definition POWER :: "string list" where
  "POWER = [''sync'', ''reboot'']"

definition X86_64_ONLY :: "string list" where
  "X86_64_ONLY = [''epoll_wait'']"

definition plain_rule :: "string \<Rightarrow> rule" where
  "plain_rule name = \<lparr>ru_syscall = name, ru_conditions = []\<rparr>"

definition rules :: "target_arch \<Rightarrow> authority \<Rightarrow> rule list" where
  "rules t a =
     map plain_rule COMMON @
     (if t = X86_64 then map plain_rule X86_64_ONLY else []) @
     (if au_information a then map plain_rule INFORMATION else []) @
     (if au_reboot a then map plain_rule POWER else []) @
     map (\<lambda>request. \<lparr>ru_syscall = ''ioctl'', ru_conditions = [\<lparr>ae_index = 1, ae_value = request\<rparr>]\<rparr>)
       (filter (\<lambda>request. au_trim a \<or> request \<noteq> FITRIM) IOCTL_REQUESTS) @
     [\<lparr>ru_syscall = ''prctl'', ru_conditions = [\<lparr>ae_index = 0, ae_value = PR_SET_NAME\<rparr>]\<rparr>] @
     (if au_information a
      then [\<lparr>ru_syscall = ''socket'', ru_conditions = [\<lparr>ae_index = 0, ae_value = AF_NETLINK\<rparr>]\<rparr>] else [])"

section \<open>Profiles\<close>

text \<open>\<open>logs\<close>: the \<^verbatim>\<open>seccomp-log\<close> feature in a debug build.\<close>

definition log_mode :: "bool \<Rightarrow> bool \<Rightarrow> bool" where
  "log_mode seccomp_log debug_assertions = (seccomp_log \<and> debug_assertions)"

definition filter_mode :: "bool \<Rightarrow> string" where
  "filter_mode logs = (if logs then ''log'' else ''enforce'')"

definition default_action :: "bool \<Rightarrow> string" where
  "default_action logs = (if logs then ''log'' else ''kill_process'')"

definition FILTER_NAME :: string where
  "FILTER_NAME = ''qeminga''"

definition json_condition :: "arg_eq \<Rightarrow> json" where
  "json_condition c =
     JObject [(''index'', json_nat (ae_index c)), (''type'', JString ''dword''), (''op'', JString ''eq''),
              (''val'', json_nat (ae_value c))]"

definition json_rule :: "rule \<Rightarrow> json" where
  "json_rule r =
     (if ru_conditions r = [] then JObject [(''syscall'', JString (ru_syscall r))]
      else JObject [(''syscall'', JString (ru_syscall r)), (''args'', JArray (map json_condition (ru_conditions r)))])"

definition profile_json :: "bool \<Rightarrow> target_arch \<Rightarrow> authority \<Rightarrow> json" where
  "profile_json logs t a =
     JObject [(FILTER_NAME,
       JObject [(''mismatch_action'', JString (default_action logs)), (''match_action'', JString ''allow''),
                (''filter'', JArray (map json_rule (rules t a)))])]"

datatype seccomp_error = Compile string | Missing | Install string

definition seccomp_error_text :: "seccomp_error \<Rightarrow> string" where
  "seccomp_error_text e =
     (case e of
        Compile s \<Rightarrow> ''cannot compile seccomp profile: '' @ s
      | Missing \<Rightarrow> ''seccomp profile is missing filter '' @ FILTER_NAME
      | Install s \<Rightarrow> ''cannot install seccomp filter: '' @ s)"

text \<open>\<open>compile\<close> is \<^verbatim>\<open>seccompiler::compile_from_json\<close>, with the filters by name.\<close>

definition profile :: "(json \<Rightarrow> target_arch \<Rightarrow> (string, string \<rightharpoonup> 'f) result) \<Rightarrow> bool \<Rightarrow> target_arch \<Rightarrow> authority
    \<Rightarrow> (seccomp_error, 'f) result" where
  "profile compile logs t a =
     (case compile (profile_json logs t a) t of
        Err e \<Rightarrow> Err (Compile e)
      | Ok m \<Rightarrow> (case m FILTER_NAME of None \<Rightarrow> Err Missing | Some f \<Rightarrow> Ok f))"

definition install :: "('f \<Rightarrow> (string, unit) result) \<Rightarrow> 'f \<Rightarrow> (seccomp_error, unit) result" where
  "install apply f = map_err Install (apply f)"

section \<open>What the filter lets through\<close>

definition dword :: "nat \<Rightarrow> nat" where
  "dword v = v mod 2 ^ 32"

definition condition_holds :: "nat list \<Rightarrow> arg_eq \<Rightarrow> bool" where
  "condition_holds args c \<longleftrightarrow> ae_index c < length args \<and> dword (args ! ae_index c) = ae_value c"

definition filter_allows :: "rule list \<Rightarrow> string \<Rightarrow> nat list \<Rightarrow> bool" where
  "filter_allows rs call args \<longleftrightarrow>
     list_ex (\<lambda>r. ru_syscall r = call \<and> list_all (condition_holds args) (ru_conditions r)) rs"

lemma filter_allows_simps [simp]:
  "\<not> filter_allows [] call args"
  "filter_allows (r # rs) call args \<longleftrightarrow>
     ru_syscall r = call \<and> list_all (condition_holds args) (ru_conditions r) \<or> filter_allows rs call args"
  "filter_allows (rs @ ss) call args \<longleftrightarrow> filter_allows rs call args \<or> filter_allows ss call args"
  "filter_allows (map plain_rule names) call args \<longleftrightarrow> call \<in> set names"
  by (auto simp: filter_allows_def plain_rule_def list_ex_iff)

lemma rules_allow:
  "filter_allows (rules t a) call args \<longleftrightarrow>
     call \<in> set COMMON \<or> t = X86_64 \<and> call \<in> set X86_64_ONLY \<or> au_information a \<and> call \<in> set INFORMATION \<or>
     au_reboot a \<and> call \<in> set POWER \<or>
     call = ''ioctl'' \<and> 1 < length args \<and>
       (dword (args ! 1) \<in> {FIFREEZE, FITHAW} \<or> au_trim a \<and> dword (args ! 1) = FITRIM) \<or>
     call = ''prctl'' \<and> 0 < length args \<and> dword (args ! 0) = PR_SET_NAME \<or>
     au_information a \<and> call = ''socket'' \<and> 0 < length args \<and> dword (args ! 0) = AF_NETLINK"
  unfolding rules_def filter_allows_simps
  by (auto simp: IOCTL_REQUESTS_def condition_holds_def FIFREEZE_def FITHAW_def FITRIM_def)

section \<open>Properties\<close>

text \<open>
  The filter's privileged surface, for six arguments as the kernel passes them: \<^verbatim>\<open>ioctl\<close> passes exactly
  for \<^verbatim>\<open>FIFREEZE\<close>, \<^verbatim>\<open>FITHAW\<close> and, with the authority to trim, \<^verbatim>\<open>FITRIM\<close>; \<^verbatim>\<open>reboot\<close> and \<^verbatim>\<open>sync\<close> exactly with the
  authority to reboot; \<^verbatim>\<open>socket\<close> exactly for netlink and \<^verbatim>\<open>statfs\<close> and \<^verbatim>\<open>uname\<close> at all exactly with the
  authority for information; \<^verbatim>\<open>prctl\<close> exactly for naming a thread; and what would start another program,
  change identity, mount, trace or load code never does.
\<close>

theorem filter_surface:
  assumes "length args = 6"
  shows "(filter_allows (rules t a) ''ioctl'' args \<longleftrightarrow>
      dword (args ! 1) \<in> {FIFREEZE, FITHAW} \<or> au_trim a \<and> dword (args ! 1) = FITRIM) \<and>
    (\<forall>call \<in> {''reboot'', ''sync''}. filter_allows (rules t a) call args \<longleftrightarrow> au_reboot a) \<and>
    (filter_allows (rules t a) ''socket'' args \<longleftrightarrow> au_information a \<and> dword (args ! 0) = AF_NETLINK) \<and>
    (\<forall>call \<in> {''statfs'', ''fstatfs'', ''uname''}. filter_allows (rules t a) call args \<longleftrightarrow> au_information a) \<and>
    (filter_allows (rules t a) ''prctl'' args \<longleftrightarrow> dword (args ! 0) = PR_SET_NAME) \<and>
    (\<forall>call \<in> {''execve'', ''execveat'', ''fork'', ''vfork'', ''ptrace'', ''mount'', ''umount2'', ''setuid'', ''setresuid'',
       ''capset'', ''seccomp'', ''bpf'', ''init_module'', ''finit_module'', ''kexec_load'', ''connect'', ''open_by_handle_at''}.
       \<not> filter_allows (rules t a) call args)"
  using assms unfolding rules_allow
  by (simp add: COMMON_def INFORMATION_def POWER_def X86_64_ONLY_def)

theorem filter_surface_witness:
  "filter_allows (rules Aarch64 authority_data_protection) ''ioctl'' [3, FIFREEZE, 0, 0, 0, 0] \<and>
   \<not> filter_allows (rules Aarch64 authority_data_protection) ''ioctl'' [3, FITRIM, 0, 0, 0, 0] \<and>
   \<not> filter_allows (rules Aarch64 authority_data_protection) ''reboot'' [3, FITRIM, 0, 0, 0, 0]"
  using filter_surface [of "[3, FIFREEZE, 0, 0, 0, 0]" Aarch64 authority_data_protection]
    filter_surface [of "[3, FITRIM, 0, 0, 0, 0]" Aarch64 authority_data_protection]
  by (simp add: authority_data_protection_def FIFREEZE_def FITHAW_def FITRIM_def dword_def)

end
