(* ===== verification/Caps.thy ===== *)
theory Caps
  imports Config
begin

text \<open>
  \<^verbatim>\<open>src/kernel/caps.rs\<close>: the privilege drop. The trait \<^verbatim>\<open>CapOps\<close> is the record \<open>cap_ops\<close> over a process state;
  \<open>linux_caps\<close> states what the kernel documents of a call that succeeds, on a view of the process's
  credentials. Capabilities are their kernel numbers.

  Shown: a drop that reports success leaves the service account with exactly the final set of its
  authority, no way to regain anything, and a bounding set within the final set; one that fails stops at
  the failing step.
\<close>

section \<open>The final set\<close>

type_synonym capability = nat

definition CAP_DAC_READ_SEARCH :: capability where
  "CAP_DAC_READ_SEARCH = 2"

definition CAP_SETPCAP :: capability where
  "CAP_SETPCAP = 8"

definition CAP_SYS_ADMIN :: capability where
  "CAP_SYS_ADMIN = 21"

definition CAP_SYS_BOOT :: capability where
  "CAP_SYS_BOOT = 22"

definition FINAL_CAPS :: "capability list" where
  "FINAL_CAPS = [CAP_SYS_ADMIN, CAP_SYS_BOOT, CAP_DAC_READ_SEARCH]"

definition final_capability_set :: "authority \<Rightarrow> capability set" where
  "final_capability_set a = set (filter (\<lambda>c. au_reboot a \<or> c \<noteq> CAP_SYS_BOOT) FINAL_CAPS)"

record account =
  acc_uid :: nat
  acc_gid :: nat

datatype set_kind = Effective | Permitted | Inheritable | Bounding | Ambient

datatype privilege_error =
    UnknownUser string
  | StepFailed string string

definition privilege_error_text :: "privilege_error \<Rightarrow> string" where
  "privilege_error_text e =
     (case e of UnknownUser u \<Rightarrow> ''user '' @ u @ '' not found'' | StepFailed st r \<Rightarrow> st @ '' failed: '' @ r)"

datatype drop_outcome = Dropped | SkippedUnprivileged

section \<open>The sequence\<close>

type_synonym 'p cap_call = "'p \<Rightarrow> 'p \<times> (string, unit) result"

record 'p cap_ops =
  co_is_root :: "'p \<Rightarrow> bool"
  co_lookup :: "string \<Rightarrow> 'p \<Rightarrow> (string, account option) result"
  co_set_keepcaps :: "bool \<Rightarrow> 'p cap_call"
  co_setgroups :: "nat \<Rightarrow> 'p cap_call"
  co_setresgid :: "nat \<Rightarrow> 'p cap_call"
  co_setresuid :: "nat \<Rightarrow> 'p cap_call"
  co_bounding :: "'p \<Rightarrow> (string, capability list) result"
  co_set :: "set_kind \<Rightarrow> capability set \<Rightarrow> 'p cap_call"
  co_drop :: "set_kind \<Rightarrow> capability \<Rightarrow> 'p cap_call"
  co_clear :: "set_kind \<Rightarrow> 'p cap_call"
  co_set_no_new_privs :: "'p cap_call"

text \<open>A run of \<^verbatim>\<open>step(name, call)?\<close> statements: the first failure ends it.\<close>

fun run_steps :: "(string \<times> 'p cap_call) list \<Rightarrow> 'p \<Rightarrow> 'p \<times> (privilege_error, unit) result" where
  "run_steps [] p = (p, Ok ())"
| "run_steps ((name, call) # steps) p =
     (case call p of
        (p, Inl reason) \<Rightarrow> (p, Err (StepFailed name reason))
      | (p, Inr _) \<Rightarrow> run_steps steps p)"

definition raise_steps :: "'p cap_ops \<Rightarrow> account \<Rightarrow> capability set \<Rightarrow> (string \<times> 'p cap_call) list" where
  "raise_steps K acc with_setpcap =
     [(''PR_SET_KEEPCAPS'', co_set_keepcaps K True),
      (''setgroups'', co_setgroups K (acc_gid acc)),
      (''setresgid'', co_setresgid K (acc_gid acc)),
      (''setresuid'', co_setresuid K (acc_uid acc)),
      (''raise permitted'', co_set K Permitted with_setpcap),
      (''raise effective'', co_set K Effective with_setpcap)]"

definition lower_steps :: "'p cap_ops \<Rightarrow> capability set \<Rightarrow> capability list \<Rightarrow> (string \<times> 'p cap_call) list" where
  "lower_steps K finals to_drop =
     map (\<lambda>c. (''bounding set drop'', co_drop K Bounding c)) to_drop @
     [(''set effective'', co_set K Effective finals),
      (''set permitted'', co_set K Permitted finals),
      (''clear inheritable'', co_clear K Inheritable),
      (''clear ambient'', co_clear K Ambient),
      (''PR_SET_KEEPCAPS'', co_set_keepcaps K False),
      (''PR_SET_NO_NEW_PRIVS'', co_set_no_new_privs K)]"

definition drop_privileges_to :: "'p cap_ops \<Rightarrow> account \<Rightarrow> authority \<Rightarrow> 'p \<Rightarrow> 'p \<times> (privilege_error, unit) result" where
  "drop_privileges_to K acc a p =
     (let finals = final_capability_set a in
      case run_steps (raise_steps K acc (insert CAP_SETPCAP finals)) p of
        (p, Inl e) \<Rightarrow> (p, Err e)
      | (p, Inr _) \<Rightarrow>
          (case co_bounding K p of
             Inl reason \<Rightarrow> (p, Err (StepFailed ''read bounding set'' reason))
           | Inr bounding \<Rightarrow> run_steps (lower_steps K finals (sort (filter (\<lambda>c. c \<notin> finals) bounding))) p))"

definition drop_privileges :: "'p cap_ops \<Rightarrow> string \<Rightarrow> authority \<Rightarrow> 'p \<Rightarrow> 'p \<times> (privilege_error, drop_outcome) result" where
  "drop_privileges K user a p =
     (if \<not> co_is_root K p then (p, Ok SkippedUnprivileged)
      else case co_lookup K user p of
        Inl reason \<Rightarrow> (p, Err (StepFailed ''user lookup'' reason))
      | Inr None \<Rightarrow> (p, Err (UnknownUser user))
      | Inr (Some acc) \<Rightarrow>
          (case drop_privileges_to K acc a p of
             (p, Inl e) \<Rightarrow> (p, Err e)
           | (p, Inr _) \<Rightarrow> (p, Ok Dropped)))"

section \<open>What the kernel documents\<close>

record creds =
  cr_sets :: "set_kind \<Rightarrow> capability set"
  cr_uid :: nat
  cr_gid :: nat
  cr_groups :: "nat list"
  cr_keepcaps :: bool
  cr_no_new_privs :: bool

text \<open>
  A successful call does what it says; a change of identity may clear any set but the bounding set, and a
  change of the other sets may lower the ambient one.
\<close>

definition linux_caps :: "'p cap_ops \<Rightarrow> ('p \<Rightarrow> creds) \<Rightarrow> bool" where
  "linux_caps K view \<longleftrightarrow>
     (\<forall>p q b. co_set_keepcaps K b p = (q, Inr ()) \<longrightarrow> view q = (view p)\<lparr>cr_keepcaps := b\<rparr>) \<and>
     (\<forall>p q g. co_setgroups K g p = (q, Inr ()) \<longrightarrow> view q = (view p)\<lparr>cr_groups := [g]\<rparr>) \<and>
     (\<forall>p q g. co_setresgid K g p = (q, Inr ()) \<longrightarrow> view q = (view p)\<lparr>cr_gid := g\<rparr>) \<and>
     (\<forall>p q u. co_setresuid K u p = (q, Inr ()) \<longrightarrow>
        (\<exists>sets. sets Bounding = cr_sets (view p) Bounding \<and> view q = (view p)\<lparr>cr_uid := u, cr_sets := sets\<rparr>)) \<and>
     (\<forall>p bs. co_bounding K p = Inr bs \<longrightarrow> set bs = cr_sets (view p) Bounding) \<and>
     (\<forall>p q k c. co_set K k c p = (q, Inr ()) \<longrightarrow>
        (\<exists>amb. view q = (view p)\<lparr>cr_sets := (cr_sets (view p))(Ambient := amb, k := c)\<rparr>)) \<and>
     (\<forall>p q k c. co_drop K k c p = (q, Inr ()) \<longrightarrow>
        (\<exists>amb. view q = (view p)\<lparr>cr_sets := (cr_sets (view p))(Ambient := amb, k := cr_sets (view p) k - {c})\<rparr>)) \<and>
     (\<forall>p q k. co_clear K k p = (q, Inr ()) \<longrightarrow>
        (\<exists>amb. view q = (view p)\<lparr>cr_sets := (cr_sets (view p))(Ambient := amb, k := {})\<rparr>)) \<and>
     (\<forall>p q. co_set_no_new_privs K p = (q, Inr ()) \<longrightarrow> view q = (view p)\<lparr>cr_no_new_privs := True\<rparr>)"

lemma linux_keepcaps: "\<lbrakk>linux_caps K view; co_set_keepcaps K b p = (q, Inr ())\<rbrakk> \<Longrightarrow> view q = (view p)\<lparr>cr_keepcaps := b\<rparr>"
  unfolding linux_caps_def by (elim conjE) metis

lemma linux_setgroups: "\<lbrakk>linux_caps K view; co_setgroups K g p = (q, Inr ())\<rbrakk> \<Longrightarrow> view q = (view p)\<lparr>cr_groups := [g]\<rparr>"
  unfolding linux_caps_def by (elim conjE) metis

lemma linux_setresgid: "\<lbrakk>linux_caps K view; co_setresgid K g p = (q, Inr ())\<rbrakk> \<Longrightarrow> view q = (view p)\<lparr>cr_gid := g\<rparr>"
  unfolding linux_caps_def by (elim conjE) metis

lemma linux_setresuid:
  assumes "linux_caps K view" "co_setresuid K u p = (q, Inr ())"
  obtains sets where "sets Bounding = cr_sets (view p) Bounding" "view q = (view p)\<lparr>cr_uid := u, cr_sets := sets\<rparr>"
  using assms unfolding linux_caps_def by (elim conjE) metis

lemma linux_bounding: "\<lbrakk>linux_caps K view; co_bounding K p = Inr bs\<rbrakk> \<Longrightarrow> set bs = cr_sets (view p) Bounding"
  unfolding linux_caps_def by (elim conjE) metis

lemma linux_set:
  assumes "linux_caps K view" "co_set K k c p = (q, Inr ())"
  obtains amb where "view q = (view p)\<lparr>cr_sets := (cr_sets (view p))(Ambient := amb, k := c)\<rparr>"
  using assms unfolding linux_caps_def by (elim conjE) metis

lemma linux_drop:
  assumes "linux_caps K view" "co_drop K k c p = (q, Inr ())"
  obtains amb where "view q = (view p)\<lparr>cr_sets := (cr_sets (view p))(Ambient := amb, k := cr_sets (view p) k - {c})\<rparr>"
  using assms unfolding linux_caps_def by (elim conjE) metis

lemma linux_clear:
  assumes "linux_caps K view" "co_clear K k p = (q, Inr ())"
  obtains amb where "view q = (view p)\<lparr>cr_sets := (cr_sets (view p))(Ambient := amb, k := {})\<rparr>"
  using assms unfolding linux_caps_def by (elim conjE) metis

lemma linux_no_new_privs:
  "\<lbrakk>linux_caps K view; co_set_no_new_privs K p = (q, Inr ())\<rbrakk> \<Longrightarrow> view q = (view p)\<lparr>cr_no_new_privs := True\<rparr>"
  unfolding linux_caps_def by (elim conjE) metis

section \<open>The sequence step by step\<close>

lemma run_steps_Cons_ok:
  "run_steps ((name, call) # steps) p = (q, Inr ()) \<longleftrightarrow> (\<exists>m. call p = (m, Inr ()) \<and> run_steps steps m = (q, Inr ()))"
  by (auto split: prod.splits sum.splits)

lemma run_steps_append_ok:
  "run_steps (xs @ ys) p = (q, Inr ()) \<longleftrightarrow> (\<exists>m. run_steps xs p = (m, Inr ()) \<and> run_steps ys m = (q, Inr ()))"
proof (induction xs arbitrary: p)
  case (Cons x xs)
  obtain name call where x: "x = (name, call)" by fastforce
  show ?case unfolding x append_Cons run_steps_Cons_ok Cons.IH by blast
qed simp

lemma raised:
  assumes "linux_caps K view" "run_steps (raise_steps K acc caps) p = (m, Inr ())"
  shows "cr_uid (view m) = acc_uid acc \<and> cr_gid (view m) = acc_gid acc \<and> cr_groups (view m) = [acc_gid acc] \<and>
    cr_sets (view m) Bounding = cr_sets (view p) Bounding"
proof -
  obtain a b c d e where st: "co_set_keepcaps K True p = (a, Inr ())" "co_setgroups K (acc_gid acc) a = (b, Inr ())"
    "co_setresgid K (acc_gid acc) b = (c, Inr ())" "co_setresuid K (acc_uid acc) c = (d, Inr ())"
    "co_set K Permitted caps d = (e, Inr ())" "co_set K Effective caps e = (m, Inr ())"
    using assms(2) unfolding raise_steps_def run_steps_Cons_ok run_steps.simps(1) by auto
  note l = assms(1)
  from l st(4) obtain s1 where "s1 Bounding = cr_sets (view c) Bounding" "view d = (view c)\<lparr>cr_uid := acc_uid acc, cr_sets := s1\<rparr>"
    by (rule linux_setresuid)
  moreover from l st(5) obtain a1 where "view e = (view d)\<lparr>cr_sets := (cr_sets (view d))(Ambient := a1, Permitted := caps)\<rparr>"
    by (rule linux_set)
  moreover from l st(6) obtain a2 where "view m = (view e)\<lparr>cr_sets := (cr_sets (view e))(Ambient := a2, Effective := caps)\<rparr>"
    by (rule linux_set)
  ultimately show ?thesis
    using linux_keepcaps [OF l st(1)] linux_setgroups [OF l st(2)] linux_setresgid [OF l st(3)] by simp
qed

lemma bounding_dropped:
  assumes "linux_caps K view"
  shows "run_steps (map (\<lambda>c. (''bounding set drop'', co_drop K Bounding c)) cs) p = (m, Inr ()) \<Longrightarrow>
    (\<exists>sets. sets Bounding = cr_sets (view p) Bounding - set cs \<and> view m = (view p)\<lparr>cr_sets := sets\<rparr>)"
proof (induction cs arbitrary: p)
  case Nil
  then show ?case by (intro exI [of _ "cr_sets (view p)"]) simp
next
  case (Cons c cs)
  then obtain q where q: "co_drop K Bounding c p = (q, Inr ())"
    "run_steps (map (\<lambda>c. (''bounding set drop'', co_drop K Bounding c)) cs) q = (m, Inr ())"
    unfolding list.map run_steps_Cons_ok by blast
  from assms q(1) obtain am where
    "view q = (view p)\<lparr>cr_sets := (cr_sets (view p))(Ambient := am, Bounding := cr_sets (view p) Bounding - {c})\<rparr>"
    by (rule linux_drop)
  moreover obtain s2 where "s2 Bounding = cr_sets (view q) Bounding - set cs" "view m = (view q)\<lparr>cr_sets := s2\<rparr>"
    using Cons.IH [OF q(2)] by blast
  ultimately show ?case by (intro exI [of _ s2]) auto
qed

lemma lowered:
  assumes "linux_caps K view" "run_steps (lower_steps K finals cs) p = (q, Inr ())"
  shows "\<exists>sets. view q = (view p)\<lparr>cr_sets := sets, cr_keepcaps := False, cr_no_new_privs := True\<rparr> \<and>
    sets Effective = finals \<and> sets Permitted = finals \<and> sets Inheritable = {} \<and> sets Ambient = {} \<and>
    sets Bounding = cr_sets (view p) Bounding - set cs"
proof -
  obtain a b c d e f where st: "run_steps (map (\<lambda>c. (''bounding set drop'', co_drop K Bounding c)) cs) p = (a, Inr ())"
    "co_set K Effective finals a = (b, Inr ())" "co_set K Permitted finals b = (c, Inr ())"
    "co_clear K Inheritable c = (d, Inr ())" "co_clear K Ambient d = (e, Inr ())"
    "co_set_keepcaps K False e = (f, Inr ())" "co_set_no_new_privs K f = (q, Inr ())"
    using assms(2) unfolding lower_steps_def run_steps_append_ok run_steps_Cons_ok run_steps.simps(1) by auto
  note l = assms(1)
  from l have "\<exists>s. s Bounding = cr_sets (view p) Bounding - set cs \<and> view a = (view p)\<lparr>cr_sets := s\<rparr>"
    using st(1) by (rule bounding_dropped)
  then obtain s0 where "s0 Bounding = cr_sets (view p) Bounding - set cs" "view a = (view p)\<lparr>cr_sets := s0\<rparr>" by blast
  moreover from l st(2) obtain a1 where "view b = (view a)\<lparr>cr_sets := (cr_sets (view a))(Ambient := a1, Effective := finals)\<rparr>"
    by (rule linux_set)
  moreover from l st(3) obtain a2 where "view c = (view b)\<lparr>cr_sets := (cr_sets (view b))(Ambient := a2, Permitted := finals)\<rparr>"
    by (rule linux_set)
  moreover from l st(4) obtain a3 where "view d = (view c)\<lparr>cr_sets := (cr_sets (view c))(Ambient := a3, Inheritable := {})\<rparr>"
    by (rule linux_clear)
  moreover from l st(5) obtain a4 where "view e = (view d)\<lparr>cr_sets := (cr_sets (view d))(Ambient := a4, Ambient := {})\<rparr>"
    by (rule linux_clear)
  ultimately show ?thesis
    using linux_keepcaps [OF l st(6)] linux_no_new_privs [OF l st(7)] by (intro exI [of _ "cr_sets (view e)"]) simp
qed

lemma final_set_exact: "CAP_SYS_BOOT \<in> final_capability_set a \<longleftrightarrow> au_reboot a" "CAP_SETPCAP \<notin> final_capability_set a"
  by (simp_all add: final_capability_set_def FINAL_CAPS_def CAP_SYS_ADMIN_def CAP_SYS_BOOT_def CAP_SETPCAP_def
      CAP_DAC_READ_SEARCH_def)

lemma drop_complete:
  assumes "linux_caps K view" "drop_privileges K user a p = (q, Ok Dropped)"
  shows "\<exists>acc. co_lookup K user p = Ok (Some acc) \<and> cr_uid (view q) = acc_uid acc \<and> cr_gid (view q) = acc_gid acc \<and>
    cr_groups (view q) = [acc_gid acc] \<and>
    cr_sets (view q) Effective = final_capability_set a \<and> cr_sets (view q) Permitted = final_capability_set a \<and>
    cr_sets (view q) Inheritable = {} \<and> cr_sets (view q) Ambient = {} \<and>
    cr_sets (view q) Bounding = cr_sets (view p) Bounding \<inter> final_capability_set a \<and>
    \<not> cr_keepcaps (view q) \<and> cr_no_new_privs (view q)"
proof -
  let ?F = "final_capability_set a"
  obtain acc where acc: "co_lookup K user p = Ok (Some acc)" and to: "drop_privileges_to K acc a p = (q, Inr ())"
    using assms(2) by (auto simp: drop_privileges_def split: if_splits sum.splits option.splits prod.splits)
  obtain m bs where m: "run_steps (raise_steps K acc (insert CAP_SETPCAP ?F)) p = (m, Inr ())"
    and bs: "co_bounding K m = Inr bs" "run_steps (lower_steps K ?F (sort (filter (\<lambda>c. c \<notin> ?F) bs))) m = (q, Inr ())"
    using to by (auto simp: drop_privileges_to_def Let_def split: prod.splits sum.splits)
  have fits: "B - set (sort (filter (\<lambda>c. c \<notin> ?F) bs)) = B \<inter> ?F" if "set bs = B" for B
    using that by auto
  obtain sets where "view q = (view m)\<lparr>cr_sets := sets, cr_keepcaps := False, cr_no_new_privs := True\<rparr>"
    "sets Effective = ?F" "sets Permitted = ?F" "sets Inheritable = {}" "sets Ambient = {}"
    "sets Bounding = cr_sets (view m) Bounding \<inter> ?F"
    using lowered [OF assms(1) bs(2)] unfolding fits [OF linux_bounding [OF assms(1) bs(1)]] by blast
  with raised [OF assms(1) m] acc show ?thesis by simp
qed

section \<open>Properties\<close>

text \<open>
  A drop that reports success was complete: the process is the service account with no other groups,
  its effective and permitted sets are exactly the final set of its authority, its inheritable and ambient
  sets are empty, its bounding set is within the final set, \<^verbatim>\<open>KEEPCAPS\<close> is off and \<^verbatim>\<open>NO_NEW_PRIVS\<close> on; and
  \<^verbatim>\<open>CAP_SYS_BOOT\<close> is left exactly when the authority includes rebooting, \<^verbatim>\<open>CAP_SETPCAP\<close> never.
\<close>

theorem dropped_to_authority:
  assumes "linux_caps K view" "drop_privileges K user a p = (q, Ok Dropped)"
  shows "\<exists>acc. co_lookup K user p = Ok (Some acc) \<and> cr_uid (view q) = acc_uid acc \<and> cr_gid (view q) = acc_gid acc \<and>
    cr_groups (view q) = [acc_gid acc] \<and>
    cr_sets (view q) Effective = final_capability_set a \<and> cr_sets (view q) Permitted = final_capability_set a \<and>
    cr_sets (view q) Inheritable = {} \<and> cr_sets (view q) Ambient = {} \<and>
    cr_sets (view q) Bounding = cr_sets (view p) Bounding \<inter> final_capability_set a \<and>
    \<not> cr_keepcaps (view q) \<and> cr_no_new_privs (view q) \<and>
    (CAP_SYS_BOOT \<in> final_capability_set a \<longleftrightarrow> au_reboot a) \<and> CAP_SETPCAP \<notin> final_capability_set a"
  using drop_complete [OF assms] by (simp add: final_set_exact)

section \<open>Witnesses\<close>

text \<open>A kernel on which every call that is allowed does exactly what it says; its capabilities are 0 to 40.\<close>

definition plain_caps :: "creds cap_ops" where
  "plain_caps =
     \<lparr>co_is_root = (\<lambda>p. cr_uid p = 0),
      co_lookup = (\<lambda>u p. Ok (if u = ''qeminga'' then Some \<lparr>acc_uid = 990, acc_gid = 991\<rparr> else None)),
      co_set_keepcaps = (\<lambda>b p. (p\<lparr>cr_keepcaps := b\<rparr>, Ok ())),
      co_setgroups = (\<lambda>g p. (p\<lparr>cr_groups := [g]\<rparr>, Ok ())),
      co_setresgid = (\<lambda>g p. (p\<lparr>cr_gid := g\<rparr>, Ok ())),
      co_setresuid = (\<lambda>u p. (p\<lparr>cr_uid := u, cr_sets := (cr_sets p)(Effective := {})\<rparr>, Ok ())),
      co_bounding = (\<lambda>p. if cr_sets p Bounding \<subseteq> {..40} then Ok (sorted_list_of_set (cr_sets p Bounding)) else Err ''EINVAL''),
      co_set = (\<lambda>k c p. (p\<lparr>cr_sets := (cr_sets p)(k := c)\<rparr>, Ok ())),
      co_drop = (\<lambda>k c p. (p\<lparr>cr_sets := (cr_sets p)(k := cr_sets p k - {c})\<rparr>, Ok ())),
      co_clear = (\<lambda>k p. (p\<lparr>cr_sets := (cr_sets p)(k := {})\<rparr>, Ok ())),
      co_set_no_new_privs = (\<lambda>p. (p\<lparr>cr_no_new_privs := True\<rparr>, Ok ()))\<rparr>"

definition root_creds :: creds where
  "root_creds =
     \<lparr>cr_sets = (\<lambda>k. if k = Inheritable \<or> k = Ambient then {} else {..40}), cr_uid = 0, cr_gid = 0, cr_groups = [0],
      cr_keepcaps = False, cr_no_new_privs = False\<rparr>"

lemma plain_sets:
  "\<exists>amb. p\<lparr>cr_sets := (cr_sets p)(k := c)\<rparr> = p\<lparr>cr_sets := (cr_sets p)(Ambient := amb, k := c)\<rparr>"
  by (rule exI [of _ "cr_sets p Ambient"]) simp

lemma linux_plain_caps: "linux_caps plain_caps (\<lambda>p. p)"
  unfolding linux_caps_def
proof (intro conjI allI impI)
  fix p q :: creds and u assume "co_setresuid plain_caps u p = (q, Inr ())"
  then show "\<exists>sets. sets Bounding = cr_sets p Bounding \<and> q = p\<lparr>cr_uid := u, cr_sets := sets\<rparr>"
    by (intro exI [of _ "(cr_sets p)(Effective := {})"]) (auto simp: plain_caps_def)
next
  fix p :: creds and bs assume "co_bounding plain_caps p = Inr bs"
  then show "set bs = cr_sets p Bounding" by (auto simp: plain_caps_def finite_subset split: if_splits)
qed (auto simp: plain_caps_def plain_sets)

lemma run_steps_succeed: "\<forall>(name, call) \<in> set steps. \<forall>p. snd (call p) = Inr () \<Longrightarrow> \<exists>q. run_steps steps p = (q, Inr ())"
proof (induction steps arbitrary: p)
  case (Cons x steps)
  obtain name call where x: "x = (name, call)" by fastforce
  then obtain m where "call p = (m, Inr ())" using Cons.prems by (metis (mono_tags, lifting) list.set_intros(1) prod.case prod.exhaust_sel)
  with Cons show ?case by (auto simp: x)
qed simp

lemma plain_drop_succeeds: "\<exists>q. drop_privileges plain_caps ''qeminga'' a root_creds = (q, Ok Dropped)"
proof -
  let ?acc = "\<lparr>acc_uid = 990, acc_gid = 991\<rparr>" and ?F = "final_capability_set a"
  have "\<exists>m. run_steps (raise_steps plain_caps ?acc (insert CAP_SETPCAP ?F)) root_creds = (m, Inr ())"
    by (rule run_steps_succeed) (simp add: raise_steps_def plain_caps_def)
  then obtain m where m: "run_steps (raise_steps plain_caps ?acc (insert CAP_SETPCAP ?F)) root_creds = (m, Inr ())" ..
  from raised [OF linux_plain_caps m] have "cr_sets m Bounding = {..40}" by (simp add: root_creds_def)
  then have b: "co_bounding plain_caps m = Ok (sorted_list_of_set {..40})" by (simp add: plain_caps_def)
  have "\<exists>q. run_steps (lower_steps plain_caps ?F cs) m = (q, Inr ())" for cs
    by (rule run_steps_succeed) (auto simp: lower_steps_def plain_caps_def)
  with m b have "\<exists>q. drop_privileges_to plain_caps ?acc a root_creds = (q, Inr ())"
    by (simp add: drop_privileges_to_def Let_def)
  moreover have "co_is_root plain_caps root_creds" "co_lookup plain_caps ''qeminga'' root_creds = Inr (Some ?acc)"
    by (simp_all add: plain_caps_def root_creds_def)
  ultimately show ?thesis by (auto simp: drop_privileges_def)
qed

theorem dropped_to_authority_witness:
  "\<exists>q. drop_privileges plain_caps ''qeminga'' authority_full root_creds = (q, Ok Dropped) \<and> cr_uid q = 990 \<and>
    cr_groups q = [991] \<and> cr_sets q Effective = {21, 22, 2} \<and> cr_sets q Bounding = {21, 22, 2} \<and> cr_no_new_privs q"
proof -
  obtain q where q: "drop_privileges plain_caps ''qeminga'' authority_full root_creds = (q, Ok Dropped)"
    using plain_drop_succeeds [of authority_full] by blast
  have F: "final_capability_set authority_full = {21, 22, 2}"
    by (simp add: final_capability_set_def FINAL_CAPS_def CAP_SYS_ADMIN_def CAP_SYS_BOOT_def CAP_DAC_READ_SEARCH_def
        authority_full_def)
  from q dropped_to_authority [OF linux_plain_caps q] show ?thesis
    by (intro exI [of _ q]) (auto simp: F plain_caps_def root_creds_def)
qed

end
