(* ===== verification/Daemon.thy ===== *)
theory Daemon
  imports Caps Seccomp AuditSafety Channel
begin

text \<open>
  \<^verbatim>\<open>src/daemon.rs\<close> and \<^verbatim>\<open>src/main.rs\<close>: the command line, the start-up sequence over the trait \<^verbatim>\<open>Startup\<close>
  (the record \<open>startup\<close> over a state \<open>'w\<close>), its production instance \<^verbatim>\<open>SystemStartup\<close> over the operations of
  the other components, and the serving loop with its deferred stop.

  Shown: under enforced hardening nothing is served but as the service account, with the final
  capabilities and a filter in force; the audit writer never has more; the start-up sequence leads to
  a start state of the life cycle; a stop waits for the thaw.
\<close>

section \<open>The command line\<close>

definition SERVICE_USER :: string where
  "SERVICE_USER = ''qeminga''"

definition EX_USAGE :: nat where
  "EX_USAGE = 64"

definition EX_UNAVAILABLE :: nat where
  "EX_UNAVAILABLE = 69"

definition EX_OSERR :: nat where
  "EX_OSERR = 71"

definition EXIT_IOERR :: nat where
  "EXIT_IOERR = 74"

definition EX_NOPERM :: nat where
  "EX_NOPERM = 77"

definition EX_CONFIG :: nat where
  "EX_CONFIG = 78"

definition USAGE :: string where
  "USAGE = ''usage: qeminga [--config PATH] [--version]''"

record options =
  op_config_path :: path
  op_version :: bool

definition default_options :: options where
  "default_options = \<lparr>op_config_path = DEFAULT_CONFIG_PATH, op_version = False\<rparr>"

definition strip_prefix :: "bytes \<Rightarrow> bytes \<Rightarrow> bytes option" where
  "strip_prefix pre s = (if take (length pre) s = pre then Some (drop (length pre) s) else None)"

fun parse_options :: "options \<Rightarrow> bytes list \<Rightarrow> (string, options) result" where
  "parse_options opts [] = Ok opts"
| "parse_options opts (arg # args) =
     (if arg = ''--version'' \<or> arg = ''-V'' then parse_options (opts\<lparr>op_version := True\<rparr>) args
      else if arg = ''--config'' then
        (case args of
           path # args \<Rightarrow> parse_options (opts\<lparr>op_config_path := path\<rparr>) args
         | [] \<Rightarrow> Err ''--config needs a PATH'')
      else case strip_prefix ''--config='' arg of
        Some path \<Rightarrow>
          if path = [] then Err ''--config needs a PATH''
          else parse_options (opts\<lparr>op_config_path := path\<rparr>) args
      | None \<Rightarrow> Err (''unrecognised argument: '' @ from_utf8_lossy arg))"

definition parse_args :: "bytes list \<Rightarrow> (string, options) result" where
  "parse_args args = parse_options default_options args"

section \<open>Errors\<close>

datatype run_error =
    ReConfig config_error
  | ReMarker marker_error
  | ReStatePath path path dev
  | ReMountTable string
  | ReChannel open_error
  | RePrivileges privilege_error
  | ReSeccomp string
  | ReHardening string
  | ReRuntime string

definition run_error_text :: "(errno \<Rightarrow> string) \<Rightarrow> run_error \<Rightarrow> string" where
  "run_error_text tx e =
     (case e of
        ReConfig e \<Rightarrow> config_error_text e
      | ReMarker e \<Rightarrow> marker_error_text tx e
      | ReStatePath p mount d \<Rightarrow>
          ''state_path '' @ from_utf8_lossy p @ '' is on '' @ from_utf8_lossy mount @ '' ('' @ show_nat (fst d) @ '':'' @
          show_nat (snd d) @ ''), which the freeze plan would freeze; put it on tmpfs (e.g. /run)''
      | ReMountTable s \<Rightarrow> ''cannot read the mount table: '' @ s
      | ReChannel e \<Rightarrow> open_error_text e
      | RePrivileges e \<Rightarrow> ''cannot drop privileges: '' @ privilege_error_text e
      | ReSeccomp s \<Rightarrow> ''seccomp: '' @ s
      | ReHardening s \<Rightarrow>
          ''hardening: '' @ s @
          ''; refusing to serve the host (set [agent] hardening = \"unenforced-development-only\" on a development host only)''
      | ReRuntime s \<Rightarrow> s)"

definition exit_code :: "run_error \<Rightarrow> nat" where
  "exit_code e =
     (case e of
        ReConfig _ \<Rightarrow> EX_CONFIG
      | ReMarker _ \<Rightarrow> EX_CONFIG
      | ReStatePath _ _ _ \<Rightarrow> EX_CONFIG
      | ReMountTable _ \<Rightarrow> EX_CONFIG
      | ReHardening _ \<Rightarrow> EX_CONFIG
      | ReChannel _ \<Rightarrow> EX_UNAVAILABLE
      | RePrivileges _ \<Rightarrow> EX_NOPERM
      | ReSeccomp _ \<Rightarrow> EX_OSERR
      | ReRuntime _ \<Rightarrow> EX_OSERR)"

section \<open>What the build can enforce\<close>

record build_profile =
  bp_seccomp_compiled :: bool
  bp_seccomp_mode :: string
  bp_fake_kernel_requested :: bool

definition FAKE_KERNEL_ENV :: string where
  "FAKE_KERNEL_ENV = ''QEMINGA_TEST_FAKE_KERNEL''"

text \<open>\<open>logs\<close> as in \<open>Seccomp\<close>.\<close>

definition seccomp_mode :: "build \<Rightarrow> bool \<Rightarrow> string" where
  "seccomp_mode bd logs = (if bd_seccomp bd then filter_mode logs else ''unavailable'')"

definition current_profile :: "build \<Rightarrow> bool \<Rightarrow> bool \<Rightarrow> build_profile" where
  "current_profile bd logs fake_env =
     \<lparr>bp_seccomp_compiled = bd_seccomp bd, bp_seccomp_mode = seccomp_mode bd logs,
      bp_fake_kernel_requested = fake_env\<rparr>"

definition check_hardening :: "config \<Rightarrow> build_profile \<Rightarrow> (run_error, unit) result" where
  "check_hardening c bp =
     (if \<not> is_enforced (ac_hardening (cf_agent c)) then Ok ()
      else if \<not> ft_seccomp (cf_features c) then
        Err (ReHardening ''the seccomp filter is disabled ([features] seccomp = false)'')
      else if \<not> bp_seccomp_compiled bp then
        Err (ReHardening ''this binary was built without the `seccomp` Cargo feature'')
      else if bp_seccomp_mode bp \<noteq> ''enforce'' then
        Err (ReHardening (''this binary'' @ [CHR 39] @ ''s seccomp filter would only '' @ bp_seccomp_mode bp @
          '' (a `seccomp-log` debug build)''))
      else if bp_fake_kernel_requested bp then
        Err (ReHardening (FAKE_KERNEL_ENV @
          '' is set: a test-kernel substitution is never honoured under enforced hardening''))
      else Ok ())"

section \<open>The sequence\<close>

text \<open>The events of the sequence, in place of the \<^verbatim>\<open>tracing\<close> macros' fields.\<close>

datatype log_event =
    FeatureWarning string
  | Startup path bool
  | ChannelOpenFailed open_error
  | ChannelOpenDeferred path
  | AuthorityDerived authority
  | PrivilegesDropped
  | SeccompUnavailable string
  | SeccompFilter bool string
  | SeccompLogMode
  | StartupFailed run_error

record 'w startup =
  su_load_config :: "path \<Rightarrow> 'w \<Rightarrow> (config_error, config) result"
  su_build_profile :: "'w \<Rightarrow> build_profile"
  su_open_marker :: "path \<Rightarrow> 'w \<Rightarrow> 'w \<times> (run_error, marker) result"
  su_marker_exists :: "marker \<Rightarrow> 'w \<Rightarrow> bool"
  su_init_logging :: "log_level \<Rightarrow> bool \<Rightarrow> 'w \<Rightarrow> 'w \<times> (run_error, unit) result"
  su_log :: "log_event \<Rightarrow> 'w \<Rightarrow> 'w"
  su_mount_table :: "'w \<Rightarrow> (string, mount_entry list) result"
  su_open_channel :: "path \<Rightarrow> 'w \<Rightarrow> 'w \<times> (open_error, fd option) result"
  su_drop_privileges :: "authority \<Rightarrow> 'w \<Rightarrow> 'w \<times> (privilege_error, drop_outcome) result"
  su_start_audit_writer :: "'w \<Rightarrow> 'w \<times> (run_error, unit) result"
  su_install_seccomp :: "config \<Rightarrow> 'w \<Rightarrow> 'w \<times> (run_error, bool) result"
  su_serve :: "config \<Rightarrow> bool \<Rightarrow> fd option \<Rightarrow> marker \<Rightarrow> 'w \<Rightarrow> 'w \<times> (run_error, unit) result"
  su_flush_to_normal :: "'w \<Rightarrow> 'w"
  su_start_writer :: "'w \<Rightarrow> 'w \<times> (string, unit) result"
  su_logging_set :: "'w \<Rightarrow> bool"

text \<open>\<^verbatim>\<open>run_with\<close> up to logging.\<close>

definition logging_up :: "'w startup \<Rightarrow> options \<Rightarrow> 'w \<Rightarrow> 'w \<times> (run_error, config \<times> marker \<times> bool) result" where
  "logging_up S opts w =
     (case su_load_config S (op_config_path opts) w of
        Inl e \<Rightarrow> (w, Err (ReConfig e))
      | Inr c \<Rightarrow>
          (case check_hardening c (su_build_profile S w) of
             Inl e \<Rightarrow> (w, Err e)
           | Inr _ \<Rightarrow>
               (case su_open_marker S (ac_state_path (cf_agent c)) w of
                  (w, Inl e) \<Rightarrow> (w, Err e)
                | (w, Inr mk) \<Rightarrow>
                    (let recovery = su_marker_exists S mk w in
                     case su_init_logging S (ac_log_level (cf_agent c)) recovery w of
                       (w, Inl e) \<Rightarrow> (w, Err e)
                     | (w, Inr _) \<Rightarrow> (w, Ok (c, mk, recovery))))))"

text \<open>The check of \<^verbatim>\<open>state_path\<close> against the freeze plan.\<close>

definition check_state_path :: "config \<Rightarrow> marker \<Rightarrow> mount_entry list \<Rightarrow> (run_error, unit) result" where
  "check_state_path c mk mounts =
     (let dev = mk_dev mk in
      if covers_device (FreezePlan.build mounts) dev then
        Err (ReStatePath (ac_state_path (cf_agent c))
          (case find (\<lambda>entry. entry_dev entry = dev) mounts of Some entry \<Rightarrow> me_mount_point entry | None \<Rightarrow> []) dev)
      else Ok ())"

text \<open>The privilege drop and the thread after it, then the filter.\<close>

definition confine :: "'w startup \<Rightarrow> build \<Rightarrow> config \<Rightarrow> 'w \<Rightarrow> 'w \<times> (run_error, unit) result" where
  "confine S bd c w =
     (case su_drop_privileges S (authority_of bd c) (su_log S (AuthorityDerived (authority_of bd c)) w) of
        (w, Inl e) \<Rightarrow> (w, Err (RePrivileges e))
      | (w, Inr outcome) \<Rightarrow>
          if outcome = SkippedUnprivileged \<and> is_enforced (ac_hardening (cf_agent c))
          then (w, Err (ReHardening ''not started as root, so the capability drop did not run''))
          else su_start_audit_writer S (if outcome = Dropped then su_log S PrivilegesDropped w else w))"

definition confine_calls :: "'w startup \<Rightarrow> string \<Rightarrow> config \<Rightarrow> 'w \<Rightarrow> 'w \<times> (run_error, unit) result" where
  "confine_calls S mode c w =
     (let enforced = is_enforced (ac_hardening (cf_agent c)) in
      case (case su_install_seccomp S c w of
              (w, Inr installed) \<Rightarrow> (w, Inr installed)
            | (w, Inl (ReSeccomp reason)) \<Rightarrow>
                if enforced then (w, Err (ReHardening (''the seccomp filter could not be installed: '' @ reason)))
                else (su_log S (SeccompUnavailable reason) w, Ok False)
            | (w, Inl e) \<Rightarrow> (w, Err e)) of
        (w, Inl e) \<Rightarrow> (w, Err e)
      | (w, Inr seccomp) \<Rightarrow>
          if \<not> seccomp \<and> enforced then (w, Err (ReHardening ''the seccomp filter was not installed''))
          else
            let w = su_log S (SeccompFilter seccomp mode) w
            in (if seccomp \<and> mode = ''log'' then su_log S SeccompLogMode w else w, Ok ()))"

text \<open>\<^verbatim>\<open>serve_after_logging\<close> up to the call of \<^verbatim>\<open>serve\<close>.\<close>

definition prepare :: "'w startup \<Rightarrow> build \<Rightarrow> string \<Rightarrow> options \<Rightarrow> config \<Rightarrow> marker \<Rightarrow> bool \<Rightarrow> 'w
    \<Rightarrow> 'w \<times> (run_error, fd option) result" where
  "prepare S bd mode opts c mk recovery w =
     (let w = fold (su_log S) (map FeatureWarning (warnings bd c) @ [Startup (op_config_path opts) recovery]) w in
      case su_mount_table S w of
        Inl e \<Rightarrow> (w, Err (ReMountTable e))
      | Inr mounts \<Rightarrow>
          (case check_state_path c mk mounts of
             Inl e \<Rightarrow> (w, Err e)
           | Inr _ \<Rightarrow>
               (case su_open_channel S (ac_channel_path (cf_agent c)) w of
                  (w, Inl e) \<Rightarrow> (w, Err (ReChannel e))
                | (w, Inr ch) \<Rightarrow>
                    (case confine S bd c
                       (if ch = None then su_log S (ChannelOpenDeferred (ac_channel_path (cf_agent c))) w else w) of
                       (w, Inl e) \<Rightarrow> (w, Err e)
                     | (w, Inr _) \<Rightarrow>
                         (case confine_calls S mode c w of
                            (w, Inl e) \<Rightarrow> (w, Err e)
                          | (w, Inr _) \<Rightarrow> (w, Ok ch))))))"

definition serve_after_logging :: "'w startup \<Rightarrow> build \<Rightarrow> string \<Rightarrow> options \<Rightarrow> config \<Rightarrow> marker \<Rightarrow> bool \<Rightarrow> 'w
    \<Rightarrow> 'w \<times> (run_error, unit) result" where
  "serve_after_logging S bd mode opts c mk recovery w =
     (case prepare S bd mode opts c mk recovery w of
        (w, Inl e) \<Rightarrow> (w, Err e)
      | (w, Inr ch) \<Rightarrow> su_serve S c recovery ch mk w)"

text \<open>The bounded wait of \<^verbatim>\<open>settle\<close> changes nothing itself.\<close>

definition run_with :: "'w startup \<Rightarrow> build \<Rightarrow> string \<Rightarrow> options \<Rightarrow> 'w \<Rightarrow> 'w \<times> (run_error, unit) result" where
  "run_with S bd mode opts w =
     (case logging_up S opts w of
        (w, Inl e) \<Rightarrow> (w, Err e)
      | (w, Inr (c, mk, recovery)) \<Rightarrow>
          (let (w, result) = serve_after_logging S bd mode opts c mk recovery w;
               w = (case result of Inl e \<Rightarrow> su_log S (StartupFailed e) w | Inr _ \<Rightarrow> w);
               (w, _) = su_start_writer S (su_flush_to_normal S w)
           in (w, result)))"

text \<open>\<^verbatim>\<open>run\<close>: the state, the exit code and the diagnostic on standard error.\<close>

definition run :: "'w startup \<Rightarrow> build \<Rightarrow> string \<Rightarrow> (errno \<Rightarrow> string) \<Rightarrow> options \<Rightarrow> 'w \<Rightarrow> 'w \<times> nat \<times> string list" where
  "run S bd mode tx opts w =
     (if op_version opts then (w, 0, [])
      else case run_with S bd mode opts w of
        (w, Inr _) \<Rightarrow> (w, 0, [])
      | (w, Inl e) \<Rightarrow> (w, exit_code e, if su_logging_set S w then [] else [''qeminga: '' @ run_error_text tx e]))"

text \<open>\<^verbatim>\<open>main\<close>; \<open>wrote\<close> is the outcome of printing the version: success, a closed pipe or another error.\<close>

datatype wrote = Wrote | BrokenPipe | WriteFailed

definition print_version :: "wrote \<Rightarrow> nat" where
  "print_version wr = (case wr of Wrote \<Rightarrow> 0 | BrokenPipe \<Rightarrow> 0 | WriteFailed \<Rightarrow> EXIT_IOERR)"

definition main :: "'w startup \<Rightarrow> build \<Rightarrow> string \<Rightarrow> (errno \<Rightarrow> string) \<Rightarrow> wrote \<Rightarrow> bytes list \<Rightarrow> 'w \<Rightarrow> 'w \<times> nat \<times> string list" where
  "main S bd mode tx wr args w =
     (case parse_args args of
        Inr opts \<Rightarrow> if op_version opts then (w, print_version wr, []) else run S bd mode tx opts w
      | Inl e \<Rightarrow> (w, EX_USAGE, [''qeminga: '' @ e, USAGE]))"

section \<open>The production steps\<close>

text \<open>
  The process: the calling thread's credentials, the marker's directory, the log router with its level
  and whether it is installed, the filters in force, and the credentials under which the audit writer's
  thread was created.
\<close>

record ('p, 'd, 'f) machine =
  mc_proc :: 'p
  mc_dir :: 'd
  mc_log :: rworld
  mc_level :: log_level
  mc_logging :: bool
  mc_filters :: "'f list"
  mc_writer :: "'p option"

text \<open>
  What the system answers; \<open>ho_serve\<close> is the run of \<^verbatim>\<open>serve_until_signal\<close>, \<open>ho_render\<close> the subscriber's
  formatting of an event at a level.
\<close>

record ('p, 'd, 'f) host =
  ho_read_file :: "path \<Rightarrow> (string, string) result"
  ho_from_toml :: "string \<Rightarrow> (string, config) result"
  ho_build :: build
  ho_logs :: bool
  ho_fake_env :: bool
  ho_dir :: "'d dir_calls"
  ho_render :: "log_level \<Rightarrow> log_event \<Rightarrow> bytes option"
  ho_mounts :: "(string, mount_entry list) result"
  ho_open :: "path \<Rightarrow> (io_error, fd) result"
  ho_caps :: "'p cap_ops"
  ho_spawn :: "(string, unit) result"
  ho_arch :: target_arch
  ho_compile :: "json \<Rightarrow> target_arch \<Rightarrow> (string, string \<rightharpoonup> 'f) result"
  ho_apply :: "'f \<Rightarrow> (string, unit) result"
  ho_runtime :: "(string, unit) result"
  ho_sigterm :: "(string, unit) result"
  ho_sigint :: "(string, unit) result"
  ho_serve :: "config \<Rightarrow> bool \<Rightarrow> fd option \<Rightarrow> marker \<Rightarrow> ('p, 'd, 'f) machine \<Rightarrow> ('p, 'd, 'f) machine \<times> (open_error, unit) result"

definition stderr_unstarted :: rworld where
  "stderr_unstarted =
     \<lparr>rw_state = router_unstarted, rw_writer = WNone, rw_notices = 0, rw_written = [], rw_out = []\<rparr>"

definition log_line :: "bytes \<Rightarrow> rworld \<Rightarrow> rworld" where
  "log_line l w = locked (w\<lparr>rw_written := rw_written w @ [l]\<rparr>) (write_record l (rw_state w))"

definition system_log :: "('p, 'd, 'f) host \<Rightarrow> log_event \<Rightarrow> ('p, 'd, 'f) machine \<Rightarrow> ('p, 'd, 'f) machine" where
  "system_log H ev m =
     (case ho_render H (mc_level m) ev of
        Some l \<Rightarrow> if mc_logging m then m\<lparr>mc_log := log_line l (mc_log m)\<rparr> else m
      | None \<Rightarrow> m)"

definition system_open_marker :: "('p, 'd, 'f) host \<Rightarrow> path \<Rightarrow> ('p, 'd, 'f) machine
    \<Rightarrow> ('p, 'd, 'f) machine \<times> (run_error, marker) result" where
  "system_open_marker H p m =
     (let (d, r) = marker_open (ho_dir H) (mc_dir m) p in (m\<lparr>mc_dir := d\<rparr>, map_err ReMarker r))"

definition ALREADY_INITIALISED :: string where
  "ALREADY_INITIALISED = ''a global tracing subscriber is already installed''"

definition system_init_logging :: "log_level \<Rightarrow> bool \<Rightarrow> ('p, 'd, 'f) machine \<Rightarrow> ('p, 'd, 'f) machine \<times> (run_error, unit) result" where
  "system_init_logging level ring m =
     (let w = stderr_unstarted;
          w = (if ring then locked w (enter_ring (rw_state w)) else w)
      in if mc_logging m then (m, Err (ReRuntime ALREADY_INITIALISED))
         else (m\<lparr>mc_log := w, mc_level := level, mc_logging := True\<rparr>, Ok ()))"

definition system_open_channel :: "('p, 'd, 'f) host \<Rightarrow> path \<Rightarrow> ('p, 'd, 'f) machine
    \<Rightarrow> ('p, 'd, 'f) machine \<times> (open_error, fd option) result" where
  "system_open_channel H p m =
     (case ho_open H p of
        Inr f \<Rightarrow> (m, Ok (Some f))
      | Inl e \<Rightarrow>
          (let err = open_error_from_io p e in
           if is_terminal err then (m, Err err) else (system_log H (ChannelOpenFailed err) m, Ok None)))"

definition system_drop_privileges :: "('p, 'd, 'f) host \<Rightarrow> authority \<Rightarrow> ('p, 'd, 'f) machine
    \<Rightarrow> ('p, 'd, 'f) machine \<times> (privilege_error, drop_outcome) result" where
  "system_drop_privileges H a m =
     (let (p, r) = drop_privileges (ho_caps H) SERVICE_USER a (mc_proc m) in (m\<lparr>mc_proc := p\<rparr>, r))"

text \<open>\<^verbatim>\<open>Router::start_writer\<close> with its thread.\<close>

definition system_start_writer :: "('p, 'd, 'f) host \<Rightarrow> ('p, 'd, 'f) machine \<Rightarrow> ('p, 'd, 'f) machine \<times> (string, unit) result" where
  "system_start_writer H m =
     (let (spawn, st) = start_writer (rw_state (mc_log m));
          w = (mc_log m)\<lparr>rw_state := st\<rparr>
      in if \<not> spawn then (m\<lparr>mc_log := w\<rparr>, Ok ())
         else case ho_spawn H of
           Inr _ \<Rightarrow> (m\<lparr>mc_log := w\<lparr>rw_writer := WReady None\<rparr>, mc_writer := Some (mc_proc m)\<rparr>, Ok ())
         | Inl e \<Rightarrow> (m\<lparr>mc_log := locked w (spawn_failed st)\<rparr>, Err e))"

definition start_audit_writer :: "('p, 'd, 'f) host \<Rightarrow> ('p, 'd, 'f) machine \<Rightarrow> ('p, 'd, 'f) machine \<times> (run_error, unit) result" where
  "start_audit_writer H m =
     (case system_start_writer H m of
        (m, Inl e) \<Rightarrow> (m, Err (ReRuntime (''cannot start the audit writer: '' @ e)))
      | (m, Inr _) \<Rightarrow> (m, Ok ()))"

text \<open>Both builds of \<^verbatim>\<open>install_seccomp\<close>: without the feature, \<^verbatim>\<open>seccomp_enabled\<close> is false.\<close>

definition system_install_seccomp :: "('p, 'd, 'f) host \<Rightarrow> config \<Rightarrow> ('p, 'd, 'f) machine
    \<Rightarrow> ('p, 'd, 'f) machine \<times> (run_error, bool) result" where
  "system_install_seccomp H c m =
     (if \<not> seccomp_enabled (ho_build H) c then (m, Ok False)
      else case profile (ho_compile H) (ho_logs H) (ho_arch H) (authority_of (ho_build H) c) of
        Inl e \<Rightarrow> (m, Err (ReSeccomp (seccomp_error_text e)))
      | Inr program \<Rightarrow>
          (case install (ho_apply H) program of
             Inl e \<Rightarrow> (m, Err (ReSeccomp (seccomp_error_text e)))
           | Inr _ \<Rightarrow> (m\<lparr>mc_filters := program # mc_filters m\<rparr>, Ok True)))"

definition system_serve :: "('p, 'd, 'f) host \<Rightarrow> config \<Rightarrow> bool \<Rightarrow> fd option \<Rightarrow> marker \<Rightarrow> ('p, 'd, 'f) machine
    \<Rightarrow> ('p, 'd, 'f) machine \<times> (run_error, unit) result" where
  "system_serve H c recovery ch mk m =
     (case ho_runtime H of
        Inl e \<Rightarrow> (m, Err (ReRuntime e))
      | Inr _ \<Rightarrow>
          (case ho_sigterm H of
             Inl e \<Rightarrow> (m, Err (ReRuntime (''cannot listen for SIGTERM: '' @ e)))
           | Inr _ \<Rightarrow>
               (case ho_sigint H of
                  Inl e \<Rightarrow> (m, Err (ReRuntime (''cannot listen for SIGINT: '' @ e)))
                | Inr _ \<Rightarrow> (let (m, r) = ho_serve H c recovery ch mk m in (m, map_err ReChannel r)))))"

definition system_startup :: "('p, 'd, 'f) host \<Rightarrow> ('p, 'd, 'f) machine startup" where
  "system_startup H =
     \<lparr>su_load_config = (\<lambda>p m. load_config (ho_read_file H) (ho_from_toml H) p),
      su_build_profile = (\<lambda>m. current_profile (ho_build H) (ho_logs H) (ho_fake_env H)),
      su_open_marker = system_open_marker H,
      su_marker_exists = (\<lambda>mk m. marker_exists (ho_dir H) (mc_dir m) mk),
      su_init_logging = system_init_logging,
      su_log = system_log H,
      su_mount_table = (\<lambda>m. ho_mounts H),
      su_open_channel = system_open_channel H,
      su_drop_privileges = system_drop_privileges H,
      su_start_audit_writer = start_audit_writer H,
      su_install_seccomp = system_install_seccomp H,
      su_serve = system_serve H,
      su_flush_to_normal = (\<lambda>m. m\<lparr>mc_log := locked (mc_log m) (snd (flush_to_normal (rw_state (mc_log m))))\<rparr>),
      su_start_writer = system_start_writer H,
      su_logging_set = mc_logging\<rparr>"

section \<open>The context of a start\<close>

definition build_workers :: "nat option \<Rightarrow> nat" where
  "build_workers available = max (case available of Some n \<Rightarrow> n | None \<Rightarrow> 2) 2"

text \<open>\<^verbatim>\<open>Context::new\<close>, with what the life cycle keeps, over the kernel and directory it finds.\<close>

definition new_context :: "config \<Rightarrow> freeze_state_machine \<Rightarrow> 'k \<Rightarrow> 'd \<Rightarrow> nat \<Rightarrow> ('k, 'd) ctx" where
  "new_context c st k d now =
     \<lparr>cx_state = st, cx_kernel = k, cx_dir = d, cx_frozen_mounts = [], cx_thaw_scope = Discovery, cx_freeze_op = None,
      cx_watchdogs = [], cx_watchdog = None, cx_audit_ring = False, cx_timeout = operation_timeout_secs (cf_agent c),
      cx_watchdog_cfg = watchdog_config_of (cf_agent c), cx_now = now, cx_arming = 0, cx_expired = 0\<rparr>"

definition production_context :: "config \<Rightarrow> bool \<Rightarrow> 'k \<Rightarrow> 'd \<Rightarrow> nat \<Rightarrow> ('k, 'd) ctx" where
  "production_context c recovery k d now =
     new_context c (if recovery then starting_frozen else new_machine) k d now"

text \<open>The first statement of \<^verbatim>\<open>serve_until_signal\<close>.\<close>

definition recovered :: "bool \<Rightarrow> ('k, 'd) ctx \<Rightarrow> ('k, 'd) ctx" where
  "recovered recovery cx = (if recovery then fst (start_recovery cx) else cx)"

section \<open>What each step leaves\<close>

lemma then_ok:
  "(case r of (w, Inl e) \<Rightarrow> (w, Inl (f e)) | (w, Inr x) \<Rightarrow> k w x) = (z, Inr y) \<longleftrightarrow> (\<exists>w x. r = (w, Inr x) \<and> k w x = (z, Inr y))"
  by (auto split: prod.splits sum.splits)

lemma check_ok: "(case r of Inl e \<Rightarrow> (w, Inl (f e)) | Inr x \<Rightarrow> k x) = (z, Inr y) \<longleftrightarrow> (\<exists>x. r = Inr x \<and> k x = (z, Inr y))"
  by (auto split: sum.splits)

lemma system_steps [simp]:
  "su_load_config (system_startup H) p m = load_config (ho_read_file H) (ho_from_toml H) p"
  "su_build_profile (system_startup H) m = current_profile (ho_build H) (ho_logs H) (ho_fake_env H)"
  "su_open_marker (system_startup H) = system_open_marker H"
  "su_marker_exists (system_startup H) mk m = marker_exists (ho_dir H) (mc_dir m) mk"
  "su_init_logging (system_startup H) = system_init_logging"
  "su_log (system_startup H) = system_log H"
  "su_mount_table (system_startup H) m = ho_mounts H"
  "su_open_channel (system_startup H) = system_open_channel H"
  "su_drop_privileges (system_startup H) = system_drop_privileges H"
  "su_start_audit_writer (system_startup H) = start_audit_writer H"
  "su_install_seccomp (system_startup H) = system_install_seccomp H"
  by (simp_all add: system_startup_def)

text \<open>\<open>logs_on\<close>: the router moved on by itself, in the mode it had, and the marker's directory was left alone.\<close>

definition quiet_step :: "rworld \<Rightarrow> rworld \<Rightarrow> bool" where
  "quiet_step w w' \<longleftrightarrow> rw_step w w' \<and> rt_mode (rw_state w') = rt_mode (rw_state w)"

definition short_lines :: "('p, 'd, 'f) host \<Rightarrow> bool" where
  "short_lines H \<longleftrightarrow> (\<forall>level ev l. ho_render H level ev = Some l \<longrightarrow> length l < U64_MAX)"

definition logs_on :: "('p, 'd, 'f) machine \<Rightarrow> ('p, 'd, 'f) machine \<Rightarrow> bool" where
  "logs_on m m' \<longleftrightarrow> quiet_step\<^sup>*\<^sup>* (mc_log m) (mc_log m') \<and> mc_dir m' = mc_dir m"

lemma logs_on_refl [simp]: "logs_on m m"
  by (simp add: logs_on_def)

lemma logs_on_trans [trans]: "logs_on m m' \<Longrightarrow> logs_on m' m'' \<Longrightarrow> logs_on m m''"
  by (auto simp: logs_on_def)

lemma write_record_fields:
  "rt_mode (write_record l st) = rt_mode st" "rt_started (write_record l st) = rt_started st"
  "rt_sink (write_record l st) = rt_sink st"
  by (auto simp: write_record_def lose_def enqueue_def Let_def split: mode.splits)

lemma system_log_frame [simp]:
  "mc_proc (system_log H ev m) = mc_proc m" "mc_dir (system_log H ev m) = mc_dir m"
  "mc_filters (system_log H ev m) = mc_filters m" "mc_writer (system_log H ev m) = mc_writer m"
  "rt_started (rw_state (mc_log (system_log H ev m))) = rt_started (rw_state (mc_log m))"
  "rt_sink (rw_state (mc_log (system_log H ev m))) = rt_sink (rw_state (mc_log m))"
  by (auto simp: system_log_def log_line_def locked_def write_record_fields split: option.splits)

lemma log_line_quiet: "length l < U64_MAX \<Longrightarrow> quiet_step w (log_line l w)"
  unfolding quiet_step_def log_line_def by (simp add: rs_write) (simp add: locked_def write_record_fields)

lemma system_log_on: "short_lines H \<Longrightarrow> logs_on m (system_log H ev m)"
  by (auto simp: system_log_def logs_on_def short_lines_def intro!: r_into_rtranclp log_line_quiet split: option.splits)

lemma system_logs_frame [simp]:
  "mc_proc (fold (system_log H) evs m) = mc_proc m" "mc_dir (fold (system_log H) evs m) = mc_dir m"
  "mc_filters (fold (system_log H) evs m) = mc_filters m" "mc_writer (fold (system_log H) evs m) = mc_writer m"
  "rt_started (rw_state (mc_log (fold (system_log H) evs m))) = rt_started (rw_state (mc_log m))"
  "rt_sink (rw_state (mc_log (fold (system_log H) evs m))) = rt_sink (rw_state (mc_log m))"
  by (induction evs arbitrary: m) simp_all

lemma system_logs_on: "short_lines H \<Longrightarrow> logs_on m (fold (system_log H) evs m)"
  by (induction evs arbitrary: m) (auto intro: logs_on_trans system_log_on)

text \<open>\<open>Unthreaded\<close>: the writer is not started and will be.\<close>

definition unthreaded :: "('p, 'd, 'f) machine \<Rightarrow> bool" where
  "unthreaded m \<longleftrightarrow> \<not> rt_started (rw_state (mc_log m)) \<and> rt_sink (rw_state (mc_log m))"

lemma unthreaded_logs [simp]:
  "unthreaded (system_log H ev m) = unthreaded m" "unthreaded (fold (system_log H) evs m) = unthreaded m"
  by (simp_all add: unthreaded_def)

lemma audit_writer_ok:
  assumes "start_audit_writer H m = (m', Inr ())" "unthreaded m"
  shows "mc_proc m' = mc_proc m \<and> mc_dir m' = mc_dir m \<and> mc_filters m' = mc_filters m \<and> mc_writer m' = Some (mc_proc m) \<and> logs_on m m'"
proof -
  let ?st = "(rw_state (mc_log m))\<lparr>rt_started := True, rt_sink := False\<rparr>"
  let ?w = "(mc_log m)\<lparr>rw_state := ?st, rw_writer := WSpawning\<rparr>"
  have sp: "start_writer (rw_state (mc_log m)) = (True, ?st)" using assms(2) by (simp add: start_writer_def unthreaded_def)
  then have m': "m' = m\<lparr>mc_log := ?w\<lparr>rw_writer := WReady None\<rparr>, mc_writer := Some (mc_proc m)\<rparr>"
    using assms(1) by (auto simp: start_audit_writer_def system_start_writer_def Let_def split: sum.splits prod.splits if_splits)
  have "quiet_step (mc_log m) ?w" using rs_start [OF sp] by (simp add: quiet_step_def)
  moreover have "quiet_step ?w (?w\<lparr>rw_writer := WReady None\<rparr>)" using rs_spawned [of ?w] by (simp add: quiet_step_def)
  ultimately have "quiet_step\<^sup>*\<^sup>* (mc_log m) (?w\<lparr>rw_writer := WReady None\<rparr>)" by (meson converse_rtranclp_into_rtranclp r_into_rtranclp)
  then show ?thesis by (simp add: m' logs_on_def)
qed

lemma confine_ok:
  assumes "confine (system_startup H) bd c m = (m', Inr ())" "unthreaded m"
  obtains outcome where "drop_privileges (ho_caps H) SERVICE_USER (authority_of bd c) (mc_proc m) = (mc_proc m', Ok outcome)"
    "is_enforced (ac_hardening (cf_agent c)) \<longrightarrow> outcome = Dropped" "mc_dir m' = mc_dir m" "mc_filters m' = mc_filters m"
    "mc_writer m' = Some (mc_proc m')" "short_lines H \<longrightarrow> logs_on m m'"
proof -
  let ?l = "system_log H (AuthorityDerived (authority_of bd c)) m"
  obtain p outcome where d: "drop_privileges (ho_caps H) SERVICE_USER (authority_of bd c) (mc_proc m) = (p, Ok outcome)"
    and o: "is_enforced (ac_hardening (cf_agent c)) \<longrightarrow> outcome = Dropped"
    and w: "start_audit_writer H (if outcome = Dropped then system_log H PrivilegesDropped (?l\<lparr>mc_proc := p\<rparr>) else ?l\<lparr>mc_proc := p\<rparr>)
      = (m', Inr ())" (is "start_audit_writer H ?k = _")
    using assms(1)
    by (auto simp: confine_def system_drop_privileges_def Let_def split: prod.splits sum.splits if_splits)
       (metis drop_outcome.exhaust)+
  have k: "unthreaded ?k" "mc_proc ?k = p" "mc_dir ?k = mc_dir m" "mc_filters ?k = mc_filters m"
    using assms(2) by (simp_all add: unthreaded_def)
  have "logs_on m ?k" if "short_lines H"
  proof -
    have "logs_on m ?l" using that by (rule system_log_on)
    also have "logs_on ?l (?l\<lparr>mc_proc := p\<rparr>)" by (simp add: logs_on_def)
    also have "logs_on (?l\<lparr>mc_proc := p\<rparr>) ?k" using system_log_on [OF that] by simp
    finally show ?thesis .
  qed
  with audit_writer_ok [OF w k(1)] show ?thesis using d o k by (intro that) (auto intro: logs_on_trans)
qed

lemma install_cases:
  assumes "system_install_seccomp H c m = (m', r)"
  shows "r = Ok True \<and> seccomp_enabled (ho_build H) c \<and>
      (\<exists>f. profile (ho_compile H) (ho_logs H) (ho_arch H) (authority_of (ho_build H) c) = Ok f \<and> ho_apply H f = Ok () \<and>
        m' = m\<lparr>mc_filters := f # mc_filters m\<rparr>) \<or>
    m' = m \<and> (r = Ok False \<or> (\<exists>reason. r = Err (ReSeccomp reason)))"
  using assms by (auto simp: system_install_seccomp_def install_def map_err_def split: if_splits sum.splits)

lemma confine_calls_ok:
  assumes "confine_calls (system_startup H) mode c m = (m', Inr ())"
  shows "mc_proc m' = mc_proc m \<and> mc_dir m' = mc_dir m \<and> mc_writer m' = mc_writer m \<and> (short_lines H \<longrightarrow> logs_on m m') \<and>
    (is_enforced (ac_hardening (cf_agent c)) \<longrightarrow> seccomp_enabled (ho_build H) c \<and>
      (\<exists>f. profile (ho_compile H) (ho_logs H) (ho_arch H) (authority_of (ho_build H) c) = Ok f \<and> ho_apply H f = Ok () \<and>
        mc_filters m' = f # mc_filters m))"
proof -
  obtain m1 r where i: "system_install_seccomp H c m = (m1, r)" by fastforce
  define pre where "pre = (if is_ok r then [] else [SeccompUnavailable (case r of Inl (ReSeccomp s) \<Rightarrow> s | _ \<Rightarrow> [])])"
  obtain evs where m': "m' = fold (system_log H) evs m1"
    and e: "is_enforced (ac_hardening (cf_agent c)) \<longrightarrow> r = Ok True"
  proof (rule that)
    show "is_enforced (ac_hardening (cf_agent c)) \<longrightarrow> r = Ok True"
      using install_cases [OF i] assms by (auto simp: confine_calls_def i Let_def split: if_splits)
    show "m' = fold (system_log H) (pre @ SeccompFilter (r = Ok True) mode #
        (if r = Ok True \<and> mode = ''log'' then [SeccompLogMode] else [])) m1"
      using install_cases [OF i] assms by (auto simp: confine_calls_def i pre_def Let_def split: if_splits)
  qed
  have "mc_proc m1 = mc_proc m \<and> mc_dir m1 = mc_dir m \<and> mc_writer m1 = mc_writer m \<and> logs_on m m1"
    using install_cases [OF i] by (auto simp: logs_on_def)
  then show ?thesis
    using e install_cases [OF i] system_logs_on [of H m1] unfolding m' by (auto intro: logs_on_trans)
qed

lemma open_channel_ok:
  assumes "system_open_channel H p m = (m', Inr ch)"
  shows "\<exists>evs. m' = fold (system_log H) evs m"
proof (cases "ho_open H p")
  case (Inl e)
  then show ?thesis using assms
    by (intro exI [of _ "[ChannelOpenFailed (open_error_from_io p e)]"])
       (auto simp: system_open_channel_def Let_def split: if_splits)
next
  case (Inr f)
  then show ?thesis using assms by (intro exI [of _ "[]"]) (auto simp: system_open_channel_def)
qed

text \<open>The whole of \<open>prepare\<close>: only records of events come before the privilege drop.\<close>

lemma prepare_steps:
  "prepare (system_startup H) bd mode opts c mk recovery m = (m', Inr ch) \<Longrightarrow>
    \<exists>mounts u w1 m1 x v. ho_mounts H = Inr mounts \<and> check_state_path c mk mounts = Inr u \<and>
      system_open_channel H (ac_channel_path (cf_agent c))
        (fold (system_log H) (map FeatureWarning (warnings bd c) @ [Startup (op_config_path opts) recovery]) m) = (w1, Inr x) \<and>
      confine (system_startup H) bd c
        (if x = None then system_log H (ChannelOpenDeferred (ac_channel_path (cf_agent c))) w1 else w1) = (m1, Inr v) \<and>
      confine_calls (system_startup H) mode c m1 = (m', Inr ())"
  unfolding prepare_def Let_def system_steps check_ok then_ok by (elim exE conjE) (intro exI conjI, assumption+, simp)

lemma prepare_ok:
  assumes "prepare (system_startup H) bd mode opts c mk recovery m = (m', Inr ch)"
  obtains evs m1 mounts where "ho_mounts H = Ok mounts" "check_state_path c mk mounts = Ok ()"
    "confine (system_startup H) bd c (fold (system_log H) evs m) = (m1, Inr ())"
    "confine_calls (system_startup H) mode c m1 = (m', Inr ())"
proof -
  let ?pro = "map FeatureWarning (warnings bd c) @ [Startup (op_config_path opts) recovery]"
  let ?def = "ChannelOpenDeferred (ac_channel_path (cf_agent c))"
  obtain mounts u w1 m1 x v where st: "ho_mounts H = Inr mounts" "check_state_path c mk mounts = Inr u"
      "system_open_channel H (ac_channel_path (cf_agent c)) (fold (system_log H) ?pro m) = (w1, Inr x)"
      "confine (system_startup H) bd c (if x = None then system_log H ?def w1 else w1) = (m1, Inr v)"
      "confine_calls (system_startup H) mode c m1 = (m', Inr ())"
    using prepare_steps [OF assms] by (elim exE conjE)
  obtain evs where w: "w1 = fold (system_log H) evs (fold (system_log H) ?pro m)" using open_channel_ok [OF st(3)] by (elim exE)
  have e: "(if x = None then system_log H ?def w1 else w1) = fold (system_log H) (?pro @ evs @ (if x = None then [?def] else [])) m"
    unfolding w by simp
  have u: "u = ()" "v = ()" by simp_all
  show ?thesis by (rule that [OF st(1) st(2) [unfolded u] st(4) [unfolded e u] st(5)])
qed

lemma logging_up_ok:
  assumes "logging_up (system_startup H) opts m = (m', Inr (c, mk, recovery))"
  shows "load_config (ho_read_file H) (ho_from_toml H) (op_config_path opts) = Ok c \<and>
    check_hardening c (current_profile (ho_build H) (ho_logs H) (ho_fake_env H)) = Ok () \<and>
    recovery = marker_exists (ho_dir H) (mc_dir m') mk \<and> mc_proc m' = mc_proc m \<and> mc_filters m' = mc_filters m \<and>
    mc_log m' = (if recovery then locked stderr_unstarted (enter_ring router_unstarted) else stderr_unstarted)"
  using assms
  by (auto simp: logging_up_def system_open_marker_def system_init_logging_def stderr_unstarted_def Let_def map_err_def
      split: sum.splits prod.splits if_splits)

lemma logging_up_unthreaded: "logging_up (system_startup H) opts m = (m', Inr (c, mk, recovery)) \<Longrightarrow> unthreaded m'"
  using logging_up_ok [of H opts m m' c mk recovery]
  by (auto simp: unthreaded_def stderr_unstarted_def router_unstarted_def router_build_def enter_ring_def locked_def)

lemma hardening_ok:
  assumes "check_hardening c (current_profile bd logs fake_env) = Ok ()" "is_enforced (ac_hardening (cf_agent c))"
  shows "bd_seccomp bd \<and> ft_seccomp (cf_features c) \<and> \<not> logs \<and> \<not> fake_env"
  using assms by (auto simp: check_hardening_def current_profile_def seccomp_mode_def filter_mode_def split: if_splits)

text \<open>From logging to serving: the router moves by itself and the marker's directory is left alone.\<close>

lemma prepare_logs_on:
  assumes "short_lines H" "unthreaded m" "prepare (system_startup H) bd mode opts c mk recovery m = (m', Inr ch)"
  shows "logs_on m m'"
proof -
  obtain evs m1 where st: "confine (system_startup H) bd c (fold (system_log H) evs m) = (m1, Inr ())"
    "confine_calls (system_startup H) mode c m1 = (m', Inr ())"
    using assms(3) by (rule prepare_ok)
  have "logs_on m (fold (system_log H) evs m)" using assms(1) by (rule system_logs_on)
  also have "logs_on \<dots> m1"
    using st(1) by (rule confine_ok) (use assms in auto)
  also have "logs_on \<dots> m'" using confine_calls_ok [OF st(2)] assms(1) by blast
  finally show ?thesis .
qed

lemma production_start:
  assumes "recovery = marker_exists (en_dir E) d (en_marker E)"
  shows "sys_start E (production_context c recovery k d now) (SysIdle (recovered recovery (production_context c recovery k d now)))"
  using assms by (auto simp: sys_start_def boot_def production_context_def new_context_def recovered_def
      starting_frozen_def new_machine_def starting_in_def)

lemma recovered_ring: "cx_audit_ring (recovered recovery (production_context c recovery k d now)) = recovery"
  by (auto simp: recovered_def start_recovery_def production_context_def new_context_def current_state_def
      starting_frozen_def new_machine_def starting_in_def on_freezing_def frame_simps)

lemma unstarted_start: "rw_start stderr_unstarted"
  unfolding rw_start_def stderr_unstarted_def router_unstarted_def
  by (intro exI [of _ RING_CAPACITY] exI [of _ SINK_QUEUE_CAPACITY])
     (simp add: RING_CAPACITY_def SINK_QUEUE_CAPACITY_def U64_MAX_def)

lemma quiet_run_mode: "quiet_step\<^sup>*\<^sup>* w w' \<Longrightarrow> rt_mode (rw_state w') = rt_mode (rw_state w)"
  by (induction rule: rtranclp_induct) (simp_all add: quiet_step_def)

lemma quiet_run_au: "quiet_step\<^sup>*\<^sup>* w w' \<Longrightarrow> (au_step E)\<^sup>*\<^sup>* (s, w) (s, w')"
proof (induction rule: rtranclp_induct)
  case (step x y)
  then have "au_step E (s, x) (s, y)" by (simp add: quiet_step_def au_log)
  with step show ?case by simp
qed simp

lemma hardening_refusal: "check_hardening c bp = Ok () \<or> (\<exists>why. check_hardening c bp = Err (ReHardening why))"
  by (cases "is_enforced (ac_hardening (cf_agent c))"; cases "ft_seccomp (cf_features c)"; cases "bp_seccomp_compiled bp";
      cases "bp_seccomp_mode bp = ''enforce''"; cases "bp_fake_kernel_requested bp") (simp_all add: check_hardening_def)

section \<open>Properties of a start\<close>

text \<open>
  C3. Under enforced hardening, when the production start-up sequence comes to serve the host, the
  process is the service account with exactly the final capabilities of the configuration's authority, can
  gain nothing, and has one filter in force, which was compiled from that authority's rules with every
  other call killing the process; the audit writer's thread was created under the same credentials; and no
  kernel substitution was requested.
\<close>

theorem served_confined:
  assumes "linux_caps (ho_caps H) view" and "is_enforced (ac_hardening (cf_agent c))" and "mc_filters m = []"
    and "logging_up (system_startup H) opts m = (m1, Ok (c, mk, recovery))"
    and "prepare (system_startup H) (ho_build H) mode opts c mk recovery m1 = (m2, Ok ch)"
  shows "\<exists>acc f. let a = authority_of (ho_build H) c; cr = view (mc_proc m2) in
    co_lookup (ho_caps H) SERVICE_USER (mc_proc m) = Ok (Some acc) \<and>
    cr_uid cr = acc_uid acc \<and> cr_gid cr = acc_gid acc \<and> cr_groups cr = [acc_gid acc] \<and>
    cr_sets cr Effective = final_capability_set a \<and> cr_sets cr Permitted = final_capability_set a \<and>
    cr_sets cr Inheritable = {} \<and> cr_sets cr Ambient = {} \<and> cr_sets cr Bounding \<subseteq> final_capability_set a \<and>
    cr_no_new_privs cr \<and> mc_writer m2 = Some (mc_proc m2) \<and>
    mc_filters m2 = [f] \<and> ho_apply H f = Ok () \<and>
    (\<exists>fs. ho_compile H (profile_json False (ho_arch H) a) (ho_arch H) = Ok fs \<and> fs FILTER_NAME = Some f) \<and>
    \<not> ho_fake_env H"
proof -
  let ?a = "authority_of (ho_build H) c"
  note up = logging_up_ok [OF assms(4)]
  have h: "\<not> ho_logs H" "\<not> ho_fake_env H" using hardening_ok up assms(2) by blast+
  obtain evs m3 mounts where st: "confine (system_startup H) (ho_build H) c (fold (system_log H) evs m1) = (m3, Inr ())"
    "confine_calls (system_startup H) mode c m3 = (m2, Inr ())"
    using assms(5) by (rule prepare_ok)
  have "unthreaded (fold (system_log H) evs m1)" using logging_up_unthreaded [OF assms(4)] by simp
  with st(1) obtain d where d: "drop_privileges (ho_caps H) SERVICE_USER ?a (mc_proc m) = (mc_proc m3, Ok Dropped)"
    "mc_filters m3 = []" "mc_writer m3 = Some (mc_proc m3)"
    by (rule confine_ok) (use assms(2,3) up in auto)
  obtain f where f: "profile (ho_compile H) False (ho_arch H) ?a = Ok f" "ho_apply H f = Ok ()" "mc_filters m2 = [f]"
    "mc_proc m2 = mc_proc m3" "mc_writer m2 = mc_writer m3"
    using confine_calls_ok [OF st(2)] assms(2) d(2) h(1) by auto
  obtain fs where "ho_compile H (profile_json False (ho_arch H) ?a) (ho_arch H) = Ok fs" "fs FILTER_NAME = Some f"
    using f(1) by (auto simp: profile_def split: sum.splits option.splits)
  moreover obtain acc where "co_lookup (ho_caps H) SERVICE_USER (mc_proc m) = Ok (Some acc)"
    "cr_uid (view (mc_proc m3)) = acc_uid acc" "cr_gid (view (mc_proc m3)) = acc_gid acc"
    "cr_groups (view (mc_proc m3)) = [acc_gid acc]" "cr_sets (view (mc_proc m3)) Effective = final_capability_set ?a"
    "cr_sets (view (mc_proc m3)) Permitted = final_capability_set ?a" "cr_sets (view (mc_proc m3)) Inheritable = {}"
    "cr_sets (view (mc_proc m3)) Ambient = {}" "cr_sets (view (mc_proc m3)) Bounding \<subseteq> final_capability_set ?a"
    "cr_no_new_privs (view (mc_proc m3))"
    using drop_complete [OF assms(1) d(1)] by auto
  ultimately show ?thesis using d f h(2) unfolding Let_def by (intro exI [of _ acc] exI [of _ f]) auto
qed

text \<open>
  C11. The start-up sequence is a restart of the life cycle: from any state in which a daemon was killed, was
  refused or has ended, with the kernel and the marker's directory as the new one finds them, the production
  sequence up to serving, the context it builds and the recovery it starts are steps of the daemon beside its
  router, so that what holds of all runs of those holds of the program as it is started; the router is in ring
  mode exactly when the marker was found.
\<close>

theorem startup_is_restart:
  assumes "short_lines H"
    and "logging_up (system_startup H) opts m = (m1, Ok (c, mk, recovery))"
    and "prepare (system_startup H) (ho_build H) mode opts c mk recovery m1 = (m2, Ok ch)"
    and "en_dir E = ho_dir H" and "en_marker E = mk" and "pr_dir p = mc_dir m2"
  shows "(au_step E)\<^sup>*\<^sup>* (p, w)
      (Serving (SysIdle (recovered recovery (production_context c recovery (pr_kernel p) (mc_dir m2) now))),
       entered recovery (mc_log m2)) \<and>
    (rt_mode (rw_state (mc_log m2)) = Ring \<longleftrightarrow> recovery)"
proof -
  let ?cx = "production_context c recovery (pr_kernel p) (mc_dir m2) now"
  let ?start = "Starting (pr_kernel p) (mc_dir m2)"
  note up = logging_up_ok [OF assms(2)]
  have on: "quiet_step\<^sup>*\<^sup>* (mc_log m1) (mc_log m2)" "mc_dir m2 = mc_dir m1"
    using prepare_logs_on [OF assms(1) logging_up_unthreaded [OF assms(2)] assms(3)] by (simp_all add: logs_on_def)
  have recovery: "recovery = marker_exists (en_dir E) (mc_dir m2) (en_marker E)" using up on(2) assms(4,5) by simp
  have log: "mc_log m1 = entered recovery stderr_unstarted" using up by (simp add: entered_def stderr_unstarted_def)
  have "au_boot E (pr_kernel p) (pr_dir p) (?start, mc_log m1)"
    using unstarted_start recovery assms(6) unfolding au_boot_def log by auto
  then have "(au_step E)\<^sup>*\<^sup>* (p, w) (?start, mc_log m1)" by (intro r_into_rtranclp au_restart)
  also have "(au_step E)\<^sup>*\<^sup>* (?start, mc_log m1) (?start, mc_log m2)" by (rule quiet_run_au [OF on(1)])
  also have "au_step E (?start, mc_log m2)
      (Serving (SysIdle (recovered recovery ?cx)), entered (cx_audit_ring (recovered recovery ?cx)) (mc_log m2))"
    using au_serve [OF production_start [OF recovery, of c "pr_kernel p" now], of "pr_kernel p" "mc_dir m2" "mc_log m2"]
    by (simp add: production_context_def new_context_def)
  finally show ?thesis
    using quiet_run_mode [OF on(1)] entered_mode(1) [of stderr_unstarted recovery] unfolding recovered_ring log
    by (simp add: stderr_unstarted_def router_unstarted_def router_build_def)
qed

text \<open>
  C31. A marker on a filesystem the agent would freeze is refused: when an eligible entry of the mount table
  is on the device of the marker's directory, the sequence ends with \<^verbatim>\<open>EX_CONFIG\<close> and an error that names a
  mount point of that device; the channel is not opened, no privilege has changed and no thread was started.
\<close>

theorem state_path_refused:
  assumes "prepare (system_startup H) bd mode opts c mk recovery m = (m', r)" and "ho_mounts H = Ok mounts"
    and "list_ex (\<lambda>e. is_eligible e \<and> entry_dev e = mk_dev mk) mounts"
  shows "\<exists>e \<in> set mounts. entry_dev e = mk_dev mk \<and>
    r = Err (ReStatePath (ac_state_path (cf_agent c)) (me_mount_point e) (mk_dev mk)) \<and>
    (\<forall>err. r = Err err \<longrightarrow> exit_code err = EX_CONFIG) \<and>
    mc_proc m' = mc_proc m \<and> mc_dir m' = mc_dir m \<and> mc_filters m' = mc_filters m \<and> mc_writer m' = mc_writer m"
proof -
  have "covers_device (FreezePlan.build mounts) (mk_dev mk)"
    using assms(3) set_eligible_devs [of "mk_dev mk" mounts]
    by (auto simp: build_targets comp_def covers_device_def list_ex_iff filter_empty_conv)
  moreover obtain e where e: "find (\<lambda>entry. entry_dev entry = mk_dev mk) mounts = Some e"
    using assms(3) by (cases "find (\<lambda>entry. entry_dev entry = mk_dev mk) mounts") (auto simp: find_None_iff list_ex_iff)
  ultimately have "check_state_path c mk mounts = Err (ReStatePath (ac_state_path (cf_agent c)) (me_mount_point e) (mk_dev mk))"
    by (simp add: check_state_path_def Let_def)
  then have "r = Err (ReStatePath (ac_state_path (cf_agent c)) (me_mount_point e) (mk_dev mk))"
    "m' = fold (system_log H) (map FeatureWarning (warnings bd c) @ [Startup (op_config_path opts) recovery]) m"
    using assms(1,2) by (simp_all add: prepare_def Let_def)
  then show ?thesis using find_member [OF e] by (intro bexI [of _ e]) (simp_all add: exit_code_def)
qed

text \<open>
  What enforced hardening cannot have from the build or the configuration is refused before anything is
  touched: the machine, a recovery marker included, is as it was, and the exit code is \<^verbatim>\<open>EX_CONFIG\<close>.
\<close>

theorem unenforceable_refused:
  assumes "load_config (ho_read_file H) (ho_from_toml H) (op_config_path opts) = Ok c"
    and "is_enforced (ac_hardening (cf_agent c))"
    and "\<not> bd_seccomp (ho_build H) \<or> ho_logs H \<or> ho_fake_env H"
    and "\<not> op_version opts"
  shows "\<exists>diag. run (system_startup H) (ho_build H) mode tx opts m = (m, EX_CONFIG, diag)"
proof -
  obtain why where "check_hardening c (current_profile (ho_build H) (ho_logs H) (ho_fake_env H)) = Err (ReHardening why)"
    using hardening_refusal hardening_ok [OF _ assms(2)] assms(3) by metis
  then have "run_with (system_startup H) (ho_build H) mode opts m = (m, Err (ReHardening why))"
    using assms(1) by (simp add: run_with_def logging_up_def)
  then show ?thesis using assms(4) by (simp add: run_def exit_code_def)
qed

section \<open>Serving until a signal\<close>

text \<open>
  The tasks of \<^verbatim>\<open>serve_until_signal\<close>: the stopper, and the loop of \<open>Channel\<close> under the \<^verbatim>\<open>select!\<close>. The freeze
  state is changed by whoever owns it; the wait of a task between two polls is one of its values. The loop owns
  the only receiver of the cancellation until it returns, and the stopper the only sender: a send fails only when no
  receiver is left, and \<^verbatim>\<open>changed()\<close> only when the sender is gone.
\<close>

datatype stopper = AwaitSignal | AwaitThawed | SleepPoll | StopperReturned

datatype serve_pc =
    Selecting
  | AwaitServed
  | FinalWait "(open_error, unit) result"
  | ServeReturned "(open_error, unit) result"

record stop_world =
  sg_state :: freeze_state
  sg_signalled :: bool
  sg_cancel :: bool
  sg_thawed_seen :: bool
  sg_stopper :: stopper
  sg_pc :: serve_pc
  sg_loop :: serve

definition sg_start :: "fd option \<Rightarrow> stop_world \<Rightarrow> bool" where
  "sg_start initial w \<longleftrightarrow>
     (\<exists>st. w = \<lparr>sg_state = st, sg_signalled = False, sg_cancel = False, sg_thawed_seen = False, sg_stopper = AwaitSignal,
        sg_pc = Selecting, sg_loop = \<lparr>sv_initial = initial, sv_delay = 0, sv_cancel_live = True\<rparr>\<rparr>)"

definition receiver_left :: "stop_world \<Rightarrow> bool" where
  "receiver_left w = (case sg_pc w of Selecting \<Rightarrow> True | AwaitServed \<Rightarrow> True | _ \<Rightarrow> False)"

definition sender_left :: "stop_world \<Rightarrow> bool" where
  "sender_left w = (sg_stopper w \<noteq> StopperReturned)"

text \<open>
  What the loop meets in an iteration: a value it reads from the cancellation is one that was sent by its end; the
  open ends as \<^verbatim>\<open>open_with_retry\<close> does on some attempts; and the session ends as a run of \<open>Channel\<close>'s session does.
\<close>

definition loop_answers :: "path \<Rightarrow> bool \<Rightarrow> bool \<Rightarrow> serve_answers \<Rightarrow> bool" where
  "loop_answers p cancelled sender sa \<longleftrightarrow>
     (sa_cancel_top sa \<longrightarrow> cancelled) \<and> (sa_cancel_changed sa \<longrightarrow> cancelled) \<and>
     (\<exists>as. fst (open_with_retry p as) = Some (sa_retry sa) \<and>
        (\<forall>a \<in> set as. (at_cancel a \<longrightarrow> cancelled) \<and> (at_changed a = Some False \<longrightarrow> \<not> sender))) \<and>
     (\<exists>cls w. reachable (sw_start_upto cancelled) (sw_step_upto cancelled cls) w \<and>
        sw_pc w = Ended (sa_end sa) \<and> ss_received (sw_session w) = sa_received sa)"

inductive sg_step :: "path \<Rightarrow> stop_world \<Rightarrow> stop_world \<Rightarrow> bool" for p :: path where
  sg_freeze: "(\<forall>r. sg_pc w \<noteq> ServeReturned r) \<Longrightarrow> sg_step p w (w\<lparr>sg_state := st\<rparr>)"
| sg_signal: "sg_pc w = Selecting \<Longrightarrow> sg_stopper w = AwaitSignal \<Longrightarrow>
    sg_step p w (w\<lparr>sg_signalled := True, sg_stopper := AwaitThawed\<rparr>)"
| sg_send: "sg_pc w = Selecting \<Longrightarrow> sg_stopper w = AwaitThawed \<Longrightarrow> sg_state w = Thawed \<Longrightarrow> receiver_left w \<Longrightarrow>
    sg_step p w (w\<lparr>sg_cancel := True, sg_thawed_seen := True, sg_stopper := SleepPoll\<rparr>)"
| sg_send_failed: "sg_pc w = Selecting \<Longrightarrow> sg_stopper w = AwaitThawed \<Longrightarrow> sg_state w = Thawed \<Longrightarrow> \<not> receiver_left w \<Longrightarrow>
    sg_step p w (w\<lparr>sg_stopper := StopperReturned, sg_pc := AwaitServed\<rparr>)"
| sg_slept: "sg_pc w = Selecting \<Longrightarrow> sg_stopper w = SleepPoll \<Longrightarrow> sg_step p w (w\<lparr>sg_stopper := AwaitThawed\<rparr>)"
| sg_again: "sg_pc w \<in> {Selecting, AwaitServed} \<Longrightarrow> loop_answers p (sg_cancel w) (sender_left w) sa \<Longrightarrow>
    serve_iteration backoff_default sa (sg_loop w) = Again sv \<Longrightarrow> sg_step p w (w\<lparr>sg_loop := sv\<rparr>)"
| sg_served: "sg_pc w \<in> {Selecting, AwaitServed} \<Longrightarrow> loop_answers p (sg_cancel w) (sender_left w) sa \<Longrightarrow>
    serve_iteration backoff_default sa (sg_loop w) = Stopped r \<Longrightarrow> sg_step p w (w\<lparr>sg_pc := FinalWait r\<rparr>)"
| sg_thawed: "sg_pc w = FinalWait r \<Longrightarrow> sg_state w = Thawed \<Longrightarrow> sg_step p w (w\<lparr>sg_pc := ServeReturned r\<rparr>)"

lemma retry_errors: "retry_loop p delay as = (Some (Inl e), ds) \<Longrightarrow> is_terminal e"
  by (induction p delay as arbitrary: ds rule: retry_loop.induct)
     (auto simp: Let_def split: sum.splits if_splits prod.splits)

lemma retry_gave_up:
  "retry_loop p delay as = (Some (Inr None), ds) \<Longrightarrow> \<exists>a \<in> set as. at_changed a = Some False \<or> at_cancel a"
  by (induction p delay as arbitrary: ds rule: retry_loop.induct)
     (auto simp: Let_def split: sum.splits if_splits prod.splits)

lemma session_cancelled:
  assumes "reachable (sw_start_upto cancelled) (sw_step_upto cancelled cls) w" "sw_pc w = Ended Cancelled"
  shows "cancelled"
  using uncancelled.inv_reachable [of cls w] assms by (cases cancelled) auto

lemma stopped_result:
  assumes "serve_iteration bo sa sv = Stopped r" "loop_answers p cancelled True sa"
  shows "case r of Inl e \<Rightarrow> is_terminal e | Inr _ \<Rightarrow> cancelled"
proof -
  obtain as ds where as: "retry_loop p INITIAL_BACKOFF as = (Some (sa_retry sa), ds)"
    "\<forall>a \<in> set as. (at_cancel a \<longrightarrow> cancelled) \<and> at_changed a \<noteq> Some False"
    using assms(2) unfolding loop_answers_def open_with_retry_def by (metis prod.collapse)
  have "is_terminal e" if "sa_retry sa = Inl e" for e using retry_errors as(1) that by simp
  moreover have "cancelled" if "sa_retry sa = Inr None" using retry_gave_up as that by metis
  moreover have "cancelled" if "sa_end sa = Cancelled"
    using assms(2) session_cancelled that unfolding loop_answers_def by metis
  moreover have "stop_now (sa_cancel_top sa) x \<Longrightarrow> cancelled" "stop_now (sa_cancel_changed sa) x \<Longrightarrow> cancelled" for x
    using assms(2) by (simp_all add: loop_answers_def stop_now_def)
  ultimately show ?thesis
    using assms(1) by (auto simp: serve_iteration_def serve_session_def Let_def split: if_splits option.splits sum.splits)
qed

definition result_ok :: "bool \<Rightarrow> (open_error, unit) result \<Rightarrow> bool" where
  "result_ok cancelled r \<longleftrightarrow> (case r of Inl e \<Rightarrow> is_terminal e | Inr _ \<Rightarrow> cancelled)"

definition stop_inv :: "stop_world \<Rightarrow> bool" where
  "stop_inv w \<longleftrightarrow> sender_left w \<and>
     (sg_cancel w \<longrightarrow> sg_thawed_seen w) \<and> (sg_stopper w \<noteq> AwaitSignal \<or> sg_thawed_seen w \<longrightarrow> sg_signalled w) \<and>
     (case sg_pc w of
        FinalWait r \<Rightarrow> result_ok (sg_cancel w) r
      | ServeReturned r \<Rightarrow> result_ok (sg_cancel w) r \<and> sg_state w = Thawed
      | _ \<Rightarrow> True)"

interpretation stopping: inductive_invariant "sg_start initial" "sg_step p" stop_inv
proof
  fix w assume "sg_start initial w"
  then show "stop_inv w" by (auto simp: sg_start_def stop_inv_def sender_left_def)
next
  fix w w' assume "stop_inv w" "sg_step p w w'"
  from this(2,1) show "stop_inv w'"
  proof cases
    case (sg_served sa r)
    have "sender_left w" using \<open>stop_inv w\<close> by (simp add: stop_inv_def)
    then have "result_ok (sg_cancel w) r" using stopped_result [OF sg_served(4)] sg_served(3) by (simp add: result_ok_def)
    then show ?thesis using sg_served \<open>stop_inv w\<close> by (simp add: stop_inv_def sender_left_def)
  qed (auto simp: stop_inv_def sender_left_def receiver_left_def split: serve_pc.splits)
qed

text \<open>
  C30. A stop waits for the thaw: when serving has returned, the state is \<^verbatim>\<open>Thawed\<close>; it returned without an
  error only after a signal had arrived and the state had been seen \<^verbatim>\<open>Thawed\<close> since, and with an error only
  when the channel was lost for good.
\<close>

theorem stop_waits_for_thaw:
  assumes "reachable (sg_start initial) (sg_step p) w" and "sg_pc w = ServeReturned r"
  shows "sg_state w = Thawed \<and>
    (case r of Inl e \<Rightarrow> is_terminal e | Inr _ \<Rightarrow> sg_signalled w \<and> sg_thawed_seen w \<and> sg_cancel w)"
  using stopping.inv_reachable [OF assms(1)] assms(2) by (cases r) (simp_all add: stop_inv_def result_ok_def)

section \<open>Witnesses\<close>

text \<open>The default configuration on a machine where every step succeeds; one with the marker on a planned device.\<close>

definition example_host :: "(creds, (fd \<times> path) set, nat) host" where
  "example_host =
     \<lparr>ho_read_file = (\<lambda>_. Ok ''''), ho_from_toml = (\<lambda>_. Ok default_config),
      ho_build = \<lparr>bd_seccomp = True, bd_suspend_ram = False\<rparr>, ho_logs = False, ho_fake_env = False, ho_dir = plain_dir,
      ho_render = (\<lambda>_ _. Some ''{}''), ho_mounts = Ok [example_row], ho_open = (\<lambda>_. Ok 5), ho_caps = plain_caps,
      ho_spawn = Ok (), ho_arch = Aarch64, ho_compile = (\<lambda>_ _. Ok [FILTER_NAME \<mapsto> 7]), ho_apply = (\<lambda>_. Ok ()),
      ho_runtime = Ok (), ho_sigterm = Ok (), ho_sigint = Ok (), ho_serve = (\<lambda>_ _ _ _ m. (m, Ok ()))\<rparr>"

definition example_machine :: "(fd \<times> path) set \<Rightarrow> (creds, (fd \<times> path) set, nat) machine" where
  "example_machine d =
     \<lparr>mc_proc = root_creds, mc_dir = d, mc_log = stderr_unstarted, mc_level = LlInfo, mc_logging = False, mc_filters = [],
      mc_writer = None\<rparr>"

definition planned_host :: "(creds, (fd \<times> path) set, nat) host" where
  "planned_host = example_host\<lparr>ho_mounts := Ok [example_row\<lparr>me_major := 0, me_minor := 25\<rparr>]\<rparr>"

lemma example_load: "load_config (ho_read_file example_host) (ho_from_toml example_host) p = Ok default_config"
  using validate_default by (simp add: load_config_def parse_config_def example_host_def)

lemma example_enforced: "is_enforced (ac_hardening (cf_agent default_config))"
  by (simp add: is_enforced_def default_config_def default_agent_def)

lemma example_marker_opens: "marker_open plain_dir d (ac_state_path (cf_agent default_config)) = (d, Ok example_marker)"
proof -
  have "parent_of (ac_state_path (cf_agent default_config)) = Some ''/run/qeminga''"
    "file_name (ac_state_path (cf_agent default_config)) = Some ''frozen''"
    by code_simp+
  then show ?thesis
    by (simp add: marker_open_def plain_dir_def example_marker_def default_config_def default_agent_def split_dev_def U32_MAX_def)
qed

lemma example_up:
  "\<exists>m. logging_up (system_startup example_host) default_options (example_machine d) =
     (m, Ok (default_config, example_marker, marker_exists plain_dir d example_marker)) \<and> mc_dir m = d"
proof -
  have "check_hardening default_config (current_profile (ho_build example_host) (ho_logs example_host) (ho_fake_env example_host)) = Ok ()"
    by (simp add: check_hardening_def current_profile_def seccomp_mode_def filter_mode_def example_host_def default_config_def
        default_features_def)
  then show ?thesis
    by (simp add: logging_up_def example_load system_open_marker_def example_marker_opens system_init_logging_def Let_def
        example_host_def [THEN arg_cong [of _ _ ho_dir], simplified] example_machine_def)
qed

lemma audit_writer_starts: "unthreaded m \<Longrightarrow> ho_spawn H = Ok () \<Longrightarrow> \<exists>m'. start_audit_writer H m = (m', Inr ())"
  by (simp add: start_audit_writer_def system_start_writer_def start_writer_def unthreaded_def)

lemma example_confines:
  assumes "unthreaded m" "mc_proc m = root_creds"
  shows "\<exists>m'. confine (system_startup example_host) (ho_build example_host) default_config m = (m', Inr ())"
proof -
  let ?a = "authority_of (ho_build example_host) default_config"
  obtain q where q: "drop_privileges plain_caps ''qeminga'' ?a root_creds = (q, Ok Dropped)"
    using plain_drop_succeeds by blast
  let ?m = "system_log example_host PrivilegesDropped ((system_log example_host (AuthorityDerived ?a) m)\<lparr>mc_proc := q\<rparr>)"
  have "\<exists>m'. start_audit_writer example_host ?m = (m', Inr ())"
    using assms(1) by (intro audit_writer_starts) (simp_all add: unthreaded_def example_host_def)
  moreover have "system_drop_privileges example_host ?a (system_log example_host (AuthorityDerived ?a) m) =
      ((system_log example_host (AuthorityDerived ?a) m)\<lparr>mc_proc := q\<rparr>, Ok Dropped)"
    using q assms(2) by (simp add: system_drop_privileges_def SERVICE_USER_def example_host_def)
  ultimately show ?thesis by (simp add: confine_def)
qed

lemma example_prepares:
  assumes "unthreaded m" "mc_proc m = root_creds"
  shows "\<exists>m' ch. prepare (system_startup example_host) (ho_build example_host) ''enforce'' opts default_config example_marker recovery m
    = (m', Ok ch)"
proof -
  let ?l = "fold (system_log example_host) (map FeatureWarning (warnings (ho_build example_host) default_config) @
    [Startup (op_config_path opts) recovery]) m"
  obtain m1 where m1: "confine (system_startup example_host) (ho_build example_host) default_config ?l = (m1, Inr ())"
    using example_confines [of ?l] assms by auto
  have "check_state_path default_config example_marker [example_row] = Ok ()" by code_simp
  moreover have "\<exists>m'. confine_calls (system_startup example_host) ''enforce'' default_config m1 = (m', Inr ())"
    by (simp add: confine_calls_def system_install_seccomp_def seccomp_enabled_def profile_def install_def example_host_def
        default_config_def default_features_def)
  moreover have "system_open_channel example_host p ?l = (?l, Inr (Some 5))" for p
    by (simp add: system_open_channel_def example_host_def)
  moreover have "ho_mounts example_host = Ok [example_row]" by (simp add: example_host_def)
  ultimately show ?thesis using m1 by (auto simp: prepare_def Let_def)
qed

text \<open>A start of the example, with the marker's directory as it is.\<close>

lemma example_started:
  obtains m1 m2 ch where
    "logging_up (system_startup example_host) default_options (example_machine d) =
       (m1, Ok (default_config, example_marker, marker_exists plain_dir d example_marker))"
    "prepare (system_startup example_host) (ho_build example_host) ''enforce'' default_options default_config example_marker
       (marker_exists plain_dir d example_marker) m1 = (m2, Ok ch)" "mc_dir m2 = d"
proof -
  obtain m1 where m1: "logging_up (system_startup example_host) default_options (example_machine d) =
     (m1, Ok (default_config, example_marker, marker_exists plain_dir d example_marker))" "mc_dir m1 = d"
    using example_up by blast
  have "unthreaded m1" "mc_proc m1 = root_creds"
    using logging_up_unthreaded [OF m1(1)] logging_up_ok [OF m1(1)] by (simp_all add: example_machine_def)
  moreover from this obtain m2 ch where m2: "prepare (system_startup example_host) (ho_build example_host) ''enforce''
      default_options default_config example_marker (marker_exists plain_dir d example_marker) m1 = (m2, Ok ch)"
    using example_prepares by blast
  ultimately have "mc_dir m2 = d"
    using prepare_logs_on [of example_host m1] m1(2)
    by (auto simp: logs_on_def short_lines_def example_host_def U64_MAX_def)
  with m1 m2 that show ?thesis by blast
qed

theorem served_confined_witness:
  "\<exists>m1 m2 ch. logging_up (system_startup example_host) default_options (example_machine {}) =
      (m1, Ok (default_config, example_marker, False)) \<and>
    prepare (system_startup example_host) (ho_build example_host) ''enforce'' default_options default_config example_marker
      False m1 = (m2, Ok ch) \<and>
    cr_uid (mc_proc m2) = 990 \<and> mc_filters m2 = [7] \<and> mc_writer m2 = Some (mc_proc m2)"
proof -
  have n: "marker_exists plain_dir {} example_marker = False" by (simp add: marker_exists_def plain_dir_def)
  obtain m1 m2 ch where st: "logging_up (system_startup example_host) default_options (example_machine {}) =
      (m1, Ok (default_config, example_marker, False))"
    "prepare (system_startup example_host) (ho_build example_host) ''enforce'' default_options default_config example_marker
      False m1 = (m2, Ok ch)"
    by (rule example_started [of "{}", unfolded n])
  have "linux_caps (ho_caps example_host) (\<lambda>p. p)" using linux_plain_caps by (simp add: example_host_def)
  from served_confined [OF this example_enforced _ st] st show ?thesis
    by (auto simp: example_machine_def example_host_def plain_caps_def SERVICE_USER_def Let_def)
qed

theorem startup_is_restart_witness:
  "\<exists>w now. (au_step example_env)\<^sup>*\<^sup>* (Serving (SysIdle crashed_ctx), example_world)
     (Serving (SysIdle (recovered True (production_context default_config True (cx_kernel crashed_ctx) (cx_dir crashed_ctx) now))),
      entered True w) \<and> rt_mode (rw_state w) = Ring"
proof -
  have e: "marker_exists plain_dir (cx_dir crashed_ctx) example_marker = True" by code_simp
  obtain m1 m2 ch where st: "logging_up (system_startup example_host) default_options (example_machine (cx_dir crashed_ctx)) =
      (m1, Ok (default_config, example_marker, True))"
    "prepare (system_startup example_host) (ho_build example_host) ''enforce'' default_options default_config example_marker
      True m1 = (m2, Ok ch)" "mc_dir m2 = cx_dir crashed_ctx"
    by (rule example_started [of "cx_dir crashed_ctx", unfolded e])
  have "short_lines example_host" by (simp add: short_lines_def example_host_def U64_MAX_def)
  from startup_is_restart [OF this st(1,2), of example_env "Serving (SysIdle crashed_ctx)" example_world 0] st(3) show ?thesis
    by (auto simp: example_env_def example_host_def)
qed

theorem state_path_refused_witness:
  "\<exists>m m' err. prepare (system_startup planned_host) (ho_build planned_host) ''enforce'' default_options default_config
      example_marker False m = (m', Err err) \<and> exit_code err = 78"
proof -
  obtain m' r where p: "prepare (system_startup planned_host) (ho_build planned_host) ''enforce'' default_options default_config
      example_marker False (example_machine {}) = (m', r)" by fastforce
  have "ho_mounts planned_host = Ok [example_row\<lparr>me_major := 0, me_minor := 25\<rparr>]" by (simp add: planned_host_def)
  moreover have "list_ex (\<lambda>e. is_eligible e \<and> entry_dev e = mk_dev example_marker) [example_row\<lparr>me_major := 0, me_minor := 25\<rparr>]"
    by code_simp
  ultimately show ?thesis using state_path_refused [OF p] p by (auto simp: EX_CONFIG_def)
qed

theorem unenforceable_refused_witness:
  "\<exists>diag. run (system_startup (example_host\<lparr>ho_fake_env := True\<rparr>)) (ho_build example_host) ''enforce'' (\<lambda>_. '''') default_options
      (example_machine {}) = (example_machine {}, 78, diag)"
proof -
  let ?H = "example_host\<lparr>ho_fake_env := True\<rparr>"
  have "load_config (ho_read_file ?H) (ho_from_toml ?H) (op_config_path default_options) = Ok default_config"
    using example_load by simp
  from unenforceable_refused [OF this example_enforced] show ?thesis
    by (simp add: EX_CONFIG_def default_options_def)
qed

definition example_stop :: stop_world where
  "example_stop =
     \<lparr>sg_state = Frozen, sg_signalled = False, sg_cancel = False, sg_thawed_seen = False, sg_stopper = AwaitSignal,
      sg_pc = Selecting, sg_loop = \<lparr>sv_initial = None, sv_delay = 0, sv_cancel_live = True\<rparr>\<rparr>"

definition example_answer :: serve_answers where
  "example_answer =
     \<lparr>sa_cancel_top = True, sa_may_stop_top = True, sa_changed = None, sa_cancel_changed = True, sa_may_stop_changed = True,
      sa_from_fd = Ok 5,
      sa_retry = Err (AlreadyOpen ''/dev/port''), sa_may_stop = False, sa_end = Eof,
      sa_received = length (encode ''{}'' False)\<rparr>"

definition example_attempt :: attempt where
  "example_attempt =
     \<lparr>at_open = \<lparr>fa_open = Err (Some EBUSY, ''busy''), fa_getfl = Ok (), fa_setfl = Ok (), fa_register = Ok ()\<rparr>,
      at_changed = None, at_cancel = False\<rparr>"

definition example_signalled :: stop_world where
  "example_signalled = example_stop\<lparr>sg_signalled := True, sg_stopper := AwaitThawed\<rparr>"

definition example_sent :: stop_world where
  "example_sent = example_signalled\<lparr>sg_state := Thawed, sg_cancel := True, sg_thawed_seen := True, sg_stopper := SleepPoll\<rparr>"

lemma example_stop_run: "reachable (sg_start None) (sg_step ''/dev/port'') (example_sent\<lparr>sg_pc := ServeReturned (Ok ())\<rparr>)"
proof -
  have "reachable (sg_start None) (sg_step ''/dev/port'') example_stop"
    by (rule reach_start) (simp add: sg_start_def example_stop_def)
  also have "sg_step ''/dev/port'' example_stop example_signalled"
    using sg_signal [of example_stop] by (simp add: example_stop_def example_signalled_def)
  finally (reach_step) have "reachable (sg_start None) (sg_step ''/dev/port'') example_signalled" .
  also have "sg_step ''/dev/port'' example_signalled (example_signalled\<lparr>sg_state := Thawed\<rparr>)"
    by (rule sg_freeze) (simp add: example_stop_def example_signalled_def)
  finally (reach_step) have "reachable (sg_start None) (sg_step ''/dev/port'') (example_signalled\<lparr>sg_state := Thawed\<rparr>)" .
  also have "sg_step ''/dev/port'' (example_signalled\<lparr>sg_state := Thawed\<rparr>) example_sent"
    using sg_send [of "example_signalled\<lparr>sg_state := Thawed\<rparr>"] by (simp add: receiver_left_def example_stop_def example_signalled_def example_sent_def)
  finally (reach_step) have "reachable (sg_start None) (sg_step ''/dev/port'') example_sent" .
  also have "sg_step ''/dev/port'' example_sent (example_sent\<lparr>sg_pc := FinalWait (Ok ())\<rparr>)"
  proof (rule sg_served)
    have "fst (open_with_retry ''/dev/port'' [example_attempt]) = Some (sa_retry example_answer)"
      by (simp add: open_with_retry_def example_attempt_def example_answer_def open_with_def open_error_from_io_def is_terminal_def)
    moreover have "reachable (sw_start_upto True) (sw_step_upto True ex_cls) ex_ended"
      using ex_ended_reached by (simp add: sw_upto_True)
    moreover have "sw_pc ex_ended = Ended (sa_end example_answer)" by (simp add: example_answer_def ex_ended_def)
    moreover have "ss_received (sw_session ex_ended) = sa_received example_answer"
      by (simp add: example_answer_def ex_ended_def ex_sent_def ex_partial_def ex_replying_def ex_done_def ex_running_def ex_read_def)
    moreover have "\<forall>a \<in> set [example_attempt]. at_changed a \<noteq> Some False" by (simp add: example_attempt_def)
    ultimately have "loop_answers ''/dev/port'' True sender example_answer" for sender
      unfolding loop_answers_def by blast
    then show "loop_answers ''/dev/port'' (sg_cancel example_sent) (sender_left example_sent) example_answer"
      by (simp add: example_sent_def)
  qed (simp_all add: example_sent_def example_signalled_def example_stop_def serve_iteration_def example_answer_def stop_now_def)
  finally (reach_step) have "reachable (sg_start None) (sg_step ''/dev/port'') (example_sent\<lparr>sg_pc := FinalWait (Ok ())\<rparr>)" .
  also have "sg_step ''/dev/port'' (example_sent\<lparr>sg_pc := FinalWait (Ok ())\<rparr>) (example_sent\<lparr>sg_pc := ServeReturned (Ok ())\<rparr>)"
    using sg_thawed [of "example_sent\<lparr>sg_pc := FinalWait (Ok ())\<rparr>"] by (simp add: example_sent_def)
  finally (reach_step) show ?thesis .
qed

theorem stop_waits_for_thaw_witness:
  "reachable (sg_start None) (sg_step ''/dev/port'') (example_sent\<lparr>sg_pc := ServeReturned (Ok ())\<rparr>) \<and>
   sg_signalled example_sent \<and> sg_state example_sent = Thawed"
  using stop_waits_for_thaw [OF example_stop_run, of "Ok ()"] example_stop_run by simp

end
