(* ===== verification/FreezeTermination.thy ===== *)
theory FreezeTermination
  imports FreezeOp
begin

text \<open>
  \<^verbatim>\<open>src/freeze_op.rs\<close>: a freeze operation ends. A rank of the states that no step raises: time, a thaw
  request and its notification leave it alone, every step of the operation's own tasks lowers it.

  Shown: in every run the operation takes only finitely many steps of its own, whatever the requests and
  however tasks are lost, and it can take one until it has settled.
\<close>

section \<open>The rank\<close>

text \<open>What is left of a recovery drain, and what the mounts held will cost.\<close>

definition drain_rank :: "drain_task option \<Rightarrow> nat" where
  "drain_rank r = (case r of None \<Rightarrow> 0 | Some (DrainRunning ms _ _ _) \<Rightarrow> length ms + 2 | Some (DrainDone _) \<Rightarrow> 1)"

definition held_rank :: "('k, 'd) driver \<Rightarrow> nat" where
  "held_rank dv = drain_rank (dv_recovery dv) + 4 * frozen_mount_count (dv_ctx dv)"

definition abort_rank :: "('k, 'd) driver \<Rightarrow> nat" where
  "abort_rank dv = (if dv_abort dv = None then 1 else 0)"

definition worker_rank :: "worker_task \<Rightarrow> nat" where
  "worker_rank w = (case w of WorkerSpawned \<Rightarrow> 8 | WorkerOpened _ \<Rightarrow> 7 | WorkerAuthorised _ \<Rightarrow> 6 | WorkerDone _ \<Rightarrow> 5)"

definition marker_rank :: "marker_task \<Rightarrow> nat" where
  "marker_rank t = (case t of MarkerRunning \<Rightarrow> 3 | MarkerDone _ \<Rightarrow> 2)"

definition rollback_rank :: "rollback_task \<Rightarrow> nat" where
  "rollback_rank t = (case t of RollbackRunning _ _ _ \<Rightarrow> 3 | RollbackDone _ \<Rightarrow> 2)"

definition walk_rank :: "'a list \<Rightarrow> nat" where
  "walk_rank ts = 5 + 10 * length ts"

fun pc_rank :: "pc \<Rightarrow> nat" where
  "pc_rank (AwaitPrep _ (PrepDone (Inr (Inr plan)))) = Suc (walk_rank (freeze_order plan))"
| "pc_rank (AwaitPrep _ _) = 6"
| "pc_rank (Walk ts) = walk_rank ts"
| "pc_rank (AwaitWorker _ ts w) = walk_rank ts + worker_rank w"
| "pc_rank (AwaitNothingFrozen t) = marker_rank t"
| "pc_rank (AwaitPrepRemoval _ t) = marker_rank t"
| "pc_rank (AwaitRollback t) = rollback_rank t"
| "pc_rank SettleAborted = 4"
| "pc_rank (AwaitAbortedRemoval t) = marker_rank t"
| "pc_rank (OpDone _) = 0"

text \<open>The plan is not known before the preparation has read the mount table.\<close>

fun unprepared :: "pc \<Rightarrow> nat" where
  "unprepared (AwaitPrep _ PrepRunning) = 1"
| "unprepared _ = 0"

definition op_rank :: "('k, 'd) op_state \<Rightarrow> nat \<times> nat" where
  "op_rank s =
     (let (dv, q) = s in
      (unprepared q,
       if is_done q then drain_rank (dv_recovery dv) else pc_rank q + held_rank dv + abort_rank dv))"

definition env_step :: "('k, 'd) op_state \<Rightarrow> ('k, 'd) op_state \<Rightarrow> bool" where
  "env_step s t \<longleftrightarrow>
     (let (dv, q) = s in
      (\<exists>n. t = (dv\<lparr>dv_ctx := (dv_ctx dv)\<lparr>cx_now := cx_now (dv_ctx dv) + n\<rparr>\<rparr>, q)) \<or>
      t = (dv\<lparr>dv_op := fst (request_abort (dv_op dv))\<rparr>, q) \<or>
      t = (dv\<lparr>dv_op := notify_abort (dv_op dv)\<rparr>, q))"

section \<open>What the driver's operations do to it\<close>

lemma frame_publish [simp]:
  "dv_recovery (publish f dv) = dv_recovery dv" "dv_ctx (publish f dv) = dv_ctx dv" "dv_abort (publish f dv) = dv_abort dv"
  by (simp_all add: publish_def)

lemma frame_refresh [simp]:
  "dv_recovery (refresh_pass_done dv) = dv_recovery dv" "dv_ctx (refresh_pass_done dv) = dv_ctx dv"
  "dv_abort (refresh_pass_done dv) = dv_abort dv"
  by (simp_all add: refresh_pass_done_def Let_def)

lemma frame_reply [simp]:
  "dv_recovery (send_reply r dv) = dv_recovery dv" "dv_ctx (send_reply r dv) = dv_ctx dv" "dv_abort (send_reply r dv) = dv_abort dv"
  by (simp_all add: send_reply_def split: option.splits)

lemma frame_record [simp]:
  "dv_recovery (record_recovery res dv) = dv_recovery dv" "dv_ctx (record_recovery res dv) = dv_ctx dv"
  "dv_abort (record_recovery res dv) = dv_abort dv"
  by (cases res; simp add: record_recovery_def Let_def)+

lemma frame_tasks [simp]:
  "dv_recovery (set_kernel k dv) = dv_recovery dv" "dv_recovery (set_dir d dv) = dv_recovery dv"
  "dv_abort (set_kernel k dv) = dv_abort dv" "dv_abort (set_dir d dv) = dv_abort dv"
  "cx_frozen_mounts (dv_ctx (set_kernel k dv)) = cx_frozen_mounts (dv_ctx dv)"
  "cx_frozen_mounts (dv_ctx (set_dir d dv)) = cx_frozen_mounts (dv_ctx dv)"
  by (simp_all add: set_kernel_def set_dir_def)

lemma held_rank_eq: "held_rank dv = drain_rank (dv_recovery dv) + 4 * length (cx_frozen_mounts (dv_ctx dv))"
  by (simp add: held_rank_def frozen_mount_count_def)

lemma frame_start_recovery [simp]: "dv_abort (start_recovery_if_needed dv) = dv_abort dv"
  by (simp add: start_recovery_if_needed_def take_frozen_mounts_def Let_def)

text \<open>A drain that starts costs less than the mounts it takes.\<close>

lemma rank_start_recovery:
  "held_rank (start_recovery_if_needed dv) \<le> held_rank dv"
  "dv_recovery dv = None \<Longrightarrow> dv_recovery (start_recovery_if_needed dv) \<noteq> None \<Longrightarrow>
     held_rank (start_recovery_if_needed dv) < held_rank dv"
  by (cases "cx_frozen_mounts (dv_ctx dv)";
      auto simp: start_recovery_if_needed_def held_rank_eq drain_rank_def take_frozen_mounts_def)+

lemma rank_same:
  "dv_recovery dv' = dv_recovery dv \<Longrightarrow> cx_frozen_mounts (dv_ctx dv') = cx_frozen_mounts (dv_ctx dv) \<Longrightarrow> held_rank dv' = held_rank dv"
  by (simp add: held_rank_eq)

lemma rank_commit_abort: "held_rank (commit_abort cause dv) \<le> held_rank dv" "abort_rank (commit_abort cause dv) = 0"
proof -
  show "abort_rank (commit_abort cause dv) = 0"
    by (auto simp: abort_rank_def commit_abort_def Let_def split: option.splits prod.splits)
  show "held_rank (commit_abort cause dv) \<le> held_rank dv"
  proof (cases "dv_abort dv")
    case None
    then obtain d where d: "commit_abort cause dv = refresh_pass_done (publish (\<lambda>p. p\<lparr>pg_phase := PhaseRecovering\<rparr>) (start_recovery_if_needed d))"
      "dv_recovery d = dv_recovery dv" "cx_frozen_mounts (dv_ctx d) = cx_frozen_mounts (dv_ctx dv)"
      by (auto simp: commit_abort_def Let_def frame_simps split: option.splits prod.splits)
    then have "held_rank (commit_abort cause dv) = held_rank (start_recovery_if_needed d)" by (simp add: held_rank_eq)
    also have "\<dots> \<le> held_rank d" by (rule rank_start_recovery)
    also have "\<dots> = held_rank dv" using d by (intro rank_same)
    finally show ?thesis .
  qed (simp add: commit_abort_def)
qed

lemma rank_decide: "held_rank (decide dv) \<le> held_rank dv" "abort_rank (decide dv) \<le> abort_rank dv"
  using rank_commit_abort [of _ dv] by (auto simp: decide_def split: option.splits)

lemma frame_conclude [simp]: "dv_recovery (conclude fin r dv) = dv_recovery dv"
  by (auto simp: conclude_def commit_outcome_def finalise_def retire_op_def record_scope_def publish_state_def
      enter_terminal_def announce_def Let_def split: option.splits)

section \<open>The steps lower it\<close>

definition cost :: "('k, 'd) driver \<Rightarrow> nat" where
  "cost dv = held_rank dv + abort_rank dv"

lemma cost_cong:
  "dv_recovery dv' = dv_recovery dv \<Longrightarrow> cx_frozen_mounts (dv_ctx dv') = cx_frozen_mounts (dv_ctx dv) \<Longrightarrow>
    dv_abort dv' = dv_abort dv \<Longrightarrow> cost dv' = cost dv"
  by (simp add: cost_def held_rank_eq abort_rank_def)

lemma cost_ops [simp]:
  "cost (publish f dv) = cost dv" "cost (refresh_pass_done dv) = cost dv" "cost (record_recovery res dv) = cost dv"
  "cost (set_kernel k dv) = cost dv" "cost (set_dir d dv) = cost dv" "cost (dv\<lparr>dv_op := op\<rparr>) = cost dv"
  "cost (dv\<lparr>dv_frozen := n\<rparr>) = cost dv" "cost (dv\<lparr>dv_uncertain := u, dv_unrecoverable := v\<rparr>) = cost dv"
  "cost (dv\<lparr>dv_ctx := (dv_ctx dv)\<lparr>cx_now := now\<rparr>\<rparr>) = cost dv"
  "cost (dv\<lparr>dv_ctx := hold_frozen_mounts ms (dv_ctx dv)\<rparr>) = cost dv + 4 * length ms"
  by (auto intro!: cost_cong simp: hold_frozen_mounts_def) (simp add: cost_def held_rank_eq abort_rank_def hold_frozen_mounts_def)

lemma cost_commit_abort: "cost (commit_abort cause dv) \<le> cost dv" "dv_abort dv = None \<Longrightarrow> cost (commit_abort cause dv) < cost dv"
  using rank_commit_abort [of cause dv] by (auto simp: cost_def abort_rank_def)

lemma cost_decide: "cost (decide dv) \<le> cost dv"
  using cost_commit_abort(1) [of _ dv] by (auto simp: decide_def split: option.splits)

lemma cost_start_recovery:
  "cost (start_recovery_if_needed dv) \<le> cost dv"
  "dv_recovery dv = None \<Longrightarrow> dv_recovery (start_recovery_if_needed dv) \<noteq> None \<Longrightarrow> cost (start_recovery_if_needed dv) < cost dv"
  using rank_start_recovery [of dv] by (auto simp: cost_def abort_rank_def)

lemma drain_le_cost: "drain_rank (dv_recovery dv) \<le> cost dv"
  by (simp add: cost_def held_rank_def)

text \<open>The second component of the rank, and a bound on it that does not ask whether the operation is done.\<close>

definition left :: "('k, 'd) op_state \<Rightarrow> nat" where
  "left s = snd (op_rank s)"

lemma left_simps:
  "left (dv, OpDone fin) = drain_rank (dv_recovery dv)" "\<not> is_done q \<Longrightarrow> left (dv, q) = pc_rank q + cost dv"
  by (simp_all add: left_def op_rank_def cost_def)

lemma after_walk_left: "left (after_walk dv) \<le> 4 + cost dv" "fst (op_rank (after_walk dv)) = 0"
proof -
  have "cost (commit_abort c (decide dv)) \<le> cost dv" "drain_rank (dv_recovery (decide dv)) \<le> cost dv" for c
    using cost_commit_abort(1) [of c "decide dv"] cost_decide [of dv] drain_le_cost [of "decide dv"] by linarith+
  then show "left (after_walk dv) \<le> 4 + cost dv"
    using cost_decide [of dv] by (auto simp: after_walk_def Let_def try_commit_def left_simps marker_rank_def trans_le_add2)
  show "fst (op_rank (after_walk dv)) = 0"
    by (auto simp: after_walk_def Let_def try_commit_def op_rank_def)
qed

lemma cost_take: "take_frozen_mounts (dv_ctx dv) = (cx, held) \<Longrightarrow> cost (dv\<lparr>dv_ctx := cx\<rparr>) \<le> cost dv"
  by (auto simp: take_frozen_mounts_def cost_def held_rank_eq abort_rank_def)

lemma settle_before_left: "left (settle_before_ioctl f dv) < 6 + cost dv" "fst (op_rank (settle_before_ioctl f dv)) = 0"
  using drain_le_cost [of dv]
  by (auto simp: settle_before_ioctl_def left_simps marker_rank_def op_rank_def split: freeze_failure.splits)

lemma after_prep_left:
  "left (after_prep res dv) < pc_rank (AwaitPrep restrict (PrepDone res)) + cost dv" "fst (op_rank (after_prep res dv)) = 0"
  using settle_before_left [of _ dv] by (auto simp: after_prep_def left_simps op_rank_def split: sum.splits)

lemma after_worker_left:
  "left (after_worker t rest res dv) < 5 + walk_rank rest + cost dv" "fst (op_rank (after_worker t rest res dv)) = 0"
proof (atomize (full), cases res)
  case (Inl err)
  let ?d = "publish (\<lambda>p. p\<lparr>pg_in_flight := None\<rparr>) dv"
  let ?e = "?d\<lparr>dv_uncertain := True, dv_unrecoverable := get_or_insert (dv_unrecoverable ?d)
    (from_utf8_lossy (tg_mountpoint t), ''freeze worker lost ('' @ err @ ''); FIFREEZE outcome unknown'')\<rparr>"
  have "after_worker t rest res dv = after_walk (commit_abort WorkerLost ?e)"
    by (simp add: after_worker_def Inl Let_def)
  moreover have "cost (commit_abort WorkerLost ?e) \<le> cost dv" using cost_commit_abort(1) [of WorkerLost ?e] by simp
  ultimately show "left (after_worker t rest res dv) < 5 + walk_rank rest + cost dv \<and> fst (op_rank (after_worker t rest res dv)) = 0"
    using after_walk_left [of "commit_abort WorkerLost ?e"] by (simp add: walk_rank_def)
next
  case (Inr out)
  let ?d = "publish (\<lambda>p. p\<lparr>pg_in_flight := None\<rparr>) dv"
  have "cost (decide ?d) \<le> cost dv" using cost_decide [of ?d] by simp
  moreover have "cost (?d\<lparr>dv_ctx := fst (take_frozen_mounts (dv_ctx dv))\<rparr>) \<le> cost dv"
    using cost_take [of ?d] by (simp add: take_frozen_mounts_def)
  moreover have "cost (?d\<lparr>dv_frozen := n, dv_ctx := hold_frozen_mounts [m] (dv_ctx dv)\<rparr>) = cost dv + 4" for n m
    using cost_ops(10) [of "[m]" "?d\<lparr>dv_frozen := n\<rparr>"] by simp
  moreover have "cost (?d\<lparr>dv_ctx := hold_frozen_mounts [m] (dv_ctx dv)\<rparr>) = cost dv + 4" for m
    using cost_ops(10) [of "[m]" ?d] by simp
  ultimately show "left (after_worker t rest res dv) < 5 + walk_rank rest + cost dv \<and> fst (op_rank (after_worker t rest res dv)) = 0"
    by (cases out) (auto simp: after_worker_def Inr Let_def left_simps op_rank_def rollback_rank_def walk_rank_def split: prod.splits)
qed

lemma complete_left: "complete tx q dv = Some s \<Longrightarrow> left s < left (dv, q) \<and> fst (op_rank s) = 0"
proof (induction tx q dv rule: complete.induct)
  case (1 tx restrict res dv)
  then show ?case using after_prep_left(1) [of res dv restrict] after_prep_left(2) [of res dv] by (auto simp: left_simps)
next
  case (2 tx t rest res dv)
  then show ?case using after_worker_left [of t rest res dv] by (auto simp: left_simps worker_rank_def)
next
  case (3 tx res dv)
  then show ?case using drain_le_cost [of dv]
    by (auto simp: left_simps marker_rank_def after_nothing_frozen_def op_rank_def split: sum.splits if_splits)
next
  case (4 tx f res dv)
  then show ?case using drain_le_cost [of dv]
    by (auto simp: left_simps marker_rank_def after_prep_removal_def op_rank_def split: sum.splits if_splits)
next
  case (5 tx res dv)
  then show ?case using drain_le_cost [of dv]
    by (auto simp: left_simps rollback_rank_def after_rollback_def op_rank_def Let_def split: sum.splits if_splits prod.splits)
next
  case (6 tx res dv)
  then show ?case using drain_le_cost [of dv]
    by (auto simp: left_simps marker_rank_def after_aborted_removal_def op_rank_def split: sum.splits if_splits)
qed simp_all

lemma walk_round_left: "left (walk_round ts dv) < walk_rank ts + cost dv" "fst (op_rank (walk_round ts dv)) = 0"
proof (atomize (full), cases ts)
  case (Cons t rest)
  then show "left (walk_round ts dv) < walk_rank ts + cost dv \<and> fst (op_rank (walk_round ts dv)) = 0"
    using after_walk_left [of "decide dv"] cost_decide [of dv]
    by (auto simp: walk_round_def Let_def left_simps walk_rank_def worker_rank_def op_rank_def)
qed (use after_walk_left [of dv] in \<open>auto simp: walk_round_def walk_rank_def\<close>)

lemma cost_recorded: "dv_recovery dv = Some (DrainDone res) \<Longrightarrow> cost (dv\<lparr>dv_recovery := None\<rparr>) < cost dv"
  by (simp add: cost_def held_rank_eq abort_rank_def drain_rank_def)

lemma settle_round_left:
  assumes "dv_recovery dv = None \<or> drain_finished (dv_recovery dv)"
  shows "left (settle_aborted_round dv) < 4 + cost dv" "fst (op_rank (settle_aborted_round dv)) = 0"
proof -
  define d1 where "d1 = (case dv_recovery dv of Some (DrainDone res) \<Rightarrow> record_recovery res (dv\<lparr>dv_recovery := None\<rparr>) | _ \<Rightarrow> dv)"
  define d2 where "d2 = refresh_pass_done (start_recovery_if_needed d1)"
  have r: "settle_aborted_round dv = (if dv_recovery d2 \<noteq> None then (d2, SettleAborted) else case dv_unrecoverable d2 of
      Some _ \<Rightarrow> (conclude TerminalFrozen (Err (FfTask ''aborted'')) (d2\<lparr>dv_unrecoverable := None, dv_kept := [],
            dv_ctx := hold_frozen_mounts (dv_kept d2) (dv_ctx d2)\<rparr>), OpDone TerminalFrozen)
    | None \<Rightarrow> (d2, AwaitAbortedRemoval MarkerRunning))"
    unfolding settle_aborted_round_def Let_def d2_def d1_def by (rule refl)
  have d1: "dv_recovery d1 = None" "cost d1 \<le> cost dv"
    using assms cost_recorded [of dv] by (auto simp: d1_def less_imp_le split: option.splits drain_task.splits)
  have d2: "cost d2 \<le> cost dv" "dv_recovery d2 \<noteq> None \<Longrightarrow> cost d2 < cost dv"
    using cost_start_recovery [of d1] d1 by (auto simp: d2_def)
  show "left (settle_aborted_round dv) < 4 + cost dv" "fst (op_rank (settle_aborted_round dv)) = 0"
    using d2 by (auto simp: r left_simps marker_rank_def op_rank_def drain_rank_def split: option.splits)
qed

lemma rank_env: "env_step s t \<Longrightarrow> op_rank t = op_rank s"
proof -
  obtain dv q where s: "s = (dv, q)" by fastforce
  assume "env_step s t"
  then show ?thesis by (auto simp: env_step_def s op_rank_def held_rank_eq abort_rank_def)
qed

text \<open>Lower: less than, or in the first component.\<close>

definition lower :: "('k, 'd) op_state \<Rightarrow> ('k, 'd) op_state \<Rightarrow> bool" where
  "lower t s \<longleftrightarrow> (op_rank t, op_rank s) \<in> less_than <*lex*> less_than"

lemma lowerI: "fst (op_rank t) \<le> fst (op_rank s) \<Longrightarrow> left t < left s \<Longrightarrow> lower t s"
  by (cases "op_rank t"; cases "op_rank s") (auto simp: lower_def left_def)

lemma same_pc_lower: "cost dv' < cost dv \<Longrightarrow> \<not> is_done q \<Longrightarrow> lower (dv', q) (dv, q)"
  by (rule lowerI) (simp_all add: left_simps op_rank_def)

lemma drain_lower:
  assumes "drain_rank (dv_recovery dv') < drain_rank (dv_recovery dv)" "cx_frozen_mounts (dv_ctx dv') = cx_frozen_mounts (dv_ctx dv)"
    "dv_abort dv' = dv_abort dv"
  shows "lower (dv', q) (dv, q)"
proof (cases "is_done q")
  case True
  then show ?thesis using assms by (intro lowerI) (cases q; simp add: left_simps op_rank_def)+
qed (use assms in \<open>auto intro!: same_pc_lower simp: cost_def held_rank_eq abort_rank_def\<close>)

lemma prepared_lower: "lower (dv', AwaitPrep restrict (PrepDone res)) (dv, AwaitPrep restrict PrepRunning)"
  by (simp add: lower_def op_rank_def)

lemma task_lower:
  "pc_rank q' < pc_rank q \<Longrightarrow> cost dv' = cost dv \<Longrightarrow> unprepared q' = 0 \<Longrightarrow> \<not> is_done q \<Longrightarrow> \<not> is_done q' \<Longrightarrow> lower (dv', q') (dv, q)"
  by (rule lowerI) (simp_all add: left_simps op_rank_def)

lemma removal_lower: "removal_task q = Some mk \<Longrightarrow> cost dv' = cost dv \<Longrightarrow> lower (dv', mk (MarkerDone res)) (dv, q)"
  by (cases q rule: removal_task.cases) (auto intro!: task_lower simp: marker_rank_def)

lemma rank_opened: "worker_rank (opened_worker r) < 8"
  by (simp add: opened_worker_def worker_rank_def split: sum.splits)

lemma rank_running: "\<forall>res. w \<noteq> WorkerDone res \<Longrightarrow> 5 < worker_rank w"
  by (cases w) (auto simp: worker_rank_def)

lemma step_lowers:
  assumes "op_step E s t"
  shows "env_step s t \<or> lower t s"
  using assms
proof cases
  case (os_complete q dv)
  then have "\<not> is_done q" "unprepared q = 0" by (cases q rule: unprepared.cases; auto)+
  then show ?thesis using complete_left [OF os_complete(2)] os_complete(1) by (auto intro!: lowerI simp: op_rank_def)
next
  case (os_abort dv q)
  then have "dv_abort dv = None" "\<not> is_done q" by (cases q; auto simp: armed_signal_def)+
  then have "cost (take_abort dv) < cost dv"
    using cost_commit_abort(2) [of "dv\<lparr>dv_op := _\<rparr>"] cost_commit_abort(2) [of dv] by (auto simp: take_abort_def)
  then show ?thesis using os_abort \<open>\<not> is_done q\<close> by (auto intro: same_pc_lower)
next
  case (os_recovered q dv res)
  have "cost (refresh_pass_done (start_recovery_if_needed (record_recovery res (dv\<lparr>dv_recovery := None\<rparr>)))) < cost dv"
    using cost_start_recovery(1) [of "record_recovery res (dv\<lparr>dv_recovery := None\<rparr>)"] cost_recorded [OF os_recovered(5)] by simp
  moreover have "\<not> is_done q" using os_recovered(3) by (cases q) auto
  ultimately show ?thesis using os_recovered by (auto intro: same_pc_lower)
next
  case (os_walk dv ts)
  then show ?thesis using walk_round_left [of ts dv] by (auto intro!: lowerI simp: left_simps)
next
  case (os_settle dv)
  then show ?thesis using settle_round_left [of dv] by (auto intro!: lowerI simp: left_simps)
next
  case (os_drain dv m ms rc keep inc k rc' keep' inc' q)
  then show ?thesis by (auto intro!: drain_lower simp: drain_rank_def)
next
  case (os_drain_end dv rc keep inc q)
  then show ?thesis by (auto intro!: drain_lower simp: drain_rank_def)
next
  case (os_drain_lost dv ms rc keep inc q err)
  then show ?thesis by (auto intro!: drain_lower simp: drain_rank_def)
next
  case (os_worker_lost w dv u ts err)
  then show ?thesis using rank_running [of w] by (auto intro!: task_lower simp: worker_rank_def [of "WorkerDone _"])
next
  case (os_remove q mk dv d r)
  then show ?thesis by (auto intro: removal_lower)
next
  case (os_remove_lost q mk dv err)
  then show ?thesis by (auto intro: removal_lower)
next
  case (os_remove_lost_late q mk dv d r err)
  then show ?thesis by (auto intro: removal_lower)
next
  case (os_time dv q n)
  then show ?thesis by (auto simp: env_step_def)
next
  case (os_open dv u k r ts)
  then show ?thesis using rank_opened [of r] by (auto intro!: task_lower simp: worker_rank_def [of WorkerSpawned])
next
  case (os_request dv q)
  then show ?thesis by (simp add: env_step_def)
next
  case (os_notify dv q)
  then show ?thesis by (simp add: env_step_def)
qed (auto intro!: prepared_lower task_lower simp: worker_rank_def rollback_rank_def)

section \<open>Until it has settled, it can take one\<close>

definition own_step :: "('k, 'd) freeze_env \<Rightarrow> ('k, 'd) op_state \<Rightarrow> ('k, 'd) op_state \<Rightarrow> bool" where
  "own_step E s t \<longleftrightarrow> op_step E s t \<and> \<not> env_step s t"

lemma own_stepI:
  "op_step E (dv, q) (dv', q') \<Longrightarrow> q' \<noteq> q \<or> dv_recovery dv' \<noteq> dv_recovery dv \<or> dv_abort dv' \<noteq> dv_abort dv \<Longrightarrow>
    \<exists>t. own_step E (dv, q) t"
  unfolding own_step_def by (intro exI [of _ "(dv', q')"]) (auto simp: env_step_def)

lemma own_step_left: "op_step E s t \<Longrightarrow> left t \<noteq> left s \<Longrightarrow> \<exists>t. own_step E s t"
  unfolding own_step_def by (intro exI [of _ t]) (auto simp: left_def dest: rank_env)

text \<open>A task that ended is taken up at once: by the abort, the drain's record or the completion.\<close>

lemma completed_is_taken:
  assumes "complete (en_tx E) q dv = Some s" "awaiting q"
  shows "\<exists>t. own_step E (dv, q) t"
proof (cases "armed_signal dv q")
  case True
  have "dv_abort (commit_abort cause d) \<noteq> None" for cause and d :: "('a, 'b) driver"
    using rank_commit_abort(2) [of cause d] by (auto simp: abort_rank_def split: if_splits)
  then have "dv_abort (take_abort dv) \<noteq> dv_abort dv" using True by (auto simp: take_abort_def armed_signal_def)
  then show ?thesis using os_abort [OF True] by (intro own_stepI) auto
next
  case False
  show ?thesis
  proof (cases "drain_finished (dv_recovery dv)")
    case True
    then obtain res where res: "dv_recovery dv = Some (DrainDone res)" by (cases "dv_recovery dv" rule: drain_finished.cases) auto
    have "dv_recovery (start_recovery_if_needed d) \<noteq> Some (DrainDone res)" if "dv_recovery d = None" for d :: "('a, 'b) driver"
      using that by (auto simp: start_recovery_if_needed_def take_frozen_mounts_def Let_def)
    then show ?thesis using os_recovered [OF assms(2) False res] res by (intro own_stepI) auto
  next
    case False
    then have "op_step E (dv, q) s" using assms \<open>\<not> armed_signal dv q\<close> by (auto intro: os_complete simp: may_complete_def)
    then show ?thesis using complete_left [OF assms(1)] by (intro own_step_left) auto
  qed
qed

lemma settling_goes_on: "\<exists>t. own_step E (dv, SettleAborted) t"
proof (cases "dv_recovery dv = None \<or> drain_finished (dv_recovery dv)")
  case True
  then show ?thesis using settle_round_left [of dv] os_settle by (intro own_step_left) (auto simp: left_simps)
next
  case False
  then obtain ms rc keep inc where r: "dv_recovery dv = Some (DrainRunning ms rc keep inc)"
    by (cases "dv_recovery dv" rule: drain_finished.cases) auto
  show ?thesis using os_drain_lost [OF r] r by (intro own_stepI) auto
qed

lemma operation_goes_on: "is_done (snd s) \<or> (\<exists>t. own_step E s t)"
proof -
  obtain dv q where s: "s = (dv, q)" by fastforce
  consider "is_done q" | "awaiting q" "complete (en_tx E) q dv \<noteq> None" | "\<exists>mk. removal_task q = Some mk" | restrict where "q = AwaitPrep restrict PrepRunning"
    | ts where "q = Walk ts" | t ts w where "q = AwaitWorker t ts w" "\<forall>res. w \<noteq> WorkerDone res"
    | held failed stop where "q = AwaitRollback (RollbackRunning held failed stop)" | "q = SettleAborted"
  proof (cases q)
    case (AwaitPrep restrict t)
    then show ?thesis using that(2,4) by (cases t) auto
  next
    case (AwaitWorker t ts w)
    then show ?thesis using that(2,6) by (cases w) auto
  next
    case (AwaitNothingFrozen t)
    then show ?thesis using that(2,3) by (cases t) auto
  next
    case (AwaitPrepRemoval f t)
    then show ?thesis using that(2,3) by (cases t) auto
  next
    case (AwaitRollback t)
    then show ?thesis using that(2,7) by (cases t) auto
  next
    case (AwaitAbortedRemoval t)
    then show ?thesis using that(2,3) by (cases t) auto
  qed (use that in auto)
  then show ?thesis
  proof cases
    case 2
    then show ?thesis using completed_is_taken [of E q dv] by (auto simp: s)
  next
    case 3
    then obtain mk where mk: "removal_task q = Some mk" by blast
    then have "mk (MarkerDone (Err '''')) \<noteq> q" by (cases q rule: removal_task.cases) auto
    then show ?thesis using own_stepI [OF os_remove_lost [OF mk]] unfolding s by blast
  next
    case 4
    then show ?thesis using own_stepI [OF os_prep_lost] by (simp add: s)
  next
    case (5 ts)
    then show ?thesis using walk_round_left(1) [of ts dv] own_step_left [OF os_walk [of E dv ts]] by (auto simp: s left_simps)
  next
    case (6 t ts w)
    from 6(2) have "w \<noteq> WorkerDone (Err '''')" by blast
    then show ?thesis using own_stepI [OF os_worker_lost [OF 6(2), of E dv t ts "''''"]] 6(1) unfolding s by blast
  next
    case 7
    then show ?thesis using own_stepI [OF os_rollback_lost] by (simp add: s)
  qed (use settling_goes_on s in auto)
qed

section \<open>Properties\<close>

text \<open>
  C5. A freeze operation ends: in every infinite run of it, whatever thaw requests arrive and however its
  tasks end or are lost, only finitely many steps are its own (the rest are the passing of time and the
  requests); and in every state in which it has not settled it can take one.
\<close>

theorem operation_terminates:
  assumes "\<And>i. op_step E (run i) (run (Suc i))"
  shows "(\<exists>n. \<forall>i \<ge> n. \<not> own_step E (run i) (run (Suc i))) \<and> (\<forall>i. is_done (snd (run i)) \<or> (\<exists>t. own_step E (run i) t))"
proof -
  let ?R = "less_than <*lex*> less_than"
  have "wf ?R" by auto
  then obtain n where min: "\<And>i. (op_rank (run i), op_rank (run n)) \<notin> ?R"
    using wfE_min [of ?R "op_rank (run 0)" "range (\<lambda>i. op_rank (run i))"] by (smt (verit, best) image_iff rangeI)
  have st: "env_step (run i) (run (Suc i)) \<or> lower (run (Suc i)) (run i)" for i using step_lowers [OF assms] .
  have same: "op_rank (run i) = op_rank (run n)" if "n \<le> i" for i
    using that
  proof (induction i rule: dec_induct)
    case (step i)
    then have "\<not> lower (run (Suc i)) (run i)" using min [of "Suc i"] by (simp add: lower_def)
    then have "env_step (run i) (run (Suc i))" using st [of i] by blast
    from rank_env [OF this] show ?case using step by simp
  qed simp
  have "\<not> own_step E (run i) (run (Suc i))" if "n \<le> i" for i
  proof -
    have "\<not> lower (run (Suc i)) (run i)" using same [of i] same [of "Suc i"] that \<open>wf ?R\<close> by (simp add: lower_def wf_not_refl)
    then show ?thesis using st [of i] by (simp add: own_step_def)
  qed
  then show ?thesis using operation_goes_on by blast
qed

section \<open>Witnesses\<close>

theorem operation_terminates_witness:
  "\<exists>t. own_step example_env (start_op 1 example_ctx FreezeToken None) t"
proof -
  let ?s = "start_op 1 example_ctx FreezeToken None"
  have "op_step example_env ?s ?s" using os_time [of example_env "fst ?s" "snd ?s" 0] by simp
  from operation_terminates [of example_env "\<lambda>_. ?s", OF this] show ?thesis by (auto simp: start_op_def)
qed

end
