(* ===== verification/Spec2Isabelle.thy ===== *)
theory Spec2Isabelle
  imports Framing Bounds Proto State Mountinfo FreezePlan Kernel Marker Drain Context FreezeOp FreezeSafety
    Watchdog Fsfreeze Lifecycle LifecycleSafety Config Handlers OsInfo Interfaces FsInfo
    RateLimit AuditRecord Dispatch Router AuditSafety Channel Seccomp Caps Daemon
    FreezeTermination
begin

text \<open>
  A verification of \<^verbatim>\<open>qeminga\<close>, a restricted QEMU guest agent: a daemon that serves a small set of commands
  over a virtio port, above all the freezing and thawing of the guest's filesystems for a backup. File names
  below are under \<^verbatim>\<open>src/src\<close>.

  \<^bold>\<open>The program.\<close> Bytes of the port are cut into frames, checked for their structure and parsed into
  requests; the dispatcher gates each one (allowlist, configuration, rate, freeze state), runs its
  handler and writes one audit record; replies leave in request order. A freeze request starts an operation
  that plans the filesystems from the mount table, writes a recovery marker, freezes one target after the
  other in worker tasks, and can be aborted by a thaw request or its deadline at any point; a watchdog ends a
  freeze nobody ends; a daemon that finds the marker at its start begins in \<^verbatim>\<open>Frozen\<close>. While anything may be
  frozen, log records go to a ring in memory, since a write to a frozen filesystem would block for ever.
  At its start the daemon drops its privileges and installs a system call filter.

  \<^bold>\<open>The theories\<close>, each with the definitions of one part in the order of its source file and the lemmas about
  them:
  \<^item> \<open>Prelude\<close>: results as sums, saturating arithmetic, decimal texts, reachability of a step relation and the
    locale \<open>inductive_invariant\<close>, which every invariant below is an interpretation of. \<open>Utf8\<close>: validity and
    lossy decoding of byte strings.
  \<^item> \<open>Framing\<close> (\<^verbatim>\<open>framing.rs\<close>): the decoder is insensitive to how its input is cut and equals a declarative
    reading of the stream; encoding and decoding round-trip; its memory is bounded. \<open>Bounds\<close>
    (\<^verbatim>\<open>proto/bounds.rs\<close>) and \<open>Proto\<close> (\<^verbatim>\<open>proto.rs\<close>): exactly which frames are requests; the size of the envelope.
  \<^item> \<open>Mountinfo\<close> (\<^verbatim>\<open>mountinfo.rs\<close>) and \<open>FreezePlan\<close> (\<^verbatim>\<open>freeze_plan.rs\<close>): the table's parser against the documented
    format and the widths of its numbers; one target per superblock; path resolution against the unbounded walk.
  \<^item> \<open>Kernel\<close> (\<^verbatim>\<open>kernel/mod.rs\<close>, \<^verbatim>\<open>kernel/ioctl.rs\<close>, \<^verbatim>\<open>kernel/shutdown.rs\<close>, \<^verbatim>\<open>kernel/fake.rs\<close>), \<open>Marker\<close> (\<^verbatim>\<open>marker.rs\<close>):
    the trait of kernel operations as a record, its production instance and the depth-tracking double;
    the marker through its pinned directory.
  \<^item> \<open>State\<close> (\<^verbatim>\<open>state.rs\<close>): the four-state machine with its linear tokens. \<open>Context\<close> (the shared state of
    \<^verbatim>\<open>dispatch.rs\<close> and the hooks of \<^verbatim>\<open>handlers/fsfreeze.rs\<close>), \<open>Watchdog\<close> (\<^verbatim>\<open>watchdog.rs\<close>).
  \<^item> \<open>Drain\<close> (the blocking half of \<^verbatim>\<open>handlers/fsfreeze.rs\<close>), \<open>FreezeOp\<close> (\<^verbatim>\<open>freeze_op.rs\<close>, the step relation
    \<open>op_step\<close>), \<open>Fsfreeze\<close> (the handlers): a thaw that reports success is complete, an accepted abort excludes
    success. \<open>FreezeTermination\<close>: an operation ends. \<open>FreezeSafety\<close>: the bookkeeping of what is frozen, as the
    locale \<open>freeze_depth\<close> of a kernel that counts freezes, interpreted on the double: the marker covers
    everything frozen at every point, and what settles \<^verbatim>\<open>Thawed\<close> has released everything.
  \<^item> \<open>Lifecycle\<close>, \<open>LifecycleSafety\<close>: operations, thaws, watchdogs, recovery and restarts composed into the
    daemon's life (\<open>sys_step\<close>): crash safety, the truth of the status, a \<^verbatim>\<open>Frozen\<close> state is watched and an
    abandoned one thawed.
  \<^item> \<open>Config\<close> (\<^verbatim>\<open>config.rs\<close>), \<open>Handlers\<close>, \<open>OsInfo\<close>, \<open>Interfaces\<close>, \<open>FsInfo\<close> (\<^verbatim>\<open>handlers\<close>), \<open>RateLimit\<close>
    (\<^verbatim>\<open>dispatch/ratelimit.rs\<close>), \<open>AuditRecord\<close> (\<^verbatim>\<open>audit.rs\<close>, records), \<open>Dispatch\<close> (\<^verbatim>\<open>dispatch.rs\<close>): which configurations
    are accepted, the handlers' answers on every branch, the gates, one audit record for every frame.
  \<^item> \<open>Router\<close> (\<^verbatim>\<open>audit.rs\<close>, ring, queue and writer thread, \<open>rw_step\<close>): no record is lost unaccounted, no
    wake-up is lost, memory is bounded. \<open>AuditSafety\<close>: the life cycle beside the router over any number of
    processes, refused starts included (\<open>au_step\<close>): no sink write starts while anything is frozen, except in a
    process that refused to start and says why before it leaves.
  \<^item> \<open>Channel\<close> (\<^verbatim>\<open>channel.rs\<close>, \<open>sw_step\<close>): replies in request order, the lanes, no command abandoned, no
    session that waits for nothing, a thaw started beside a running freeze, no session that ends cancelled
    unless it was.
  \<^item> \<open>Seccomp\<close> (\<^verbatim>\<open>seccomp.rs\<close>), \<open>Caps\<close> (\<^verbatim>\<open>kernel/caps.rs\<close>), \<open>Daemon\<close> (\<^verbatim>\<open>daemon.rs\<close>, \<^verbatim>\<open>main.rs\<close>): the filter's surface, the
    privilege drop, the start-up sequence over the trait \<^verbatim>\<open>Startup\<close> and its production instance over all of the
    above: nothing is served unconfined under enforced hardening, the sequence leads into the life cycle,
    a stop waits for the thaw.

  \<^bold>\<open>How code is modelled.\<close> Pure functions are functions; a \<^verbatim>\<open>struct\<close> is a record, an \<^verbatim>\<open>enum\<close> a datatype, a
  \<^verbatim>\<open>Result\<close> a sum with the error on the left, and errors keep their texts. Concurrent code (tokio tasks,
  threads under a mutex) is a step relation whose steps are the stretches between two awaits or one critical
  section; blocking tasks may end, be lost before they ran or after they ran, at any later step. The runtime has
  several threads: between the publication of \<^verbatim>\<open>Frozen\<close> and the \<^verbatim>\<open>on_frozen\<close> call that arms the watchdog, between a
  claim and the \<^verbatim>\<open>on_thaw_claimed\<close> call that cancels it, and between the expiry of a watchdog and its claim, other
  tasks may take steps. Within \<^verbatim>\<open>conclude\<close> and the end of \<^verbatim>\<open>run_thaw\<close> what comes before the publication of the
  state belongs to the step that publishes it: until then the token excludes every other claim. Integers are
  natural numbers: where the code saturates or wraps, so do the definitions; where it cannot overflow, a
  lemma or an invariant says why (the widths of parsed numbers, the bounds of decoder, router and session).
  Time is a natural number that steps may advance at will. Byte strings and texts are lists of characters.

  \<^bold>\<open>Loops and bounds.\<close> No definition uses fuel of its own. The loop bounds are the code's: \<^verbatim>\<open>MAX_THAW_ITERATIONS\<close> of a
  drain, the number of rows of the mount tree in \<^verbatim>\<open>resolve\<close>, which is shown to be enough, and the capacities of
  the router and the session. Loops that may run for ever (the watchdog, the reopen loop, the writer) are
  step relations, or functions of the list of what they observe.

  \<^bold>\<open>Parameters and hypotheses.\<close> What lies outside the sources is a parameter: system calls and their answers,
  \<^verbatim>\<open>serde_json\<close>, TOML, SHA-256, the token bucket of \<^verbatim>\<open>governor\<close>, \<^verbatim>\<open>seccompiler\<close>, the subscriber's formatting. Their
  documented behaviour appears as named hypotheses: \<open>posix_dir\<close> (creating, removing and looking up a file
  in a directory), \<open>linux_caps\<close> (what a successful change of credentials does), \<open>fake_tracking\<close> (a kernel that
  counts freezes, as the repository's double does) and \<open>stable_mounts\<close> (every reading of the mount
  table lists the same eligible superblocks); each has a witness. The last is an assumption about the guest, not
  documented behaviour: crash safety, the truth of the status and the silence of the log are shown for guests
  whose eligible superblocks stay while the agent has them frozen. The drain's own branch for a held target that
  has left the plan is part of \<open>Drain\<close>, whose theorems do not assume it.

  \<^bold>\<open>Not modelled.\<close> The reactor glue of \<^verbatim>\<open>kernel/async_fd.rs\<close> and the unsafe blocks around the ioctls, which have no
  logic beyond the call; the calls of \<^verbatim>\<open>caps\<close> and \<^verbatim>\<open>nix\<close> behind \<^verbatim>\<open>SystemCaps\<close>; the installation
  of the tracing subscriber; the blocking gates and hooks of the kernel double, which only its tests use; the
  scheduling of tokio beyond interleaving; the tests, fuzz targets, scripts, packaging and documents. The
  \<^verbatim>\<open>statfs\<close>, \<^verbatim>\<open>uname\<close> and \<^verbatim>\<open>getifaddrs\<close> answers and the \<^verbatim>\<open>sysfs\<close> files of suspend are parameters.
\<close>

section \<open>Properties that span components\<close>

text \<open>
  C29. The sandbox is as wide as the commands it serves: under the authority of a configuration, \<^verbatim>\<open>reboot\<close>
  passes the filter and \<^verbatim>\<open>CAP_SYS_BOOT\<close> is kept exactly when the dispatcher's gate admits \<^verbatim>\<open>guest-shutdown\<close>;
  the \<^verbatim>\<open>FITRIM\<close> request passes exactly when it admits \<^verbatim>\<open>guest-fstrim\<close>; netlink sockets, \<^verbatim>\<open>statfs\<close> and \<^verbatim>\<open>uname\<close>
  exactly when it admits the information commands; and freezing and thawing always.
\<close>

theorem sandbox_follows_gate:
  assumes "length args = 6"
  shows "(filter_allows (rules t (authority_of b c)) ''reboot'' args \<longleftrightarrow> is_ok (runtime_feature_gate b c ''guest-shutdown'')) \<and>
    (CAP_SYS_BOOT \<in> final_capability_set (authority_of b c) \<longleftrightarrow> is_ok (runtime_feature_gate b c ''guest-shutdown'')) \<and>
    (filter_allows (rules t (authority_of b c)) ''ioctl'' args \<longleftrightarrow>
       dword (args ! 1) \<in> {FIFREEZE, FITHAW} \<or>
       dword (args ! 1) = FITRIM \<and> is_ok (runtime_feature_gate b c ''guest-fstrim'')) \<and>
    (\<forall>m \<in> {''guest-get-osinfo'', ''guest-network-get-interfaces'', ''guest-get-fsinfo''}.
       (filter_allows (rules t (authority_of b c)) ''statfs'' args \<longleftrightarrow> is_ok (runtime_feature_gate b c m)) \<and>
       (filter_allows (rules t (authority_of b c)) ''uname'' args \<longleftrightarrow> is_ok (runtime_feature_gate b c m)) \<and>
       (filter_allows (rules t (authority_of b c)) ''socket'' args \<longleftrightarrow>
          dword (args ! 0) = AF_NETLINK \<and> is_ok (runtime_feature_gate b c m))) \<and>
    (\<forall>m \<in> {''guest-fsfreeze-freeze'', ''guest-fsfreeze-freeze-list'', ''guest-fsfreeze-thaw'', ''guest-fsfreeze-status''}.
       is_ok (runtime_feature_gate b c m))"
  using assms unfolding rules_allow feature_gate_enabled final_set_exact
  by (auto simp: is_enabled_def authority_of_def COMMON_def INFORMATION_def POWER_def X86_64_ONLY_def)

theorem sandbox_follows_gate_witness:
  "filter_allows (rules Aarch64 (authority_of \<lparr>bd_seccomp = True, bd_suspend_ram = False\<rparr> default_config)) ''reboot'' [1, 2, 3, 4, 5, 6] \<and>
   is_ok (runtime_feature_gate \<lparr>bd_seccomp = True, bd_suspend_ram = False\<rparr> default_config ''guest-shutdown'')"
proof -
  have "shutdown_enabled default_config" by (simp add: shutdown_enabled_def default_config_def default_features_def)
  then have "is_ok (runtime_feature_gate \<lparr>bd_seccomp = True, bd_suspend_ram = False\<rparr> default_config ''guest-shutdown'')"
    by (simp add: feature_gate_enabled is_enabled_def)
  then show ?thesis using sandbox_follows_gate [of "[1, 2, 3, 4, 5, 6]" Aarch64] by simp
qed

end
